(* ===== verification/Redis_Prelude.thy ===== *)
theory Redis_Prelude
  imports Main "HOL-Library.Word" "HOL-Library.Monad_Syntax"
begin

unbundle bit_operations_syntax

text \<open>
  Shared vocabulary of the development: bytes, raw memory buffers whose accesses are
  checked, and the little-endian layout of integers in memory.

  A buffer is the list of the bytes of one allocation.  Reading or writing outside of it is
  undefined behaviour in C; the model makes it \<^term>\<open>None\<close>, so that a lemma stating
  that an operation returns \<^term>\<open>Some\<close> is also a memory-safety statement about it.
  The host is taken to be little endian, where the \<open>memrev16ifbe\<close>, \<open>memrev32ifbe\<close>
  and \<open>memrev64ifbe\<close> macros of \<open>endianconv.h\<close> expand to nothing.
\<close>

type_synonym byte = "8 word"
type_synonym bytes = "byte list"
type_synonym u16 = "16 word"
type_synonym u32 = "32 word"
type_synonym u64 = "64 word"

named_theorems buf_simps \<open>rewriting of checked buffer accesses\<close>

subsection \<open>Buffers\<close>

definition buf_read :: "bytes \<Rightarrow> nat \<Rightarrow> nat \<Rightarrow> bytes option" where
  "buf_read b off n = (if off + n \<le> length b then Some (take n (drop off b)) else None)"

definition buf_write :: "bytes \<Rightarrow> nat \<Rightarrow> bytes \<Rightarrow> bytes option" where
  "buf_write b off d =
     (if off + length d \<le> length b
      then Some (take off b @ d @ drop (off + length d) b) else None)"

definition buf_memmove :: "bytes \<Rightarrow> nat \<Rightarrow> nat \<Rightarrow> nat \<Rightarrow> bytes option" where
  "buf_memmove b dst src n = do { d \<leftarrow> buf_read b src n; buf_write b dst d }"

text \<open>
  \<open>zrealloc\<close>: the common prefix is kept; the content of fresh memory is not known to the
  program, so it is an argument of the model.
\<close>

definition zrealloc :: "(nat \<Rightarrow> byte) \<Rightarrow> bytes \<Rightarrow> nat \<Rightarrow> bytes" where
  "zrealloc junk b n = take n b @ map junk [length b..<n]"

lemma length_zrealloc [simp]: "length (zrealloc junk b n) = n"
  by (simp add: zrealloc_def)

lemma take_zrealloc: "k \<le> n \<Longrightarrow> k \<le> length b \<Longrightarrow> take k (zrealloc junk b n) = take k b"
  by (simp add: zrealloc_def)

lemma zrealloc_shrink: "n \<le> length b \<Longrightarrow> zrealloc junk b n = take n b"
  by (simp add: zrealloc_def)

lemma length_buf_read: "buf_read b off n = Some d \<Longrightarrow> length d = n"
  by (auto simp: buf_read_def split: if_splits)

lemma length_buf_write: "buf_write b off d = Some b' \<Longrightarrow> length b' = length b"
  by (auto simp: buf_write_def split: if_splits)

lemma buf_read_mid [buf_simps]:
  "off = length xs \<Longrightarrow> n = length d \<Longrightarrow> buf_read (xs @ d @ ys) off n = Some d"
  by (simp add: buf_read_def)

lemma buf_write_mid [buf_simps]:
  "off = length xs \<Longrightarrow> length d' = length d \<Longrightarrow>
   buf_write (xs @ d @ ys) off d' = Some (xs @ d' @ ys)"
  by (simp add: buf_write_def)

lemma buf_read_over [buf_simps]: "length b < off + n \<Longrightarrow> buf_read b off n = None"
  by (simp add: buf_read_def)

lemma buf_write_over [buf_simps]: "length b < off + length d \<Longrightarrow> buf_write b off d = None"
  by (simp add: buf_write_def)

lemma buf_read_write_same:
  "buf_write b off d = Some b' \<Longrightarrow> n = length d \<Longrightarrow> buf_read b' off n = Some d"
  by (auto simp: buf_write_def buf_read_def split: if_splits)

lemma buf_read_write_before:
  assumes "buf_write b off d = Some b'" "off' + n \<le> off"
  shows "buf_read b' off' n = buf_read b off' n"
  using assms by (auto simp: buf_write_def buf_read_def drop_take min_def split: if_splits)

lemma buf_read_write_after:
  assumes "buf_write b off d = Some b'" "off + length d \<le> off'"
  shows "buf_read b' off' n = buf_read b off' n"
  using assms by (auto simp: buf_write_def buf_read_def split: if_splits)

lemma buf_write_Some: "off + length d \<le> length b \<Longrightarrow> \<exists>b'. buf_write b off d = Some b'"
  by (simp add: buf_write_def)

lemma buf_memmove_eq:
  "src + n \<le> length b \<Longrightarrow> dst + n \<le> length b \<Longrightarrow>
   buf_memmove b dst src n = Some (take dst b @ take n (drop src b) @ drop (dst + n) b)"
  by (simp add: buf_memmove_def buf_read_def buf_write_def)

text \<open>Single-byte accesses through an index that may have run before the block.\<close>

definition get_byte :: "bytes \<Rightarrow> int \<Rightarrow> byte option" where
  "get_byte b i = (if 0 \<le> i \<and> nat i < length b then Some (b ! nat i) else None)"

definition put_byte :: "bytes \<Rightarrow> int \<Rightarrow> byte \<Rightarrow> bytes option" where
  "put_byte b i x = (if 0 \<le> i \<and> nat i < length b then Some (b[nat i := x]) else None)"

lemma length_put_byte: "put_byte b i x = Some b' \<Longrightarrow> length b' = length b"
  by (auto simp: put_byte_def split: if_splits)

lemma put_byte_mid [buf_simps]:
  "i = int (length xs) \<Longrightarrow> put_byte (xs @ y # ys) i x = Some (xs @ x # ys)"
  by (simp add: put_byte_def)

lemma get_byte_mid [buf_simps]: "i = int (length xs) \<Longrightarrow> get_byte (xs @ y # ys) i = Some y"
  by (simp add: get_byte_def)

lemma get_byte_nat: "i < length b \<Longrightarrow> get_byte b (int i) = Some (b ! i)"
  by (simp add: get_byte_def)

text \<open>Text constants: the bytes of a C string literal.\<close>

definition bstr :: "string \<Rightarrow> bytes" where
  "bstr s = map of_char s"

subsection \<open>Lists\<close>

lemma set_insert_at: "set (take i xs @ v # drop i xs) = insert v (set xs)"
proof -
  have "set xs = set (take i xs) \<union> set (drop i xs)"
    by (simp flip: set_append)
  then show ?thesis by simp
qed

subsection \<open>Unsigned machine arithmetic without wrap-around\<close>

lemma unat_add_no_wrap: "unat (a :: 'a::len word) + unat b < 2 ^ LENGTH('a) \<Longrightarrow> unat (a + b) = unat a + unat b"
  by (simp add: unat_add_lem)

lemma unat_mult_no_wrap: "unat (a :: 'a::len word) * unat b < 2 ^ LENGTH('a) \<Longrightarrow> unat (a * b) = unat a * unat b"
  by (simp add: unat_mult_lem)

lemma unat_of_nat_no_wrap: "n < 2 ^ LENGTH('a::len) \<Longrightarrow> unat (of_nat n :: 'a word) = n"
  by (simp add: unat_of_nat take_bit_nat_eq_self)

lemma unat_dec: "(w :: 'a::len word) \<noteq> 0 \<Longrightarrow> unat (w - 1) = unat w - 1"
  by (simp add: unat_minus_one)

lemma sint_eq_unat:
  assumes "unat (w :: 'a::len word) < 2 ^ (LENGTH('a) - 1)"
  shows "sint w = int (unat w)"
proof -
  have "int (unat w) < 2 ^ (LENGTH('a) - 1)"
    using assms by (metis of_nat_less_iff of_nat_numeral of_nat_power)
  moreover have "- (2 ^ (LENGTH('a) - 1)) \<le> int (unat w)"
    by (rule order_trans [of _ 0]) simp_all
  ultimately have "signed_take_bit (LENGTH('a) - 1) (int (unat w)) = int (unat w)"
    by (intro signed_take_bit_int_eq_self)
  then show ?thesis by (simp add: sint_uint)
qed

lemma of_nat_unatI: "unat w = n \<Longrightarrow> of_nat n = (w :: 'a::len word)"
  by auto

subsection \<open>Little-endian integers\<close>

fun le_bytes :: "nat \<Rightarrow> int \<Rightarrow> bytes" where
  "le_bytes 0 v = []"
| "le_bytes (Suc n) v = word_of_int v # le_bytes n (v div 256)"

fun le_uint :: "bytes \<Rightarrow> int" where
  "le_uint [] = 0"
| "le_uint (b # bs) = uint b + 256 * le_uint bs"

definition le_sint :: "bytes \<Rightarrow> int" where
  "le_sint bs =
     (let u = le_uint bs; n = 8 * length bs
      in if 2 ^ (n - 1) \<le> u then u - 2 ^ n else u)"

lemma length_le_bytes [simp]: "length (le_bytes n v) = n"
  by (induction n arbitrary: v) auto

lemma le_uint_nonneg [simp]: "0 \<le> le_uint bs"
  by (induction bs) auto

lemma le_uint_less: "le_uint bs < 256 ^ length bs"
proof (induction bs)
  case (Cons b bs)
  have "uint b < 256"
    using uint_lt2p [of b] by simp
  moreover from Cons have "256 * le_uint bs \<le> 256 * (256 ^ length bs - 1)"
    by simp
  ultimately show ?case
    by (simp add: algebra_simps)
qed simp

lemma le_uint_le_bytes: "le_uint (le_bytes n v) = v mod 256 ^ n"
proof (induction n arbitrary: v)
  case (Suc n)
  have "uint (word_of_int v :: byte) = v mod 256"
    by (simp add: uint_word_of_int)
  then have "le_uint (le_bytes (Suc n) v) = v mod 256 + 256 * (v div 256 mod 256 ^ n)"
    by (simp add: Suc)
  also have "\<dots> = v mod (256 * 256 ^ n)"
    by (simp add: zmod_zmult2_eq)
  finally show ?case by simp
qed simp

lemma le_bytes_le_uint: "le_bytes (length bs) (le_uint bs) = bs"
proof (induction bs)
  case (Cons b bs)
  have "(256 :: byte) = 0" by simp
  then have "(256 :: byte) * word_of_int (le_uint bs) = 0" by (simp only: mult_zero_left)
  then have "word_of_int (uint b + 256 * le_uint bs) = (b :: byte)" by simp
  moreover have "(uint b + 256 * le_uint bs) div 256 = le_uint bs"
    using uint_lt2p [of b] by simp
  ultimately show ?case by (simp add: Cons)
qed simp

lemma power_256: "(256 :: int) ^ n = 2 ^ (8 * n)"
  by (simp add: power_mult)

lemma power_half: "0 < k \<Longrightarrow> (2::int) ^ k = 2 * 2 ^ (k - 1)"
  by (cases k) simp_all

lemma le_sint_le_bytes:
  assumes "0 < n" "- (2 ^ (8 * n - 1)) \<le> v" "v < 2 ^ (8 * n - 1)"
  shows "le_sint (le_bytes n v) = v"
proof -
  define h :: int where "h = 2 ^ (8 * n - Suc 0)"
  have full: "(2::int) ^ (8 * n) = 2 * h"
    using power_half [of "8 * n"] assms(1) by (simp add: h_def)
  have v: "- h \<le> v" "v < h"
    using assms(2,3) by (simp_all add: h_def)
  have u: "le_uint (le_bytes n v) = v mod (2 * h)"
    by (simp only: le_uint_le_bytes power_256 full)
  have "v mod (2 * h) = (if 0 \<le> v then v else v + 2 * h)"
  proof (cases "0 \<le> v")
    case False
    have "v mod (2 * h) = (v + 2 * h) mod (2 * h)" by simp
    also have "\<dots> = v + 2 * h"
      using False v by (intro mod_pos_pos_trivial) auto
    finally show ?thesis using False by simp
  qed (use v in simp)
  then show ?thesis
    using v by (auto simp: le_sint_def Let_def u full h_def [symmetric])
qed

lemma le_bytes_mod: "256 ^ n = m \<Longrightarrow> le_bytes n (v mod m) = le_bytes n v"
  using le_bytes_le_uint [of "le_bytes n v"] by (simp add: le_uint_le_bytes)

lemma le_bytes_le_sint: "le_bytes (length bs) (le_sint bs) = bs"
proof -
  have "le_sint bs mod 256 ^ length bs = le_uint bs"
    using le_uint_less [of bs] le_uint_nonneg [of bs]
    by (auto simp: le_sint_def Let_def power_256 simp del: le_uint_nonneg)
  then show ?thesis
    by (metis le_bytes_le_uint le_bytes_mod)
qed

lemma le_sint_bounds:
  assumes "bs \<noteq> []"
  shows "- (2 ^ (8 * length bs - 1)) \<le> le_sint bs \<and> le_sint bs < 2 ^ (8 * length bs - 1)"
proof -
  define h :: int where "h = 2 ^ (8 * length bs - Suc 0)"
  have full: "(2::int) ^ (8 * length bs) = 2 * h"
    using power_half [of "8 * length bs"] assms by (simp add: h_def)
  have "le_uint bs < 2 * h"
    using le_uint_less [of bs] by (simp only: power_256 full)
  moreover have "0 < h" by (simp add: h_def)
  ultimately show ?thesis
    using le_uint_nonneg [of bs]
    by (auto simp: le_sint_def Let_def full h_def [symmetric] simp del: le_uint_nonneg)
qed

subsection \<open>Running commands against a specification\<close>

text \<open>
  A component that keeps a state and answers commands: \<open>run_cmds\<close> executes a sequence of
  commands, where \<^term>\<open>None\<close> is a memory error, and \<open>run_spec\<close> the same sequence on an
  abstract state that cannot go wrong.
\<close>

fun run_cmds :: "('c \<Rightarrow> 's \<Rightarrow> ('s \<times> 'a) option) \<Rightarrow> 'c list \<Rightarrow> 's \<Rightarrow> ('s \<times> 'a list) option" where
  "run_cmds exec [] s = Some (s, [])"
| "run_cmds exec (c # cs) s = do {
     (s1, a) \<leftarrow> exec c s;
     (s2, as) \<leftarrow> run_cmds exec cs s1;
     Some (s2, a # as)
   }"

fun run_spec :: "('c \<Rightarrow> 'm \<Rightarrow> 'm \<times> 'a) \<Rightarrow> 'c list \<Rightarrow> 'm \<Rightarrow> 'm \<times> 'a list" where
  "run_spec step [] m = (m, [])"
| "run_spec step (c # cs) m =
     (let (m1, a) = step c m; (m2, as) = run_spec step cs m1 in (m2, a # as))"

text \<open>
  The contract: each command terminates safely, keeps the invariant and agrees with the
  specification, as long as the weight of the state is below a limit; a command adds at most
  one to the weight.
\<close>

locale simulation =
  fixes invar :: "'s \<Rightarrow> bool"
    and abstr :: "'s \<Rightarrow> 'm"
    and weight :: "'s \<Rightarrow> nat"
    and limit :: nat
    and exec :: "'c \<Rightarrow> 's \<Rightarrow> ('s \<times> 'a) option"
    and step :: "'c \<Rightarrow> 'm \<Rightarrow> 'm \<times> 'a"
  assumes exec_step: "invar s \<Longrightarrow> weight s < limit \<Longrightarrow>
    \<exists>s' a. exec c s = Some (s', a) \<and> invar s' \<and> step c (abstr s) = (abstr s', a) \<and>
      weight s' \<le> Suc (weight s)"
begin

lemma run_refines:
  assumes "invar s" "weight s + length cs \<le> limit"
  shows "\<exists>s' as. run_cmds exec cs s = Some (s', as) \<and> invar s' \<and>
    run_spec step cs (abstr s) = (abstr s', as) \<and> weight s' \<le> weight s + length cs"
  using assms
proof (induction cs arbitrary: s)
  case (Cons c cs)
  then have "weight s < limit" by simp
  from exec_step [OF Cons.prems(1) this, of c] obtain s1 a where
    s1: "exec c s = Some (s1, a)" "invar s1" "step c (abstr s) = (abstr s1, a)"
      "weight s1 \<le> Suc (weight s)" by auto
  with Cons.prems have "weight s1 + length cs \<le> limit" by simp
  from Cons.IH [OF s1(2) this] s1 show ?case by auto
qed simp

end

end
