(* ===== verification/Intset.thy ===== *)
theory Intset
  imports Redis_Prelude
begin

text \<open>
  \<open>intset.c\<close>: the sorted integer set kept in one memory block.  The model works on the
  bytes of the block: every access goes through the checked buffers of the prelude, and the
  32-bit size computations wrap around as they do in C.
\<close>

subsection \<open>The structure and its accessors\<close>

record intset =
  encoding :: u32
  len :: u32
  contents :: bytes

definition INTSET_ENC_INT16 :: nat where "INTSET_ENC_INT16 = 2"
definition INTSET_ENC_INT32 :: nat where "INTSET_ENC_INT32 = 4"
definition INTSET_ENC_INT64 :: nat where "INTSET_ENC_INT64 = 8"

lemmas intset_encs = INTSET_ENC_INT16_def INTSET_ENC_INT32_def INTSET_ENC_INT64_def

definition intsetValueEncoding :: "int \<Rightarrow> nat" where
  "intsetValueEncoding v =
     (if v < - (2 ^ 31) \<or> v > 2 ^ 31 - 1 then INTSET_ENC_INT64
      else if v < - (2 ^ 15) \<or> v > 2 ^ 15 - 1 then INTSET_ENC_INT32
      else INTSET_ENC_INT16)"

text \<open>Pointer arithmetic with a negative position leaves the block: undefined.\<close>

definition intsetGetEncoded :: "intset \<Rightarrow> int \<Rightarrow> nat \<Rightarrow> int option" where
  "intsetGetEncoded is pos enc =
     (if pos < 0 then None
      else if enc = INTSET_ENC_INT64
        then map_option le_sint (buf_read (contents is) (nat pos * 8) 8)
      else if enc = INTSET_ENC_INT32
        then map_option le_sint (buf_read (contents is) (nat pos * 4) 4)
      else map_option le_sint (buf_read (contents is) (nat pos * 2) 2))"

definition intsetGet_pos :: "intset \<Rightarrow> int \<Rightarrow> int option" where
  "intsetGet_pos is pos = intsetGetEncoded is pos (unat (encoding is))"

text \<open>Storing a value narrower than 64 bits keeps its low-order bytes.\<close>

definition intsetSet :: "intset \<Rightarrow> int \<Rightarrow> int \<Rightarrow> intset option" where
  "intsetSet is pos value =
     (let enc = unat (encoding is)
      in if pos < 0 then None
         else if enc = INTSET_ENC_INT64
           then map_option (\<lambda>c. is\<lparr>contents := c\<rparr>)
                  (buf_write (contents is) (nat pos * 8) (le_bytes 8 value))
         else if enc = INTSET_ENC_INT32
           then map_option (\<lambda>c. is\<lparr>contents := c\<rparr>)
                  (buf_write (contents is) (nat pos * 4) (le_bytes 4 value))
         else map_option (\<lambda>c. is\<lparr>contents := c\<rparr>)
                (buf_write (contents is) (nat pos * 2) (le_bytes 2 value)))"

definition intsetNew :: intset where
  "intsetNew = \<lparr>encoding = of_nat INTSET_ENC_INT16, len = 0, contents = []\<rparr>"

text \<open>The size is a \<open>uint32_t\<close> product.\<close>

definition intsetResize :: "(nat \<Rightarrow> byte) \<Rightarrow> intset \<Rightarrow> u32 \<Rightarrow> intset" where
  "intsetResize junk is n =
     (let size = n * encoding is
      in is\<lparr>contents := zrealloc junk (contents is) (unat size)\<rparr>)"

subsection \<open>Searching\<close>

text \<open>The middle index is computed on \<open>unsigned int\<close>s.\<close>

definition search_mid :: "int \<Rightarrow> int \<Rightarrow> int" where
  "search_mid mn mx = uint (drop_bit 1 (word_of_int mn + word_of_int mx :: u32))"

partial_function (option) search_loop ::
    "intset \<Rightarrow> int \<Rightarrow> int \<Rightarrow> int \<Rightarrow> int \<Rightarrow> int \<Rightarrow> (int \<times> int \<times> int) option" where
  "search_loop is value mn mx mid cur =
     (if mx \<ge> mn then
        (let mid' = search_mid mn mx
         in case intsetGet_pos is mid' of
              None \<Rightarrow> None
            | Some cur' \<Rightarrow>
                if value > cur' then search_loop is value (mid' + 1) mx mid' cur'
                else if value < cur' then search_loop is value mn (mid' - 1) mid' cur'
                else Some (mn, mid', cur'))
      else Some (mn, mid, cur))"

definition intsetSearch :: "intset \<Rightarrow> int \<Rightarrow> (bool \<times> u32) option" where
  "intsetSearch is value =
     (let mx = sint (len is - 1)
      in if len is = 0 then Some (False, 0)
         else do {
           last \<leftarrow> intsetGet_pos is mx;
           if value > last then Some (False, len is)
           else do {
             first \<leftarrow> intsetGet_pos is 0;
             if value < first then Some (False, 0)
             else do {
               (mn, mid, cur) \<leftarrow> search_loop is value 0 mx (-1) (-1);
               if value = cur then Some (True, word_of_int mid)
               else Some (False, word_of_int mn)
             }
           }
         })"

subsection \<open>Insertion and removal\<close>

text \<open>
  \<open>while (length--)\<close>: entries are moved back to front into the wider cells.
\<close>

fun upgrade_loop :: "nat \<Rightarrow> intset \<Rightarrow> nat \<Rightarrow> int \<Rightarrow> intset option" where
  "upgrade_loop 0 is curenc prepend = Some is"
| "upgrade_loop (Suc n) is curenc prepend = do {
     v \<leftarrow> intsetGetEncoded is (int n) curenc;
     is' \<leftarrow> intsetSet is (int n + prepend) v;
     upgrade_loop n is' curenc prepend
   }"

text \<open>
  The element count is read into an \<open>int\<close>; a count of \<open>2\<^sup>3\<^sup>1\<close> or more would be negative
  there and the loop would run over memory before the block.
\<close>

definition intsetUpgradeAndAdd :: "(nat \<Rightarrow> byte) \<Rightarrow> intset \<Rightarrow> int \<Rightarrow> intset option" where
  "intsetUpgradeAndAdd junk is value =
     (let curenc = unat (encoding is);
          newenc = intsetValueEncoding value;
          length = sint (len is);
          prepend = (if value < 0 then 1 else 0);
          is1 = intsetResize junk (is\<lparr>encoding := of_nat newenc\<rparr>) (len is + 1)
      in if length < 0 then None
         else do {
           is2 \<leftarrow> upgrade_loop (nat length) is1 curenc prepend;
           is3 \<leftarrow> (if prepend = 1 then intsetSet is2 0 value
                  else intsetSet is2 (uint (len is2)) value);
           Some (is3\<lparr>len := len is3 + 1\<rparr>)
         })"

definition intsetMoveTail :: "intset \<Rightarrow> u32 \<Rightarrow> u32 \<Rightarrow> intset option" where
  "intsetMoveTail is from to =
     (let bytes = len is - from; enc = unat (encoding is)
      in if enc = INTSET_ENC_INT64
           then map_option (\<lambda>c. is\<lparr>contents := c\<rparr>)
                  (buf_memmove (contents is) (unat to * 8) (unat from * 8) (unat (bytes * 8)))
         else if enc = INTSET_ENC_INT32
           then map_option (\<lambda>c. is\<lparr>contents := c\<rparr>)
                  (buf_memmove (contents is) (unat to * 4) (unat from * 4) (unat (bytes * 4)))
         else map_option (\<lambda>c. is\<lparr>contents := c\<rparr>)
                (buf_memmove (contents is) (unat to * 2) (unat from * 2) (unat (bytes * 2))))"

definition intsetAdd :: "(nat \<Rightarrow> byte) \<Rightarrow> intset \<Rightarrow> int \<Rightarrow> (intset \<times> bool) option" where
  "intsetAdd junk is value =
     (if intsetValueEncoding value > unat (encoding is)
      then map_option (\<lambda>r. (r, True)) (intsetUpgradeAndAdd junk is value)
      else do {
        (found, pos) \<leftarrow> intsetSearch is value;
        if found then Some (is, False)
        else do {
          let is1 = intsetResize junk is (len is + 1);
          is2 \<leftarrow> (if pos < len is1 then intsetMoveTail is1 pos (pos + 1) else Some is1);
          is3 \<leftarrow> intsetSet is2 (uint pos) value;
          Some (is3\<lparr>len := len is3 + 1\<rparr>, True)
        }
      })"

definition intsetRemove :: "(nat \<Rightarrow> byte) \<Rightarrow> intset \<Rightarrow> int \<Rightarrow> (intset \<times> bool) option" where
  "intsetRemove junk is value =
     (if intsetValueEncoding value \<le> unat (encoding is)
      then do {
        (found, pos) \<leftarrow> intsetSearch is value;
        if found then do {
          let n = len is;
          is1 \<leftarrow> (if pos < n - 1 then intsetMoveTail is (pos + 1) pos else Some is);
          let is2 = intsetResize junk is1 (n - 1);
          Some (is2\<lparr>len := n - 1\<rparr>, True)
        }
        else Some (is, False)
      }
      else Some (is, False))"

definition intsetFind :: "intset \<Rightarrow> int \<Rightarrow> bool option" where
  "intsetFind is value =
     (if intsetValueEncoding value \<le> unat (encoding is)
      then map_option fst (intsetSearch is value) else Some False)"

text \<open>\<open>r\<close> is what \<open>rand()\<close> returned; \<open>rand() % 0\<close> traps.\<close>

definition intsetRandom :: "intset \<Rightarrow> u32 \<Rightarrow> int option" where
  "intsetRandom is r =
     (if len is = 0 then None else intsetGet_pos is (sint (r mod len is)))"

definition intsetGet :: "intset \<Rightarrow> u32 \<Rightarrow> int option option" where
  "intsetGet is pos =
     (if pos < len is then map_option Some (intsetGet_pos is (sint pos)) else Some None)"

definition intsetLen :: "intset \<Rightarrow> u32" where
  "intsetLen is = len is"

definition intsetBlobLen :: "intset \<Rightarrow> nat" where
  "intsetBlobLen is = 8 + unat (len is * encoding is)"

subsection \<open>The block as an array of cells\<close>

definition enc_cells :: "nat \<Rightarrow> int list \<Rightarrow> bytes" where
  "enc_cells w xs = concat (map (le_bytes w) xs)"

definition fits :: "nat \<Rightarrow> int \<Rightarrow> bool" where
  "fits w v \<longleftrightarrow> - (2 ^ (8 * w - 1)) \<le> v \<and> v < 2 ^ (8 * w - 1)"

lemma length_enc_cells [simp]: "length (enc_cells w xs) = length xs * w"
  by (induction xs) (simp_all add: enc_cells_def)

lemma enc_cells_append [simp]: "enc_cells w (xs @ ys) = enc_cells w xs @ enc_cells w ys"
  by (simp add: enc_cells_def)

lemma enc_cells_Cons [simp]: "enc_cells w (x # xs) = le_bytes w x @ enc_cells w xs"
  by (simp add: enc_cells_def)

lemma enc_cells_Nil [simp]: "enc_cells w [] = []"
  by (simp add: enc_cells_def)

lemma enc_cells_split:
  "i \<le> length xs \<Longrightarrow> enc_cells w xs = enc_cells w (take i xs) @ enc_cells w (drop i xs)"
  by (simp flip: enc_cells_append)

lemma enc_cells_nth:
  assumes "i < length xs"
  shows "buf_read (enc_cells w xs @ ys) (i * w) w = Some (le_bytes w (xs ! i))"
proof -
  have "enc_cells w xs = enc_cells w (take i xs) @ le_bytes w (xs ! i) @ enc_cells w (drop (Suc i) xs)"
    using enc_cells_split [of i xs w] assms by (simp add: Cons_nth_drop_Suc [symmetric])
  then show ?thesis
    using assms by (simp add: buf_read_mid)
qed

lemma enc_cells_by_reads:
  assumes "length c = length ys * w"
    and "\<And>j. j < length ys \<Longrightarrow> buf_read c (j * w) w = Some (le_bytes w (ys ! j))"
  shows "c = enc_cells w ys"
  using assms
proof (induction ys arbitrary: c)
  case (Cons y ys)
  from Cons.prems(1) have len: "w + length ys * w = length c" by simp
  have "buf_read c 0 w = Some (le_bytes w y)"
    using Cons.prems(2) [of 0] by simp
  then have hd: "take w c = le_bytes w y"
    by (simp add: buf_read_def split: if_splits)
  have "drop w c = enc_cells w ys"
  proof (rule Cons.IH)
    fix j assume "j < length ys"
    then show "buf_read (drop w c) (j * w) w = Some (le_bytes w (ys ! j))"
      using Cons.prems(2) [of "Suc j"] len
      by (auto simp: buf_read_def add.commute split: if_splits)
  qed (use len in simp)
  with hd have "take w c @ drop w c = enc_cells w (y # ys)"
    by (simp only: enc_cells_Cons)
  then show ?case by simp
qed simp

lemma fits_le_sint: "0 < w \<Longrightarrow> fits w v \<Longrightarrow> le_sint (le_bytes w v) = v"
  by (simp add: fits_def le_sint_le_bytes)

lemma fits_mono:
  assumes "fits w v" "w \<le> w'"
  shows "fits w' v"
proof -
  have "(2::int) ^ (8 * w - 1) \<le> 2 ^ (8 * w' - 1)"
    using assms(2) by (intro power_increasing) auto
  with assms(1) show ?thesis unfolding fits_def by linarith
qed

lemma fits_valueEncoding: "fits 8 v \<Longrightarrow> fits (intsetValueEncoding v) v"
  by (auto simp: fits_def intsetValueEncoding_def intset_encs)

lemma valueEncoding_least: "w \<in> {2, 4, 8} \<Longrightarrow> fits w v \<Longrightarrow> intsetValueEncoding v \<le> w"
  by (auto simp: fits_def intsetValueEncoding_def intset_encs)

lemma valueEncoding_cases: "intsetValueEncoding v \<in> {2, 4, 8}"
  by (simp add: intsetValueEncoding_def intset_encs)

lemma fits_iff_valueEncoding:
  "w \<in> {2, 4, 8} \<Longrightarrow> fits 8 v \<Longrightarrow> fits w v \<longleftrightarrow> intsetValueEncoding v \<le> w"
  using fits_mono fits_valueEncoding valueEncoding_least by blast

subsection \<open>Accessors by encoding width\<close>

lemma intsetGetEncoded_eq:
  "enc \<in> {2, 4, 8} \<Longrightarrow> 0 \<le> pos \<Longrightarrow>
   intsetGetEncoded is pos enc = map_option le_sint (buf_read (contents is) (nat pos * enc) enc)"
  by (auto simp: intsetGetEncoded_def intset_encs)

lemma intsetSet_eq:
  "unat (encoding is) = enc \<Longrightarrow> enc \<in> {2, 4, 8} \<Longrightarrow> 0 \<le> pos \<Longrightarrow>
   intsetSet is pos v = map_option (\<lambda>c. is\<lparr>contents := c\<rparr>)
     (buf_write (contents is) (nat pos * enc) (le_bytes enc v))"
  by (auto simp: intsetSet_def intset_encs Let_def)

lemma intsetMoveTail_eq:
  "unat (encoding is) = enc \<Longrightarrow> enc \<in> {2, 4, 8} \<Longrightarrow>
   intsetMoveTail is from to = map_option (\<lambda>c. is\<lparr>contents := c\<rparr>)
     (buf_memmove (contents is) (unat to * enc) (unat from * enc)
        (unat ((len is - from) * of_nat enc)))"
  by (auto simp: intsetMoveTail_def intset_encs Let_def)

subsection \<open>What a block represents\<close>

definition intset_rep :: "intset \<Rightarrow> int list \<Rightarrow> bool" where
  "intset_rep is xs \<longleftrightarrow>
     unat (encoding is) \<in> {2, 4, 8} \<and> unat (len is) = length xs \<and>
     contents is = enc_cells (unat (encoding is)) xs \<and>
     (\<forall>x \<in> set xs. fits (unat (encoding is)) x)"

definition intset_elems :: "intset \<Rightarrow> int list" where
  "intset_elems is =
     (let w = unat (encoding is)
      in map (\<lambda>i. le_sint (take w (drop (i * w) (contents is)))) [0..<unat (len is)])"

text \<open>
  The invariant: the block has exactly the size the header says (below the 4 GB that the
  32-bit size computation can express) and its cells are strictly increasing.
\<close>

definition intset_invar :: "intset \<Rightarrow> bool" where
  "intset_invar is \<longleftrightarrow>
     unat (encoding is) \<in> {2, 4, 8} \<and>
     length (contents is) = unat (len is) * unat (encoding is) \<and>
     length (contents is) < 2 ^ 32 \<and>
     sorted_wrt (<) (intset_elems is)"

lemma intset_rep_encD: "intset_rep is xs \<Longrightarrow> unat (encoding is) \<in> {2, 4, 8}"
  by (simp add: intset_rep_def)

lemma intset_rep_read:
  assumes "intset_rep is xs" "i < length xs"
  shows "buf_read (contents is) (i * unat (encoding is)) (unat (encoding is)) =
         Some (le_bytes (unat (encoding is)) (xs ! i))"
  using assms enc_cells_nth [of i xs _ "[]"] by (simp add: intset_rep_def)

lemma intset_rep_elems:
  assumes "intset_rep is xs"
  shows "intset_elems is = xs"
proof (rule nth_equalityI)
  from assms show len: "length (intset_elems is) = length xs"
    by (simp add: intset_elems_def intset_rep_def Let_def)
  fix i assume i: "i < length (intset_elems is)"
  have "le_sint (le_bytes (unat (encoding is)) (xs ! i)) = xs ! i"
    using assms i len by (intro fits_le_sint) (auto simp: intset_rep_def)
  with intset_rep_read [OF assms, of i] i len assms
  show "intset_elems is ! i = xs ! i"
    by (auto simp: intset_elems_def intset_rep_def Let_def buf_read_def split: if_splits)
qed

lemma intset_invar_rep:
  assumes "intset_invar is"
  shows "intset_rep is (intset_elems is)"
proof -
  let ?w = "unat (encoding is)"
  have w: "?w \<in> {2, 4, 8}" and lc: "length (contents is) = unat (len is) * ?w"
    using assms by (simp_all add: intset_invar_def)
  have cell: "length (take ?w (drop (i * ?w) (contents is))) = ?w" if "i < unat (len is)" for i
  proof -
    from that have "Suc i * ?w \<le> length (contents is)"
      unfolding lc by (intro mult_le_mono1) simp
    then show ?thesis by simp
  qed
  have fits: "fits ?w (le_sint (take ?w (drop (i * ?w) (contents is))))" if "i < unat (len is)" for i
    using le_sint_bounds [of "take ?w (drop (i * ?w) (contents is))"] cell [OF that] w
    by (auto simp: fits_def)
  have "contents is = enc_cells ?w (intset_elems is)"
  proof (rule enc_cells_by_reads)
    fix j assume "j < length (intset_elems is)"
    then have j: "j < unat (len is)" by (simp add: intset_elems_def Let_def)
    have "le_bytes ?w (le_sint (take ?w (drop (j * ?w) (contents is)))) =
          take ?w (drop (j * ?w) (contents is))"
      using le_bytes_le_sint [of "take ?w (drop (j * ?w) (contents is))"] cell [OF j] by simp
    with j cell [OF j] w show "buf_read (contents is) (j * ?w) ?w = Some (le_bytes ?w (intset_elems is ! j))"
      by (auto simp: buf_read_def intset_elems_def Let_def)
  qed (use lc in \<open>simp add: intset_elems_def Let_def\<close>)
  moreover have "\<forall>x \<in> set (intset_elems is). fits ?w x"
    using fits by (auto simp: intset_elems_def Let_def)
  moreover have "unat (len is) = length (intset_elems is)"
    by (simp add: intset_elems_def Let_def)
  ultimately show ?thesis
    using w unfolding intset_rep_def by blast
qed

lemma intset_invarI:
  assumes "intset_rep is xs" "sorted_wrt (<) xs" "length xs * unat (encoding is) < 2 ^ 32"
  shows "intset_invar is"
  using assms intset_rep_elems [OF assms(1)] by (auto simp: intset_invar_def intset_rep_def)

lemma intsetGet_pos_rep:
  assumes "intset_rep is xs" "0 \<le> pos" "nat pos < length xs"
  shows "intsetGet_pos is pos = Some (xs ! nat pos)"
proof -
  have "le_sint (le_bytes (unat (encoding is)) (xs ! nat pos)) = xs ! nat pos"
    using assms by (intro fits_le_sint) (auto simp: intset_rep_def)
  then show ?thesis
    using intset_rep_read [OF assms(1,3)] intset_rep_encD [OF assms(1)] assms(2)
    by (simp add: intsetGet_pos_def intsetGetEncoded_eq)
qed

subsection \<open>Binary search finds the insertion point\<close>

definition ins_point :: "int \<Rightarrow> int list \<Rightarrow> nat" where
  "ins_point v xs = length (takeWhile (\<lambda>x. x < v) xs)"

lemma ins_point_eqI:
  assumes "n \<le> length xs" "\<And>i. i < n \<Longrightarrow> xs ! i < v" "n < length xs \<Longrightarrow> v \<le> xs ! n"
  shows "ins_point v xs = n"
proof -
  have "takeWhile (\<lambda>x. x < v) xs = take n xs"
    using assms by (intro takeWhile_eq_take_P_nth) auto
  with assms(1) show ?thesis by (simp add: ins_point_def)
qed

lemma search_mid_eq:
  assumes "0 \<le> mn" "mn \<le> mx" "mx < 2 ^ 31"
  shows "search_mid mn mx = (mn + mx) div 2"
proof -
  have "uint (word_of_int mn + word_of_int mx :: u32) = mn + mx"
    using assms by (simp add: uint_word_of_int flip: of_int_add)
  then show ?thesis
    by (simp add: search_mid_def unsigned_drop_bit_eq drop_bit_eq_div uint_div)
qed

lemma search_loop_correct:
  assumes rep: "intset_rep is xs" and srt: "sorted_wrt (<) xs" and small: "length xs < 2 ^ 31"
    and "0 \<le> mn" "mn \<le> mx + 1" "mx < int (length xs)"
    and "\<forall>i < nat mn. xs ! i < v" "\<forall>i < length xs. mx < int i \<longrightarrow> v < xs ! i"
    and "mx < mn \<Longrightarrow> cur \<noteq> v"
  shows "\<exists>mn' mid' cur'. search_loop is v mn mx mid cur = Some (mn', mid', cur') \<and>
     (if v \<in> set xs then cur' = v \<and> 0 \<le> mid' \<and> nat mid' < length xs \<and> xs ! nat mid' = v
      else cur' \<noteq> v \<and> 0 \<le> mn' \<and> nat mn' = ins_point v xs)"
  using assms(4-)
proof (induction "nat (mx + 1 - mn)" arbitrary: mn mx mid cur rule: less_induct)
  case less
  note inv = less.prems
  show ?case
  proof (cases "mn \<le> mx")
    case False
    with inv have eq: "mx = mn - 1" by simp
    have "v \<notin> set xs"
    proof
      assume "v \<in> set xs"
      then obtain i where "i < length xs" "xs ! i = v" by (auto simp: in_set_conv_nth)
      with inv(4,5) eq show False by (cases "i < nat mn") auto
    qed
    moreover have "ins_point v xs = nat mn"
      using inv eq by (intro ins_point_eqI) (auto intro: less_imp_le)
    ultimately show ?thesis
      using False inv(1,6) by (subst search_loop.simps) auto
  next
    case True
    define m where "m = (mn + mx) div 2"
    have m: "mn \<le> m" "m \<le> mx" using True by (auto simp: m_def)
    have mid: "search_mid mn mx = m"
      unfolding m_def using inv(1,3) True small by (intro search_mid_eq) auto
    have get: "intsetGet_pos is m = Some (xs ! nat m)"
      using rep inv(1,3) m by (intro intsetGet_pos_rep) auto
    have m_lt: "nat m < length xs" using inv(1,3) m by simp
    have below: "xs ! i < xs ! nat m" if "i < nat m" for i
      using srt that m_lt by (rule sorted_wrt_nth_less)
    have above: "xs ! nat m < xs ! i" if "nat m < i" "i < length xs" for i
      using srt that by (rule sorted_wrt_nth_less)
    consider "v > xs ! nat m" | "v < xs ! nat m" | "v = xs ! nat m" by linarith
    then show ?thesis
    proof cases
      case 1
      have "\<forall>i < nat (m + 1). xs ! i < v"
      proof (intro allI impI)
        fix i assume "i < nat (m + 1)"
        then have "i < nat m \<or> i = nat m" using inv(1) m by auto
        with below [of i] 1 show "xs ! i < v" by auto
      qed
      with less.hyps [of mx "m + 1" "xs ! nat m" m] inv m 1 show ?thesis
        by (subst search_loop.simps) (simp add: True mid get Let_def)
    next
      case 2
      have "\<forall>i < length xs. m - 1 < int i \<longrightarrow> v < xs ! i"
      proof (intro allI impI)
        fix i assume "i < length xs" "m - 1 < int i"
        then have "nat m = i \<or> nat m < i" using inv(1) m by auto
        with above [of i] \<open>i < length xs\<close> 2 show "v < xs ! i" by auto
      qed
      with less.hyps [of "m - 1" mn "xs ! nat m" m] inv m 2 show ?thesis
        by (subst search_loop.simps) (simp add: True mid get Let_def 2 less_not_sym [OF 2])
    next
      case 3
      then have "v \<in> set xs" using m_lt by simp
      then show ?thesis
        using 3 m m_lt inv(1) by (subst search_loop.simps) (simp add: True mid get Let_def)
    qed
  qed
qed

lemma ins_point_found:
  assumes "sorted_wrt (<) xs" "i < length xs"
  shows "ins_point (xs ! i) xs = i"
  using assms by (intro ins_point_eqI) (auto intro: sorted_wrt_nth_less)

lemma intsetSearch_correct:
  assumes rep: "intset_rep is xs" and srt: "sorted_wrt (<) xs" and small: "length xs < 2 ^ 31"
  shows "intsetSearch is v = Some (v \<in> set xs, of_nat (ins_point v xs))"
proof (cases "xs = []")
  case True
  with rep have "len is = 0" by (simp add: intset_rep_def unat_eq_0)
  then show ?thesis using True by (simp add: intsetSearch_def ins_point_def)
next
  case False
  let ?n = "length xs"
  have n: "unat (len is) = ?n" using rep by (simp add: intset_rep_def)
  with False have len0: "len is \<noteq> 0" by (metis length_0_conv unat_0)
  have mx: "sint (len is - 1) = int ?n - 1"
    using n len0 small sint_eq_unat [of "len is - 1"] False
    by (cases xs) (auto simp: unat_dec)
  have last: "intsetGet_pos is (int ?n - 1) = Some (last xs)"
    using intsetGet_pos_rep [OF rep, of "int ?n - 1"] False by (cases xs) (auto simp: last_conv_nth)
  have first: "intsetGet_pos is 0 = Some (hd xs)"
    using intsetGet_pos_rep [OF rep, of 0] False by (simp add: hd_conv_nth)
  consider "v > last xs" | "v \<le> last xs" "v < hd xs" | "v \<le> last xs" "hd xs \<le> v" by linarith
  then show ?thesis
  proof cases
    case 1
    have all: "x < v" if "x \<in> set xs" for x
      using srt that 1 by (cases xs rule: rev_cases) (auto simp: sorted_wrt_append)
    then have "ins_point v xs = ?n" by (intro ins_point_eqI) auto
    moreover have "v \<notin> set xs" using all by blast
    moreover have "of_nat ?n = len is" using n by (rule of_nat_unatI)
    ultimately show ?thesis
      using 1 by (simp add: intsetSearch_def len0 mx last)
  next
    case 2
    have "ins_point v xs = 0" using 2 False by (cases xs) (auto simp: ins_point_def)
    moreover have "v \<notin> set xs" using 2 False srt by (cases xs) auto
    ultimately show ?thesis
      using 2 by (simp add: intsetSearch_def len0 mx last first)
  next
    case 3
    obtain mn mid cur where loop: "search_loop is v 0 (int ?n - 1) (-1) (-1) = Some (mn, mid, cur)"
      and res: "if v \<in> set xs then cur = v \<and> 0 \<le> mid \<and> nat mid < ?n \<and> xs ! nat mid = v
                else cur \<noteq> v \<and> 0 \<le> mn \<and> nat mn = ins_point v xs"
      using search_loop_correct [OF rep srt small, of 0 "int ?n - 1" v "-1" "-1"] False
      by (cases xs) auto
    have "of_int mid = (of_nat (ins_point v xs) :: u32)" if "v \<in> set xs"
      using res that ins_point_found [OF srt, of "nat mid"] by (metis nat_0_le of_int_of_nat_eq)
    moreover have "of_int mn = (of_nat (ins_point v xs) :: u32)" if "v \<notin> set xs"
      using res that by (metis nat_0_le of_int_of_nat_eq)
    ultimately show ?thesis
      using 3 res
      by (cases "v \<in> set xs") (simp_all add: intsetSearch_def len0 mx last first loop not_less)
  qed
qed

subsection \<open>Insertion and removal on cells\<close>

lemma ins_point_le: "ins_point v xs \<le> length xs"
  by (simp add: ins_point_def length_takeWhile_le)

lemma ins_point_Cons: "ins_point v (x # xs) = (if x < v then Suc (ins_point v xs) else 0)"
  by (simp add: ins_point_def)

lemma sorted_insert_at:
  assumes "sorted_wrt (<) xs" "v \<notin> set xs"
  shows "sorted_wrt (<) (take (ins_point v xs) xs @ v # drop (ins_point v xs) xs)"
  using assms
proof (induction xs)
  case (Cons x xs)
  have "set (take (ins_point v xs) xs @ v # drop (ins_point v xs) xs) = insert v (set xs)"
    by (rule set_insert_at)
  with Cons show ?case by (fastforce simp: ins_point_Cons)
qed (simp add: ins_point_def)

lemma insert_cell:
  assumes "i \<le> length xs" "length J = w"
    and c: "c = enc_cells w xs @ J" and n: "n = (length xs - i) * w"
  shows "buf_memmove c (Suc i * w) (i * w) n =
           Some (take (Suc i * w) c @ enc_cells w (drop i xs))"
    and "buf_write (take (Suc i * w) c @ enc_cells w (drop i xs)) (i * w) (le_bytes w v) =
           Some (enc_cells w (take i xs @ v # drop i xs))"
proof -
  have split: "c = enc_cells w (take i xs) @ enc_cells w (drop i xs) @ J"
    using enc_cells_split [OF assms(1)] c by simp
  have lc: "length c = Suc i * w + n"
    using c assms(1,2) by (simp add: n diff_mult_distrib)
  have "take n (drop (i * w) c) = enc_cells w (drop i xs)"
    unfolding split n using assms(1) by (simp add: min_def)
  then show "buf_memmove c (Suc i * w) (i * w) n =
           Some (take (Suc i * w) c @ enc_cells w (drop i xs))"
    by (simp add: buf_memmove_eq lc)
  define X where "X = take w (enc_cells w (drop i xs) @ J)"
  have "take (Suc i * w) c = enc_cells w (take i xs) @ X"
    unfolding split X_def using assms(1) by (simp add: min_def)
  moreover have "length X = w"
    using assms(2) by (simp add: X_def)
  ultimately show "buf_write (take (Suc i * w) c @ enc_cells w (drop i xs)) (i * w) (le_bytes w v) =
           Some (enc_cells w (take i xs @ v # drop i xs))"
    using assms(1) by (simp add: buf_write_mid min_def)
qed

lemma delete_cell:
  assumes "i < length xs" "n = (length xs - Suc i) * w"
  shows "\<exists>T. length T = w \<and> buf_memmove (enc_cells w xs) (i * w) (Suc i * w) n =
     Some (enc_cells w (take i xs @ drop (Suc i) xs) @ T)"
proof -
  let ?c = "enc_cells w xs"
  have "Suc i * w \<le> length xs * w"
    using assms(1) by (intro mult_le_mono1) simp
  then have lc: "length xs * w = w + (i * w + n)"
    by (simp add: assms(2) diff_mult_distrib)
  have "take (i * w) ?c = enc_cells w (take i xs)"
    using enc_cells_split [of i xs w] assms(1) by simp
  moreover have "drop (Suc i * w) ?c = enc_cells w (drop (Suc i) xs)"
    using enc_cells_split [of "Suc i" xs w] assms(1) by simp
  ultimately show ?thesis
    by (intro exI [of _ "drop (i * w + n) ?c"]) (simp add: buf_memmove_eq lc assms(2))
qed

lemma unat_ins_point:
  "length xs < 2 ^ 31 \<Longrightarrow> unat (of_nat (ins_point v xs) :: u32) = ins_point v xs"
  using ins_point_le [of v xs] by (intro unat_of_nat_no_wrap) simp

lemma unat_len_Suc:
  assumes "unat (n :: u32) + 1 < 2 ^ 32"
  shows "unat (n + 1) = Suc (unat n)"
  using unat_add_no_wrap [of n 1] assms by simp

lemma contents_intsetResize:
  assumes "unat n * unat (encoding is) < 2 ^ 32"
  shows "intsetResize junk is n =
    is\<lparr>contents := zrealloc junk (contents is) (unat n * unat (encoding is))\<rparr>"
  using unat_mult_no_wrap [of n "encoding is"] assms by (simp add: intsetResize_def Let_def)

lemma intsetMoveTail_no_wrap:
  assumes "unat (encoding is) = w" "w \<in> {2, 4, 8}" "unat from = f" "unat to = t"
    and n: "unat (len is) = n" "f \<le> n" "n * w < 2 ^ 32"
  shows "intsetMoveTail is from to = map_option (\<lambda>c. is\<lparr>contents := c\<rparr>)
     (buf_memmove (contents is) (t * w) (f * w) ((n - f) * w))"
proof -
  have "unat (len is - from) = n - f"
    using assms(3) n by (simp add: unat_sub word_le_nat_alt)
  moreover have "unat (of_nat w :: u32) = w" using assms(2) by auto
  moreover have "(n - f) * w < 2 ^ 32"
    by (rule le_less_trans [OF _ n(3)], rule mult_le_mono1) simp
  ultimately have "unat ((len is - from) * of_nat w) = (n - f) * w"
    using unat_mult_no_wrap [of "len is - from" "of_nat w"] by simp
  with assms show ?thesis by (simp add: intsetMoveTail_eq)
qed

lemma intsetAdd_insert:
  assumes rep: "intset_rep is xs" and srt: "sorted_wrt (<) xs" and new: "v \<notin> set xs"
    and fit: "fits (unat (encoding is)) v"
    and room: "Suc (length xs) * unat (encoding is) < 2 ^ 32"
  shows "\<exists>is'. intsetAdd junk is v = Some (is', True) \<and>
    intset_rep is' (take (ins_point v xs) xs @ v # drop (ins_point v xs) xs) \<and>
    encoding is' = encoding is"
proof -
  define w where "w = unat (encoding is)"
  define i where "i = ins_point v xs"
  define J where "J = map junk [length xs * w..<Suc (length xs) * w]"
  define c where "c = enc_cells w xs @ J"
  have w: "w \<in> {2, 4, 8}" and n: "unat (len is) = length xs" and con: "contents is = enc_cells w xs"
    using rep by (auto simp: intset_rep_def w_def)
  have room': "Suc (length xs) * w < 2 ^ 32" using room by (simp add: w_def)
  then have small: "length xs < 2 ^ 31" using w by auto
  have i: "i \<le> length xs" "unat (of_nat i :: u32) = i"
    using ins_point_le unat_ins_point [OF small] by (simp_all add: i_def)
  have len1: "unat (len is + 1) = Suc (length xs)"
    using unat_len_Suc [of "len is"] n small by simp
  have J: "length J = w" by (simp add: J_def)
  have is1: "intsetResize junk is (len is + 1) = is\<lparr>contents := c\<rparr>"
    using contents_intsetResize [of "len is + 1" "is" junk] room' con
    by (simp add: len1 w_def [symmetric] zrealloc_def c_def J_def)
  have enc: "\<not> intsetValueEncoding v > unat (encoding is)"
    using valueEncoding_least [of w v] w fit by (simp add: w_def)
  have tail: "(if of_nat i < len is then intsetMoveTail (is\<lparr>contents := c\<rparr>) (of_nat i) (of_nat i + 1)
              else Some (is\<lparr>contents := c\<rparr>)) =
        Some (is\<lparr>contents := take (Suc i * w) c @ enc_cells w (drop i xs)\<rparr>)"
  proof (cases "i < length xs")
    case True
    have i1: "unat (of_nat i + 1 :: u32) = Suc i"
      using unat_len_Suc [of "of_nat i"] i True small by simp
    have nw: "length xs * w < 2 ^ 32"
      by (rule le_less_trans [OF _ room']) simp
    have "intsetMoveTail (is\<lparr>contents := c\<rparr>) (of_nat i) (of_nat i + 1) =
        map_option (\<lambda>d. is\<lparr>contents := d\<rparr>) (buf_memmove c (Suc i * w) (i * w) ((length xs - i) * w))"
      using intsetMoveTail_no_wrap [OF _ w i(2) i1, of "is\<lparr>contents := c\<rparr>"] n i nw
      by (simp add: w_def)
    moreover have "of_nat i < len is"
      using True i n by (simp add: word_less_nat_alt)
    ultimately show ?thesis
      by (simp only: insert_cell(1) [OF i(1) J c_def refl] if_True option.map)
  next
    case False
    with i J have "take (Suc i * w) c = c" "drop i xs = []" by (simp_all add: c_def)
    with False i n show ?thesis by (simp add: word_less_nat_alt)
  qed
  have set: "intsetSet (is\<lparr>contents := take (Suc i * w) c @ enc_cells w (drop i xs)\<rparr>) (int i) v =
     Some (is\<lparr>contents := enc_cells w (take i xs @ v # drop i xs)\<rparr>)"
    using insert_cell(2) [OF i(1) J c_def refl] w
    by (simp add: intsetSet_eq [of _ w] w_def [symmetric])
  have ui: "uint (of_nat i :: u32) = int i"
    by (subst uint_nat) (simp only: i(2))
  let ?r = "is\<lparr>contents := enc_cells w (take i xs @ v # drop i xs), len := len is + 1\<rparr>"
  have "intsetAdd junk is v = Some (?r, True)"
    using intsetSearch_correct [OF rep srt small, of v] new i enc
    by (simp add: intsetAdd_def is1 tail set [simplified] Let_def ui flip: i_def del: if_True)
  moreover have "intset_rep ?r (take i xs @ v # drop i xs)"
    using w i rep fit set_insert_at [of i xs v]
    by (auto simp: intset_rep_def w_def [symmetric] len1)
  ultimately show ?thesis by (auto simp: i_def)
qed

lemma intsetRemove_delete:
  assumes rep: "intset_rep is xs" and srt: "sorted_wrt (<) xs" and mem: "v \<in> set xs"
    and fit: "fits (unat (encoding is)) v"
    and room: "length xs * unat (encoding is) < 2 ^ 32"
  shows "\<exists>is'. intsetRemove junk is v = Some (is', True) \<and>
    intset_rep is' (take (ins_point v xs) xs @ drop (Suc (ins_point v xs)) xs) \<and>
    encoding is' = encoding is"
proof -
  define w where "w = unat (encoding is)"
  define i where "i = ins_point v xs"
  have w: "w \<in> {2, 4, 8}" and n: "unat (len is) = length xs" and con: "contents is = enc_cells w xs"
    using rep by (auto simp: intset_rep_def w_def)
  have room': "length xs * w < 2 ^ 32" using room by (simp add: w_def)
  then have small: "length xs < 2 ^ 31" using w by auto
  obtain k where "k < length xs" "xs ! k = v"
    using mem by (auto simp: in_set_conv_nth)
  then have i: "i < length xs"
    using ins_point_found [OF srt, of k] by (simp add: i_def)
  have ui: "unat (of_nat i :: u32) = i"
    using unat_ins_point [OF small] by (simp add: i_def)
  have ne: "len is \<noteq> 0" using n i by auto
  have len1: "unat (len is - 1) = length xs - 1"
    using ne n by (simp add: unat_dec)
  have enc: "intsetValueEncoding v \<le> unat (encoding is)"
    using valueEncoding_least [of w v] w fit by (simp add: w_def)
  define ys where "ys = take i xs @ drop (Suc i) xs"
  have "\<exists>T. (if of_nat i < len is - 1 then intsetMoveTail is (of_nat i + 1) (of_nat i) else Some is) =
          Some (is\<lparr>contents := enc_cells w ys @ T\<rparr>)"
  proof (cases "Suc i < length xs")
    case True
    have i1: "unat (of_nat i + 1 :: u32) = Suc i"
      using unat_len_Suc [of "of_nat i"] ui True small by simp
    have "intsetMoveTail is (of_nat i + 1) (of_nat i) = map_option (\<lambda>d. is\<lparr>contents := d\<rparr>)
        (buf_memmove (enc_cells w xs) (i * w) (Suc i * w) ((length xs - Suc i) * w))"
      using intsetMoveTail_no_wrap [OF w_def [symmetric] w i1 ui n _ room'] i con by simp
    moreover have "of_nat i < len is - 1"
      using True ui len1 by (simp add: word_less_nat_alt)
    ultimately show ?thesis
      using delete_cell [OF i refl, of w] by (auto simp: ys_def)
  next
    case False
    with i have "xs = ys @ [xs ! i]"
      by (simp add: ys_def take_Suc_conv_app_nth flip: take_Suc_conv_app_nth)
    then have "contents is = enc_cells w ys @ le_bytes w (xs ! i)"
      using con by (metis append_Nil2 enc_cells_Cons enc_cells_Nil enc_cells_append)
    then have "is = is\<lparr>contents := enc_cells w ys @ le_bytes w (xs ! i)\<rparr>"
      by (metis intset.surjective intset.update_convs(3) old.unit.exhaust)
    with False ui len1 show ?thesis
      by (auto simp: word_less_nat_alt)
  qed
  then obtain T where tail:
    "(if of_nat i < len is - 1 then intsetMoveTail is (of_nat i + 1) (of_nat i) else Some is) =
     Some (is\<lparr>contents := enc_cells w ys @ T\<rparr>)" by blast
  have lys: "length ys = length xs - 1" using i by (simp add: ys_def)
  have "(length xs - 1) * w < 2 ^ 32"
    by (rule le_less_trans [OF _ room'], rule mult_le_mono1) simp
  then have is2: "intsetResize junk (is\<lparr>contents := enc_cells w ys @ T\<rparr>) (len is - 1) =
        is\<lparr>contents := enc_cells w ys\<rparr>"
    by (subst contents_intsetResize) (simp_all add: len1 w_def [symmetric] zrealloc_shrink lys)
  let ?r = "is\<lparr>contents := enc_cells w ys, len := len is - 1\<rparr>"
  have "intsetRemove junk is v = Some (?r, True)"
    using intsetSearch_correct [OF rep srt small, of v] mem enc
    by (simp add: intsetRemove_def is2 tail Let_def flip: i_def)
  moreover have "intset_rep ?r ys"
    using w lys rep len1 by (auto simp: intset_rep_def w_def [symmetric] ys_def dest: in_set_takeD in_set_dropD)
  ultimately show ?thesis by (auto simp: i_def ys_def)
qed

subsection \<open>Upgrading the encoding\<close>

lemma upgrade_loop_correct:
  assumes enc: "unat (encoding is) = nw" "nw \<in> {2, 4, 8}" "cw \<in> {2, 4, 8}" "cw \<le> nw"
    and p: "p \<le> 1" and fit: "\<forall>x \<in> set xs. fits cw x"
    and "n \<le> length xs" "length (contents is) = Suc (length xs) * nw"
    and "\<And>i. i < n \<Longrightarrow> buf_read (contents is) (i * cw) cw = Some (le_bytes cw (xs ! i))"
    and "\<And>j. n \<le> j \<Longrightarrow> j < length xs \<Longrightarrow>
           buf_read (contents is) ((j + p) * nw) nw = Some (le_bytes nw (xs ! j))"
  shows "\<exists>c. upgrade_loop n is cw (int p) = Some (is\<lparr>contents := c\<rparr>) \<and>
    length c = Suc (length xs) * nw \<and>
    (\<forall>j < length xs. buf_read c ((j + p) * nw) nw = Some (le_bytes nw (xs ! j)))"
  using enc(1) assms(7-)
proof (induction n arbitrary: "is")
  case 0
  then show ?case by (intro exI [of _ "contents is"]) simp
next
  case (Suc n)
  have n: "n < length xs" using Suc.prems(2) by simp
  have "le_sint (le_bytes cw (xs ! n)) = xs ! n"
    using fit enc(3) n by (intro fits_le_sint) auto
  then have get: "intsetGetEncoded is (int n) cw = Some (xs ! n)"
    using Suc.prems(4) [of n] enc(3) by (simp add: intsetGetEncoded_eq)
  have "(n + p) * nw + nw \<le> length (contents is)"
  proof -
    have "Suc (n + p) * nw \<le> Suc (length xs) * nw"
      using n p by (intro mult_le_mono1) simp
    then show ?thesis using Suc.prems(3) by simp
  qed
  then obtain c where wr: "buf_write (contents is) ((n + p) * nw) (le_bytes nw (xs ! n)) = Some c"
    using buf_write_Some [of "(n + p) * nw" "le_bytes nw (xs ! n)"] by auto
  have low: "buf_read c (i * cw) cw = Some (le_bytes cw (xs ! i))" if "i < n" for i
  proof -
    have "Suc i * cw \<le> (n + p) * nw"
      using that enc(4) by (intro mult_le_mono) auto
    then have "i * cw + cw \<le> (n + p) * nw" by simp
    then show ?thesis
      using buf_read_write_before [OF wr] Suc.prems(4) [of i] that by simp
  qed
  have high: "buf_read c ((j + p) * nw) nw = Some (le_bytes nw (xs ! j))"
    if "n \<le> j" "j < length xs" for j
  proof (cases "j = n")
    case True
    then show ?thesis using buf_read_write_same [OF wr] by simp
  next
    case False
    then have "Suc (n + p) * nw \<le> (j + p) * nw"
      using that by (intro mult_le_mono1) simp
    then show ?thesis
      using buf_read_write_after [OF wr] Suc.prems(5) [of j] that False by simp
  qed
  have "intsetSet is (int n + int p) (xs ! n) = Some (is\<lparr>contents := c\<rparr>)"
    using wr enc(2) Suc.prems(1) by (simp add: intsetSet_eq [of _ nw] nat_add_distrib)
  moreover have "\<exists>c'. upgrade_loop n (is\<lparr>contents := c\<rparr>) cw (int p) = Some (is\<lparr>contents := c\<rparr>\<lparr>contents := c'\<rparr>) \<and>
    length c' = Suc (length xs) * nw \<and>
    (\<forall>j < length xs. buf_read c' ((j + p) * nw) nw = Some (le_bytes nw (xs ! j)))"
    using Suc.prems length_buf_write [OF wr] n low high by (intro Suc.IH) auto
  ultimately show ?case using get by simp
qed

lemma upgrade_place:
  assumes p: "p = (if v < 0 then 1 else 0)" and k: "k = (if v < 0 then 0 else length xs)"
    and lc: "length c = Suc (length xs) * nw"
    and cells: "\<forall>j < length xs. buf_read c ((j + p) * nw) nw = Some (le_bytes nw (xs ! j))"
  shows "buf_write c (k * nw) (le_bytes nw v) = Some (enc_cells nw (if v < 0 then v # xs else xs @ [v]))"
    (is "_ = Some (enc_cells nw ?ys)")
proof -
  have "k * nw + nw \<le> length c" by (simp add: lc k)
  then obtain c' where wr: "buf_write c (k * nw) (le_bytes nw v) = Some c'"
    using buf_write_Some [of "k * nw" "le_bytes nw v" c] by auto
  have "c' = enc_cells nw ?ys"
  proof (rule enc_cells_by_reads)
    show "length c' = length ?ys * nw"
      using lc length_buf_write [OF wr] by simp
    fix j assume j: "j < length ?ys"
    show "buf_read c' (j * nw) nw = Some (le_bytes nw (?ys ! j))"
    proof (cases "v < 0")
      case True
      then show ?thesis
        using buf_read_write_same [OF wr] buf_read_write_after [OF wr, of "j * nw"] cells j
        by (cases j) (auto simp: k p)
    next
      case False
      have "j * nw + nw \<le> length xs * nw" if "j < length xs"
        using that mult_le_mono1 [of "Suc j" "length xs" nw] by simp
      then show ?thesis
        using False buf_read_write_same [OF wr] buf_read_write_before [OF wr, of "j * nw"] cells j
        by (cases "j = length xs") (auto simp: k p nth_append)
    qed
  qed
  with wr show ?thesis by simp
qed

lemma intsetUpgradeAndAdd_correct:
  assumes rep: "intset_rep is xs" and big: "unat (encoding is) < intsetValueEncoding v"
    and room: "Suc (length xs) * intsetValueEncoding v < 2 ^ 32" and fit: "fits 8 v"
  shows "\<exists>is'. intsetUpgradeAndAdd junk is v = Some is' \<and>
    intset_rep is' (if v < 0 then v # xs else xs @ [v]) \<and>
    unat (encoding is') = intsetValueEncoding v"
proof -
  define cw nw where "cw = unat (encoding is)" and "nw = intsetValueEncoding v"
  define p :: nat where "p = (if v < 0 then 1 else 0)"
  have cw: "cw \<in> {2, 4, 8}" and n: "unat (len is) = length xs" and con: "contents is = enc_cells cw xs"
    and fits: "\<forall>x \<in> set xs. fits cw x"
    using rep by (auto simp: intset_rep_def cw_def)
  have nw: "nw \<in> {2, 4, 8}" "cw < nw"
    using valueEncoding_cases [of v] big by (simp_all add: nw_def cw_def)
  have room': "Suc (length xs) * nw < 2 ^ 32" using room by (simp add: nw_def)
  then have small: "length xs < 2 ^ 31" using nw by auto
  have len1: "unat (len is + 1) = Suc (length xs)"
    using unat_len_Suc [of "len is"] n small by simp
  have unw: "unat (of_nat nw :: u32) = nw" using nw by auto
  have slen: "sint (len is) = int (length xs)"
    using sint_eq_unat [of "len is"] n small by simp
  have grow: "length xs * cw \<le> Suc (length xs) * nw"
    using nw by (intro mult_le_mono) auto
  define c1 where "c1 = zrealloc junk (contents is) (Suc (length xs) * nw)"
  define is1 where "is1 = is\<lparr>encoding := of_nat nw, contents := c1\<rparr>"
  have resize: "intsetResize junk (is\<lparr>encoding := of_nat nw\<rparr>) (len is + 1) = is1"
    using room' by (subst contents_intsetResize) (simp_all add: len1 unw is1_def c1_def)
  have c1: "c1 = enc_cells cw xs @ map junk [length xs * cw..<Suc (length xs) * nw]"
    using grow by (simp add: c1_def zrealloc_def con)
  have "\<exists>c. upgrade_loop (length xs) is1 cw (int p) = Some (is1\<lparr>contents := c\<rparr>) \<and>
    length c = Suc (length xs) * nw \<and>
    (\<forall>j < length xs. buf_read c ((j + p) * nw) nw = Some (le_bytes nw (xs ! j)))"
  proof (rule upgrade_loop_correct)
    show "length (contents is1) = Suc (length xs) * nw"
      by (simp add: is1_def c1_def)
    show "buf_read (contents is1) (i * cw) cw = Some (le_bytes cw (xs ! i))" if "i < length xs" for i
      using that enc_cells_nth unfolding is1_def c1 by simp
  qed (use nw cw fits in \<open>simp_all add: is1_def unw p_def\<close>)
  then obtain c where loop: "upgrade_loop (length xs) is1 cw (int p) = Some (is1\<lparr>contents := c\<rparr>)"
    and lc: "length c = Suc (length xs) * nw"
    and cells: "\<forall>j < length xs. buf_read c ((j + p) * nw) nw = Some (le_bytes nw (xs ! j))"
    by blast
  define ys where "ys = (if v < 0 then v # xs else xs @ [v])"
  have set: "(if p = 1 then intsetSet (is1\<lparr>contents := c\<rparr>) 0 v
              else intsetSet (is1\<lparr>contents := c\<rparr>) (uint (len is)) v) =
             Some (is1\<lparr>contents := enc_cells nw ys\<rparr>)"
  proof -
    have "uint (len is) = int (length xs)" using n by (subst uint_nat) simp
    with upgrade_place [OF p_def refl lc cells] nw show ?thesis
      by (auto simp: p_def is1_def unw intsetSet_eq [of _ nw] ys_def)
  qed
  let ?r = "is1\<lparr>contents := enc_cells nw ys, len := len is + 1\<rparr>"
  have "intset_rep ?r ys"
    using nw len1 fits fits_mono [of cw _ nw] fits_valueEncoding [OF fit]
    by (auto simp: intset_rep_def is1_def unw ys_def nw_def [symmetric])
  moreover have "intsetUpgradeAndAdd junk is v = Some ?r"
    using loop set
    by (simp add: intsetUpgradeAndAdd_def Let_def slen resize p_def is1_def
        flip: cw_def nw_def split: if_splits)
  moreover have "unat (encoding ?r) = intsetValueEncoding v"
    using unw by (simp add: is1_def nw_def)
  ultimately show ?thesis unfolding ys_def by blast
qed

subsection \<open>The contract of an integer set\<close>

text \<open>
  What the set type relies on: every insertion and removal succeeds within the room the
  representation has, reports whether the element was there, and changes the set of
  elements accordingly.
\<close>

locale int_set =
  fixes add :: "'s \<Rightarrow> int \<Rightarrow> ('s \<times> bool) option"
    and remove :: "'s \<Rightarrow> int \<Rightarrow> ('s \<times> bool) option"
    and find :: "'s \<Rightarrow> int \<Rightarrow> bool option"
    and elems :: "'s \<Rightarrow> int set"
    and inv :: "'s \<Rightarrow> bool"
    and room :: "'s \<Rightarrow> nat \<Rightarrow> bool"
  assumes add_law: "inv s \<Longrightarrow> room s (Suc n) \<Longrightarrow> fits 8 v \<Longrightarrow>
      \<exists>s'. add s v = Some (s', v \<notin> elems s) \<and> inv s' \<and> room s' n \<and> elems s' = insert v (elems s)"
    and remove_law: "inv s \<Longrightarrow> fits 8 v \<Longrightarrow>
      \<exists>s'. remove s v = Some (s', v \<in> elems s) \<and> inv s' \<and> elems s' = elems s - {v}"
    and find_law: "inv s \<Longrightarrow> fits 8 v \<Longrightarrow> find s v = Some (v \<in> elems s)"
begin

lemma add_all:
  assumes "inv s" "room s (length vs)" "\<forall>v \<in> set vs. fits 8 v"
  shows "\<exists>s'. foldl (\<lambda>r v. r \<bind> (\<lambda>s. map_option fst (add s v))) (Some s) vs = Some s' \<and>
    inv s' \<and> elems s' = elems s \<union> set vs"
  using assms
proof (induction vs arbitrary: s)
  case (Cons v vs)
  then obtain s1 where "add s v = Some (s1, v \<notin> elems s)" "inv s1" "room s1 (length vs)"
    "elems s1 = insert v (elems s)"
    using add_law [of s "length vs" v] by auto
  with Cons.IH [of s1] Cons.prems(3) show ?case by auto
qed simp

lemma add_then_find:
  assumes "inv s" "room s 1" "fits 8 v" "fits 8 u"
  shows "\<exists>s'. add s v = Some (s', v \<notin> elems s) \<and> find s' u = Some (u = v \<or> u \<in> elems s)"
  using add_law [of s 0 v] find_law assms by fastforce

lemma remove_then_find:
  assumes "inv s" "fits 8 v" "fits 8 u"
  shows "\<exists>s'. remove s v = Some (s', v \<in> elems s) \<and> find s' u = Some (u \<noteq> v \<and> u \<in> elems s)"
  using remove_law [of s v] find_law assms by fastforce

end

definition intset_room :: "intset \<Rightarrow> nat \<Rightarrow> bool" where
  "intset_room is n \<longleftrightarrow> (unat (len is) + n) * 8 < 2 ^ 32"

lemma intset_invar_parts:
  assumes "intset_invar is"
  shows "sorted_wrt (<) (intset_elems is)" "unat (encoding is) \<in> {2, 4, 8}"
    "length (intset_elems is) * unat (encoding is) < 2 ^ 32" "length (intset_elems is) < 2 ^ 31"
proof -
  have "length (intset_elems is) = unat (len is)" by (simp add: intset_elems_def Let_def)
  with assms show "sorted_wrt (<) (intset_elems is)" "unat (encoding is) \<in> {2, 4, 8}"
    "length (intset_elems is) * unat (encoding is) < 2 ^ 32"
    by (auto simp: intset_invar_def)
  then show "length (intset_elems is) < 2 ^ 31" by auto
qed

lemma intset_elems_fit:
  assumes "intset_invar is" "v \<in> set (intset_elems is)"
  shows "fits (unat (encoding is)) v"
  using intset_invar_rep [OF assms(1)] assms(2) by (simp add: intset_rep_def)

lemma intsetFind_invar:
  assumes "intset_invar is" "fits 8 v"
  shows "intsetFind is v = Some (v \<in> set (intset_elems is))"
proof (cases "intsetValueEncoding v \<le> unat (encoding is)")
  case True
  then show ?thesis
    using intsetSearch_correct [OF intset_invar_rep] assms intset_invar_parts [OF assms(1)]
    by (simp add: intsetFind_def)
next
  case False
  then have "v \<notin> set (intset_elems is)"
    using intset_elems_fit [OF assms(1)] valueEncoding_least intset_invar_parts(2) [OF assms(1)]
    by blast
  with False show ?thesis by (simp add: intsetFind_def)
qed

lemma unfit_extreme:
  assumes "w \<in> {2, 4, 8}" "w < intsetValueEncoding v" "fits w x"
  shows "if v < 0 then v < x else x < v"
  using assms by (auto simp: fits_def intsetValueEncoding_def intset_encs split: if_splits)

lemma intset_rep_len: "intset_rep is xs \<Longrightarrow> unat (len is) = length xs"
  by (simp add: intset_rep_def)

lemma intsetAdd_invar:
  assumes inv: "intset_invar is" and room: "intset_room is (Suc n)" and fit: "fits 8 v"
  shows "\<exists>is'. intsetAdd junk is v = Some (is', v \<notin> set (intset_elems is)) \<and>
    intset_invar is' \<and> intset_room is' n \<and> set (intset_elems is') = insert v (set (intset_elems is))"
proof -
  let ?xs = "intset_elems is" and ?w = "unat (encoding is)"
  note rep = intset_invar_rep [OF inv] and parts = intset_invar_parts [OF inv]
  have bound: "Suc (length ?xs) * w' < 2 ^ 32" if "w' \<le> 8" for w'
  proof -
    have "Suc (length ?xs) * w' \<le> (length ?xs + Suc n) * 8"
      using that by (intro mult_le_mono) auto
    then show ?thesis using room by (simp add: intset_room_def intset_rep_len [OF rep])
  qed
  have finish: ?thesis
    if "intsetAdd junk is v = Some (is', True)" "intset_rep is' ys" "sorted_wrt (<) ys"
      "v \<notin> set ?xs" "set ys = insert v (set ?xs)" "length ys = Suc (length ?xs)"
      "unat (encoding is') \<le> 8" for is' ys
    using that intset_invarI [OF that(2,3)] bound [of "unat (encoding is')"] room
    by (simp add: intset_rep_elems [OF that(2)] intset_room_def intset_rep_len [OF rep]
        intset_rep_len [OF that(2)])
  show ?thesis
  proof (cases "?w < intsetValueEncoding v")
    case True
    let ?ys = "if v < 0 then v # ?xs else ?xs @ [v]"
    have extreme: "if v < 0 then v < x else x < v" if "x \<in> set ?xs" for x
      using unfit_extreme [OF parts(2) True intset_elems_fit [OF inv that]] .
    have "intsetValueEncoding v \<le> 8" using valueEncoding_cases [of v] by auto
    then obtain is' where "intsetUpgradeAndAdd junk is v = Some is'" "intset_rep is' ?ys"
      "unat (encoding is') \<le> 8"
      using intsetUpgradeAndAdd_correct [OF rep True _ fit, of junk] bound by auto
    moreover have "sorted_wrt (<) ?ys"
      using parts(1) extreme by (auto simp: sorted_wrt_append)
    moreover have "v \<notin> set ?xs" using extreme by fastforce
    ultimately show ?thesis
      using True by (intro finish [of is' ?ys]) (auto simp: intsetAdd_def)
  next
    case False
    then have fitw: "fits ?w v"
      using fits_iff_valueEncoding [OF parts(2) fit] by simp
    show ?thesis
    proof (cases "v \<in> set ?xs")
      case True
      then have "intsetAdd junk is v = Some (is, False)"
        using False intsetSearch_correct [OF rep parts(1,4), of v] by (simp add: intsetAdd_def)
      with True inv room show ?thesis by (auto simp: intset_room_def)
    next
      case new: False
      have "?w \<le> 8" using parts(2) by auto
      then obtain is' where is': "intsetAdd junk is v = Some (is', True)"
        "intset_rep is' (take (ins_point v ?xs) ?xs @ v # drop (ins_point v ?xs) ?xs)"
        "encoding is' = encoding is"
        using intsetAdd_insert [OF rep parts(1) new fitw] bound by blast
      with new \<open>?w \<le> 8\<close> show ?thesis
        by (intro finish [OF is'(1,2)] sorted_insert_at [OF parts(1)] set_insert_at)
          (auto simp: ins_point_le)
    qed
  qed
qed

lemma set_delete_at:
  assumes "distinct xs" "i < length xs"
  shows "set (take i xs @ drop (Suc i) xs) = set xs - {xs ! i}"
proof -
  define A B where "A = take i xs" and "B = drop (Suc i) xs"
  have "xs = A @ xs ! i # B"
    unfolding A_def B_def using assms(2) by (rule id_take_nth_drop)
  then obtain x where xs: "xs = A @ x # B" and x: "x = xs ! i" by blast
  from assms(1) have "x \<notin> set A" "x \<notin> set B" by (auto simp: xs)
  then have "set (A @ B) = set (A @ x # B) - {x}" by auto
  then show ?thesis by (simp only: A_def [symmetric] B_def [symmetric] x [symmetric] xs [symmetric])
qed

lemma sorted_delete_at:
  assumes "sorted_wrt (<) (xs :: int list)" "i < length xs"
  shows "sorted_wrt (<) (take i xs @ drop (Suc i) xs)"
proof -
  have "sorted_wrt (<) (take i xs @ xs ! i # drop (Suc i) xs)"
    using assms(1) id_take_nth_drop [OF assms(2)] by simp
  then show ?thesis by (simp add: sorted_wrt_append)
qed

lemma intsetRemove_invar:
  assumes inv: "intset_invar is" and fit: "fits 8 v"
  shows "\<exists>is'. intsetRemove junk is v = Some (is', v \<in> set (intset_elems is)) \<and>
    intset_invar is' \<and> set (intset_elems is') = set (intset_elems is) - {v}"
proof -
  let ?xs = "intset_elems is" and ?w = "unat (encoding is)"
  note rep = intset_invar_rep [OF inv] and parts = intset_invar_parts [OF inv]
  show ?thesis
  proof (cases "v \<in> set ?xs")
    case True
    let ?i = "ins_point v ?xs"
    let ?ys = "take ?i ?xs @ drop (Suc ?i) ?xs"
    obtain k where k: "k < length ?xs" "?xs ! k = v"
      using True by (auto simp: in_set_conv_nth)
    then have i: "?i = k" using ins_point_found [OF parts(1), of k] by simp
    obtain is' where is': "intsetRemove junk is v = Some (is', True)" "intset_rep is' ?ys"
      "encoding is' = encoding is"
      using intsetRemove_delete [OF rep parts(1) True intset_elems_fit [OF inv True] parts(3)] by blast
    have "length ?ys * unat (encoding is') \<le> length ?xs * ?w"
      unfolding is'(3) by (rule mult_le_mono1) (use i k in simp)
    with parts(3) have "intset_invar is'"
      using sorted_delete_at [OF parts(1) k(1)] i by (intro intset_invarI [OF is'(2)]) auto
    moreover have "set ?ys = set ?xs - {v}"
      using set_delete_at [of ?xs k] k i parts(1) strict_sorted_iff by auto
    ultimately show ?thesis
      using is'(1) True by (simp add: intset_rep_elems [OF is'(2)])
  next
    case False
    have "intsetRemove junk is v = Some (is, False)"
      using intsetSearch_correct [OF rep parts(1,4), of v] False by (simp add: intsetRemove_def)
    with False inv show ?thesis by simp
  qed
qed

interpretation iset: int_set "intsetAdd junk" "intsetRemove junk" intsetFind
    "\<lambda>is. set (intset_elems is)" intset_invar intset_room for junk
  by unfold_locales (rule intsetAdd_invar intsetRemove_invar intsetFind_invar; assumption)+

lemma intset_invar_New: "intset_invar intsetNew" "intset_elems intsetNew = []" "len intsetNew = 0"
  by (simp_all add: intset_invar_def intset_elems_def intsetNew_def INTSET_ENC_INT16_def)

subsection \<open>Properties\<close>

text \<open>
  C8: inserting any 64-bit integer into a well-formed intset that stays below 4 GB never
  leaves the memory block, reports whether the value was new, keeps the block sorted and of
  the right size, and yields exactly the old elements plus the value -- also when the
  insertion upgrades the encoding of all elements.
\<close>

theorem intsetAdd_correct:
  assumes "intset_invar is" "intset_room is 1" "fits 8 v"
  shows "\<exists>is'. intsetAdd junk is v = Some (is', v \<notin> set (intset_elems is)) \<and>
    intset_invar is' \<and> set (intset_elems is') = insert v (set (intset_elems is))"
  using iset.add_law [of "is" 0 v junk] assms by auto

theorem intsetAdd_correct_witness:
  "\<exists>is'. intsetAdd (\<lambda>_. 0xAA) intsetNew (-70000) = Some (is', True) \<and>
    intset_invar is' \<and> set (intset_elems is') = {-70000}"
  using intsetAdd_correct [of intsetNew "-70000" "\<lambda>_. 0xAA"]
  by (simp add: intset_invar_New intset_room_def fits_def)

text \<open>
  C16: removing a value from a well-formed intset is memory safe, reports whether it was
  there, keeps the invariant and yields the old elements without the value.
\<close>

theorem intsetRemove_correct:
  assumes "intset_invar is" "fits 8 v"
  shows "\<exists>is'. intsetRemove junk is v = Some (is', v \<in> set (intset_elems is)) \<and>
    intset_invar is' \<and> set (intset_elems is') = set (intset_elems is) - {v}"
  using assms by (rule iset.remove_law)

definition intset_3 :: intset where
  "intset_3 = \<lparr>encoding = 2, len = 3, contents = [0xFE, 0xFF, 5, 0, 0, 1]\<rparr>"

lemma intset_3_elems: "intset_elems intset_3 = [-2, 5, 256]"
  by (simp add: intset_elems_def intset_3_def le_sint_def upt_rec)

lemma intset_3_invar: "intset_invar intset_3"
  unfolding intset_invar_def intset_3_elems by (simp add: intset_3_def)

theorem intsetRemove_correct_witness:
  "\<exists>is'. intsetRemove (\<lambda>_. 0) intset_3 5 = Some (is', True) \<and>
    intset_invar is' \<and> set (intset_elems is') = {-2, 256}"
proof -
  have "{-2, 5, 256} - {5} = {-2, 256 :: int}" by auto
  then show ?thesis
    using intsetRemove_correct [OF intset_3_invar, of 5 "\<lambda>_. 0"]
    by (simp add: intset_3_elems fits_def)
qed

text \<open>
  C29: the membership test of a well-formed intset answers exactly membership; the binary
  search terminates and never reads outside of the block.
\<close>

theorem intsetFind_correct:
  assumes "intset_invar is" "fits 8 v"
  shows "intsetFind is v = Some (v \<in> set (intset_elems is))"
  using assms by (rule iset.find_law)

theorem intsetFind_correct_witness:
  "intsetFind intset_3 256 = Some True \<and> intsetFind intset_3 6 = Some False"
  using intsetFind_correct [OF intset_3_invar, of 256] intsetFind_correct [OF intset_3_invar, of 6]
  by (simp add: intset_3_elems fits_def)

text \<open>
  C24: whatever the order of a sequence of insertions and the values repeated in it, the
  resulting intset lists exactly the inserted values in increasing order.
\<close>

theorem intset_of_insertions:
  assumes "length vs * 8 < 2 ^ 32" "\<forall>v \<in> set vs. fits 8 v"
  shows "\<exists>is. foldl (\<lambda>r v. r \<bind> (\<lambda>s. map_option fst (intsetAdd junk s v))) (Some intsetNew) vs
      = Some is \<and> intset_elems is = sorted_list_of_set (set vs)"
proof -
  have "intset_room intsetNew (length vs)"
    using assms(1) by (simp add: intset_room_def intset_invar_New)
  then obtain "is" where r: "foldl (\<lambda>r v. r \<bind> (\<lambda>s. map_option fst (intsetAdd junk s v)))
      (Some intsetNew) vs = Some is" "intset_invar is" "set (intset_elems is) = set vs"
    using iset.add_all [of intsetNew vs junk] assms(2) by (auto simp: intset_invar_New)
  then have "intset_elems is = sorted_list_of_set (set vs)"
    using intset_invar_parts(1) [OF r(2)]
    by (metis sorted_list_of_set.idem_if_sorted_distinct strict_sorted_iff)
  with r show ?thesis by blast
qed

theorem intset_of_insertions_witness:
  "\<exists>is. foldl (\<lambda>r v. r \<bind> (\<lambda>s. map_option fst (intsetAdd (\<lambda>_. 7) s v))) (Some intsetNew)
      [9, -40000, 9, 2 ^ 40, 3] = Some is \<and> intset_elems is = [-40000, 3, 9, 2 ^ 40]"
proof -
  have "sorted_list_of_set (set [9, -40000, 9, 2 ^ 40, 3 :: int]) = [-40000, 3, 9, 2 ^ 40]"
    unfolding sorted_list_of_set_sort_remdups by simp
  moreover have "\<forall>v \<in> set [9, -40000, 9, 2 ^ 40, 3]. fits 8 v"
    by (simp add: fits_def)
  ultimately show ?thesis
    using intset_of_insertions [of "[9, -40000, 9, 2 ^ 40, 3]" "\<lambda>_. 7"] by auto
qed

text \<open>
  C37: the 4 GB precondition on insertion is needed.  When an insertion upgrades a 32-bit intset
  so large that its size in 64-bit cells does not fit \<open>uint32_t\<close>, the size computed by
  \<open>intsetResize\<close> wraps around, the block becomes too small, and the upgrade accesses memory
  outside of it.
\<close>

theorem intset_upgrade_overflow:
  assumes "intset_invar is" "encoding is = 4"
    and wrap: "2 ^ 32 \<le> (unat (len is) + 1) * 8" and "fits 8 v" "\<not> fits 4 v"
  shows "intsetAdd junk is v = None"
proof -
  define n where "n = unat (len is)"
  have enc8: "intsetValueEncoding v = 8"
    using assms(5) by (auto simp: fits_def intsetValueEncoding_def intset_encs)
  have n: "n * 4 < 2 ^ 32"
    using intset_invar_parts(3) [OF assms(1)] assms(2)
    by (simp add: n_def intset_elems_def Let_def)
  have "n \<noteq> 0" using wrap by (auto simp: n_def)
  then obtain m where m: "n = Suc m" using not0_implies_Suc by blast
  have slen: "sint (len is) = int n"
    using sint_eq_unat [of "len is"] n by (simp add: n_def)
  have len1: "unat (len is + 1) = Suc n"
    using unat_len_Suc [of "len is"] n by (simp add: n_def)
  have size: "unat ((len is + 1) * 8) = Suc n * 8 mod 2 ^ 32"
    unfolding unat_word_ariths(2) len1 by simp
  define is1 where "is1 = intsetResize junk (is\<lparr>encoding := 8\<rparr>) (len is + 1)"
  have e1: "encoding is1 = 8" and l1: "length (contents is1) = Suc n * 8 mod 2 ^ 32"
    by (simp_all add: is1_def intsetResize_def Let_def size [simplified])
  have "Suc n * 8 mod 2 ^ 32 < n * 8"
    using wrap n by (simp add: n_def le_mod_geq)
  then have "intsetSet is1 (int m + p) u = None" if "0 \<le> p" for p u
    using that m e1 l1
    by (simp add: intsetSet_def intset_encs Let_def buf_write_over nat_add_distrib)
  then have "upgrade_loop n is1 4 p = None" if "0 \<le> p" for p
    using that m by (cases "intsetGetEncoded is1 (int m) 4") auto
  then show ?thesis
    using assms(2) enc8
    by (simp add: intsetAdd_def intsetUpgradeAndAdd_def Let_def slen flip: is1_def)
qed

text \<open>The smallest such block: \<open>2\<^sup>2\<^sup>9 - 1\<close> 32-bit elements.\<close>

definition huge_intset :: intset where
  "huge_intset = \<lparr>encoding = 4, len = 0x1FFFFFFF, contents = enc_cells 4 (map int [0..<0x1FFFFFFF])\<rparr>"

lemma huge_intset_invar: "intset_invar huge_intset"
proof -
  define n :: nat where "n = 0x1FFFFFFF"
  have "intset_rep huge_intset (map int [0..<n])"
    unfolding intset_rep_def huge_intset_def n_def [symmetric]
    by (auto simp: fits_def) (simp_all add: n_def)
  moreover have "sorted_wrt (<) (map int [0..<n])"
    by (simp add: sorted_wrt_map)
  moreover have "length (map int [0..<n]) * unat (encoding huge_intset) < 2 ^ 32"
    by (simp add: huge_intset_def n_def)
  ultimately show ?thesis by (rule intset_invarI)
qed

theorem intset_upgrade_overflow_witness:
  "intset_invar huge_intset \<and> intsetAdd (\<lambda>_. 0) huge_intset (2 ^ 40) = None"
  using intset_upgrade_overflow [OF huge_intset_invar, of "2 ^ 40" "\<lambda>_. 0"] huge_intset_invar
  by (simp add: fits_def) (simp add: huge_intset_def)

end
