(* ===== verification/Util.thy ===== *)
theory Util
  imports Redis_Prelude
begin

text \<open>
  \<open>util.c\<close>: conversion between integers and their decimal representation, and glob-style
  pattern matching.  Strings are byte lists; C strings end at a NUL byte that is not part of
  the list.
\<close>

subsection \<open>Decimal digits\<close>

fun digits10 :: "nat \<Rightarrow> nat" where
  "digits10 v =
     (if v < 10 then 1
      else if v < 100 then 2
      else if v < 1000 then 3
      else if v < 1000000000000 then
        (if v < 100000000 then
           (if v < 1000000 then
              (if v < 10000 then 4
               else 5 + (if v \<ge> 100000 then 1 else 0))
            else 7 + (if v \<ge> 10000000 then 1 else 0))
         else if v < 10000000000 then 9 + (if v \<ge> 1000000000 then 1 else 0)
         else 11 + (if v \<ge> 100000000000 then 1 else 0))
      else 12 + digits10 (v div 1000000000000))"

declare digits10.simps [simp del]

abbreviation LLONG_MAX :: int where "LLONG_MAX \<equiv> 2 ^ 63 - 1"
abbreviation LLONG_MIN :: int where "LLONG_MIN \<equiv> - (2 ^ 63)"

definition int64 :: "int \<Rightarrow> bool" where
  "int64 v \<longleftrightarrow> LLONG_MIN \<le> v \<and> v \<le> LLONG_MAX"

definition sdigits10 :: "int \<Rightarrow> nat" where
  "sdigits10 v =
     (if v < 0 then
        (let uv = (if v \<noteq> LLONG_MIN then nat (- v) else nat LLONG_MAX + 1)
         in digits10 uv + 1)
      else digits10 (nat v))"

definition ll2string_digits :: bytes where
  "ll2string_digits = bstr
     (''0001020304050607080910111213141516171819'' @
      ''2021222324252627282930313233343536373839'' @
      ''4041424344454647484950515253545556575859'' @
      ''6061626364656667686970717273747576777879'' @
      ''8081828384858687888990919293949596979899'')"

text \<open>The main loop writes two digits per iteration, from the end of the buffer.\<close>

fun ll2string_loop :: "bytes \<Rightarrow> nat \<Rightarrow> int \<Rightarrow> (bytes \<times> nat \<times> int) option" where
  "ll2string_loop dst value next =
     (if value \<ge> 100 then do {
        let i = (value mod 100) * 2;
        dst1 \<leftarrow> put_byte dst next (ll2string_digits ! (i + 1));
        dst2 \<leftarrow> put_byte dst1 (next - 1) (ll2string_digits ! i);
        ll2string_loop dst2 (value div 100) (next - 2)
      }
      else Some (dst, value, next))"

declare ll2string_loop.simps [simp del]

text \<open>\<open>Handle last 1-2 digits\<close>.\<close>

definition ll2string_last :: "bytes \<Rightarrow> nat \<Rightarrow> int \<Rightarrow> bytes option" where
  "ll2string_last dst value next =
     (if value < 10 then put_byte dst next (0x30 + of_nat value)
      else do {
        let i = value * 2;
        d \<leftarrow> put_byte dst next (ll2string_digits ! (i + 1));
        put_byte d (next - 1) (ll2string_digits ! i)
      })"

text \<open>
  \<open>dst\<close> is the memory of the destination; \<open>dstlen\<close> what the caller says its size is.
  The result is the memory afterwards and the returned length.
\<close>

definition ll2string :: "bytes \<Rightarrow> nat \<Rightarrow> int \<Rightarrow> (bytes \<times> nat) option" where
  "ll2string dst dstlen svalue =
     (let (value, negative) =
        (if svalue < 0 then
           (if svalue \<noteq> LLONG_MIN then nat (- svalue) else nat LLONG_MAX + 1, True)
         else (nat svalue, False));
        length = digits10 value + (if negative then 1 else 0)
      in if length \<ge> dstlen then Some (dst, 0)
         else do {
           dst0 \<leftarrow> put_byte dst (int length) 0;
           (dst1, value1, next) \<leftarrow> ll2string_loop dst0 value (int length - 1);
           dst2 \<leftarrow> ll2string_last dst1 value1 next;
           dst3 \<leftarrow> (if negative then put_byte dst2 0 0x2D else Some dst2);
           Some (dst3, length)
         })"

subsection \<open>Parsing integers\<close>

abbreviation ULLONG_MAX :: u64 where "ULLONG_MAX \<equiv> -1"

text \<open>
  The digit loop of \<open>string2ll\<close>, on \<open>unsigned long long\<close>: \<^term>\<open>None\<close> is the early
  return on overflow, otherwise the accumulated value and the unread bytes.
\<close>

fun string2ll_loop :: "bytes \<Rightarrow> u64 \<Rightarrow> (u64 \<times> bytes) option" where
  "string2ll_loop [] v = Some (v, [])"
| "string2ll_loop (c # cs) v =
     (if 0x30 \<le> c \<and> c \<le> 0x39 then
        (if v > ULLONG_MAX div 10 then None
         else let v1 = v * 10
           in if v1 > ULLONG_MAX - ucast (c - 0x30) then None
              else string2ll_loop cs (v1 + ucast (c - 0x30)))
      else Some (v, c # cs))"

definition string2ll :: "bytes \<Rightarrow> int option" where
  "string2ll s =
     (if s = [] then None
      else if length s = 1 \<and> hd s = 0x30 then Some 0
      else let negative = (hd s = 0x2D); p = (if negative then tl s else s)
        in if p = [] then None
           else if 0x31 \<le> hd p \<and> hd p \<le> 0x39 then
             (case string2ll_loop (tl p) (ucast (hd p - 0x30)) of
                None \<Rightarrow> None
              | Some (v, rest) \<Rightarrow>
                  if rest \<noteq> [] then None
                  else if negative then
                    (if v > word_of_int (- (LLONG_MIN + 1)) + 1 then None else Some (sint (- v)))
                  else (if v > word_of_int LLONG_MAX then None else Some (sint v)))
           else None)"

text \<open>\<open>long\<close> has 64 bits on the supported hosts.\<close>

definition string2l :: "bytes \<Rightarrow> int option" where
  "string2l s =
     (case string2ll s of
        None \<Rightarrow> None
      | Some llval \<Rightarrow> if llval < LLONG_MIN \<or> llval > LLONG_MAX then None else Some llval)"

subsection \<open>Glob-style pattern matching\<close>

abbreviation c_star :: byte where "c_star \<equiv> 0x2A"
abbreviation c_quest :: byte where "c_quest \<equiv> 0x3F"
abbreviation c_lbrack :: byte where "c_lbrack \<equiv> 0x5B"
abbreviation c_rbrack :: byte where "c_rbrack \<equiv> 0x5D"
abbreviation c_caret :: byte where "c_caret \<equiv> 0x5E"
abbreviation c_bslash :: byte where "c_bslash \<equiv> 0x5C"
abbreviation c_minus :: byte where "c_minus \<equiv> 0x2D"

text \<open>\<open>char\<close> is signed; \<open>tolower\<close> in the C locale.\<close>

definition tolower :: "int \<Rightarrow> int" where
  "tolower c = (if 0x41 \<le> c \<and> c \<le> 0x5A then c + 32 else c)"

definition char_eq :: "bool \<Rightarrow> byte \<Rightarrow> byte \<Rightarrow> bool" where
  "char_eq nocase a b =
     (if \<not> nocase then a = b else tolower (sint a) = tolower (sint b))"

definition in_range :: "bool \<Rightarrow> byte \<Rightarrow> byte \<Rightarrow> byte \<Rightarrow> bool" where
  "in_range nocase p0 p2 s0 =
     (let start = sint p0; stop = sint p2; c = sint s0;
          (start, stop) = (if start > stop then (stop, start) else (start, stop));
          (start, stop, c) = (if nocase then (tolower start, tolower stop, tolower c) else (start, stop, c))
      in c \<ge> start \<and> c \<le> stop)"

text \<open>
  The \<open>while(1)\<close> loop over a character class, for the current string byte \<open>c\<close>: whether a
  class member matched, and the pattern after the closing bracket.  When the pattern ends
  inside the class the code steps back one byte so that the common \<open>pattern++\<close> ends at the
  terminator, which is the empty rest here.
\<close>

fun class_loop :: "bytes \<Rightarrow> byte \<Rightarrow> bool \<Rightarrow> bool \<Rightarrow> bool \<times> bytes" where
  "class_loop [] c nocase match = (match, [])"
| "class_loop (x # xs) c nocase match =
     (if x = c_bslash \<and> xs \<noteq> [] then class_loop (tl xs) c nocase (match \<or> hd xs = c)
      else if x = c_rbrack then (match, xs)
      else case xs of
        d # y # ys \<Rightarrow>
          if d = c_minus then class_loop ys c nocase (match \<or> in_range nocase x y c)
          else class_loop xs c nocase (match \<or> char_eq nocase x c)
      | _ \<Rightarrow> class_loop xs c nocase (match \<or> char_eq nocase x c))"

text \<open>\<open>while (pattern[1] == '*')\<close> leaves one star in front.\<close>

fun skip_stars :: "bytes \<Rightarrow> bytes" where
  "skip_stars [] = []"
| "skip_stars (x # xs) = (if x = c_star then skip_stars xs else x # xs)"

lemma length_skip_stars: "length (skip_stars p) \<le> length p"
  by (induction p) auto

declare class_loop.simps(2) [simp del]

lemma length_class_loop: "length (snd (class_loop p c nocase m)) \<le> length p"
proof (induction p arbitrary: m rule: length_induct)
  case (1 p)
  have IH: "length (snd (class_loop q c nocase m')) \<le> n" if "length q < length p" "length q \<le> n"
    for q m' n
    using 1 that by (meson le_trans)
  show ?case
  proof (cases p)
    case (Cons x xs)
    then show ?thesis
      by (auto simp: class_loop.simps(2) [of x xs] intro!: IH split: list.splits)
  qed simp
qed

text \<open>
  The cases of the \<open>switch\<close> that compare one byte of the string: \<^term>\<open>None\<close> is
  \<open>return 0\<close>, otherwise the pattern after the common \<open>pattern++\<close>.
\<close>

definition match_one :: "bytes \<Rightarrow> byte \<Rightarrow> bool \<Rightarrow> bytes option" where
  "match_one pattern s0 nocase =
     (let p0 = hd pattern; ps = tl pattern
      in if p0 = c_quest then Some ps
         else if p0 = c_lbrack then
           (let neg = (ps \<noteq> [] \<and> hd ps = c_caret);
                (m, rest) = class_loop (if neg then tl ps else ps) s0 nocase False;
                m = (if neg then \<not> m else m)
            in if \<not> m then None else Some rest)
         else
           (let p = (if p0 = c_bslash \<and> ps \<noteq> [] then ps else pattern)
            in if char_eq nocase (hd p) s0 then Some (tl p) else None))"

lemma length_match_one:
  assumes "match_one p c nocase = Some q" "p \<noteq> []"
  shows "length q < length p"
proof -
  obtain p0 ps where p: "p = p0 # ps" using assms(2) by (cases p) auto
  have "length (snd (class_loop r c nocase m)) < Suc (length ps)" if "length r \<le> length ps" for r m
    using length_class_loop [of r c nocase m] that by simp
  from this [of ps False] this [of "tl ps" False] assms(1) show ?thesis
    by (auto simp: p match_one_def Let_def split: if_splits prod.splits)
qed

text \<open>
  \<open>stringmatchlen\<close> and the inner loop of its star case, which tries every non-empty rest of
  the string.  The trailing \<open>while (*pattern == '*')\<close> runs when the string is used up.
\<close>

function (sequential) stringmatchlen :: "bytes \<Rightarrow> bytes \<Rightarrow> bool \<Rightarrow> bool"
  and star_loop :: "bytes \<Rightarrow> bytes \<Rightarrow> bool \<Rightarrow> bool" where
  "stringmatchlen (p0 # ps) (s0 # ss) nocase =
     (if p0 = c_star then
        (let rest = skip_stars ps
         in if rest = [] then True else star_loop rest (s0 # ss) nocase)
      else
        (case match_one (p0 # ps) s0 nocase of
           None \<Rightarrow> False
         | Some p \<Rightarrow> if ss = [] then skip_stars p = [] else stringmatchlen p ss nocase))"
| "stringmatchlen pattern string nocase = (pattern = [] \<and> string = [])"
| "star_loop rest [] nocase = False"
| "star_loop rest (s0 # ss) nocase =
     (if stringmatchlen rest (s0 # ss) nocase then True else star_loop rest ss nocase)"
  by pat_completeness auto
termination
  by (relation "measures
    [\<lambda>x. case x of Inl (p, s, n) \<Rightarrow> length p | Inr (p, s, n) \<Rightarrow> length p,
     \<lambda>x. case x of Inl (p, s, n) \<Rightarrow> length s | Inr (p, s, n) \<Rightarrow> length s,
     \<lambda>x. case x of Inl _ \<Rightarrow> 0 | Inr _ \<Rightarrow> 1]")
    (auto simp: le_imp_less_Suc length_skip_stars dest: length_match_one)

subsection \<open>The decimal representation\<close>

fun nat_dec :: "nat \<Rightarrow> bytes" where
  "nat_dec n = (if n < 10 then [0x30 + of_nat n] else nat_dec (n div 10) @ [0x30 + of_nat (n mod 10)])"

declare nat_dec.simps [simp del]

definition int_dec :: "int \<Rightarrow> bytes" where
  "int_dec v = (if v < 0 then c_minus # nat_dec (nat (- v)) else nat_dec (nat v))"

lemma nat_dec_less [simp]: "n < 10 \<Longrightarrow> nat_dec n = [0x30 + of_nat n]"
  by (simp add: nat_dec.simps)

lemma nat_dec_ge: "10 \<le> n \<Longrightarrow> nat_dec n = nat_dec (n div 10) @ [0x30 + of_nat (n mod 10)]"
  by (subst nat_dec.simps) simp

lemma nat_dec_nonempty [simp]: "nat_dec n \<noteq> []"
  by (subst nat_dec.simps) simp

lemma length_nat_dec_div: "10 ^ k \<le> v \<Longrightarrow> length (nat_dec v) = k + length (nat_dec (v div 10 ^ k))"
proof (induction k arbitrary: v)
  case (Suc k)
  have "10 \<le> v"
    using Suc.prems by (rule order_trans [rotated]) simp
  moreover have "10 ^ k \<le> v div 10"
    using Suc.prems by (simp add: less_eq_div_iff_mult_less_eq mult.commute)
  ultimately show ?case
    using Suc.IH [of "v div 10"] by (simp add: nat_dec_ge div_mult2_eq mult.commute)
qed simp

lemma length_nat_dec_eq: "10 ^ k \<le> v \<Longrightarrow> v < 10 ^ Suc k \<Longrightarrow> length (nat_dec v) = Suc k"
  using length_nat_dec_div [of k v] by (simp add: div_less_iff_less_mult mult.commute)

lemma digits10_interval:
  assumes "10 ^ k \<le> v" "v < 10 ^ Suc k" "k \<in> {1, 2, 3, 4, 5, 6, 7, 8, 9, 10, 11}"
  shows "digits10 v = Suc k"
  using assms(3,1,2) by (elim insertE emptyE) (subst digits10.simps, simp)+

lemma digits10_length: "digits10 v = length (nat_dec v)"
proof (induction v rule: digits10.induct)
  case (1 v)
  consider "v < 10" | "10 \<le> v" "v < 1000000000000" | "1000000000000 \<le> v" by linarith
  then show ?case
  proof cases
    case 2
    then obtain k where k: "10 ^ k \<le> v" "v < 10 ^ Suc k"
      using ex_power_ivl1 [of 10 v] by auto
    have "k \<noteq> 0" using k(2) 2(1) by (cases k) auto
    moreover have "k < 12"
    proof (rule ccontr)
      assume "\<not> k < 12"
      then have "(10::nat) ^ 12 \<le> 10 ^ k" by (intro power_increasing) auto
      with k(1) 2(2) show False by simp
    qed
    ultimately have "k \<in> {1, 2, 3, 4, 5, 6, 7, 8, 9, 10, 11}" by simp arith
    with k show ?thesis by (simp add: digits10_interval length_nat_dec_eq)
  next
    case 3
    then show ?thesis
      using 1 length_nat_dec_div [of 12 v] by (subst digits10.simps) simp
  qed (subst digits10.simps, simp)
qed

subsection \<open>Printing\<close>

lemma length_ll2string_digits: "length ll2string_digits = 200"
  by (simp add: ll2string_digits_def bstr_def)

lemma nth_concat_pairs:
  assumes "i < length xs"
  shows "concat (map (\<lambda>x. [f x, g x]) xs) ! (2 * i) = f (xs ! i)"
    and "concat (map (\<lambda>x. [f x, g x]) xs) ! Suc (2 * i) = g (xs ! i)"
  using assms by (induction xs arbitrary: i) (auto simp: nth_Cons split: nat.split)

lemma ll2string_digits_eq:
  "ll2string_digits =
   concat (map (\<lambda>i. [0x30 + of_nat (i div 10), 0x30 + of_nat (i mod 10)]) [0..<100])"
  by (simp add: ll2string_digits_def bstr_def upt_rec)

lemma ll2string_digits_nth:
  assumes "i < 100"
  shows "ll2string_digits ! (2 * i) = 0x30 + of_nat (i div 10)"
    and "ll2string_digits ! Suc (2 * i) = 0x30 + of_nat (i mod 10)"
proof -
  define xs :: "nat list" where "xs = [0..<100]"
  have "i < length xs" "xs ! i = i"
    using assms nth_upt [of 0 i 100] by (simp_all add: xs_def del: upt_rec_numeral)
  then show "ll2string_digits ! (2 * i) = 0x30 + of_nat (i div 10)"
    and "ll2string_digits ! Suc (2 * i) = 0x30 + of_nat (i mod 10)"
    unfolding ll2string_digits_eq xs_def [symmetric] by (simp_all add: nth_concat_pairs)
qed

lemma nat_dec_two:
  assumes "100 \<le> n"
  shows "nat_dec n = nat_dec (n div 100) @
    [ll2string_digits ! (n mod 100 * 2), ll2string_digits ! (n mod 100 * 2 + 1)]"
proof -
  have "nat_dec n = nat_dec (n div 10 div 10) @ [0x30 + of_nat (n div 10 mod 10), 0x30 + of_nat (n mod 10)]"
    using assms nat_dec_ge [of n] nat_dec_ge [of "n div 10"] by simp
  moreover have "n div 10 div 10 = n div 100" "n mod 100 div 10 = n div 10 mod 10"
    "n mod 100 mod 10 = n mod 10"
    by (simp_all flip: div_mult2_eq add: mod_mult2_eq [of n 10 10, simplified] mod_mod_cancel)
  ultimately show ?thesis
    using ll2string_digits_nth [of "n mod 100"] by (simp add: mult.commute)
qed

lemma ll2string_loop_correct:
  assumes "length X = length (nat_dec val)" "nx = int (length A + length X) - 1"
  shows "\<exists>Y val' ds. ll2string_loop (A @ X @ B) val nx =
      Some (A @ Y @ ds @ B, val', int (length A + length Y) - 1) \<and>
    val' < 100 \<and> length Y = length (nat_dec val') \<and> nat_dec val = nat_dec val' @ ds"
  using assms
proof (induction val arbitrary: X B nx rule: less_induct)
  case (less val)
  show ?case
  proof (cases "100 \<le> val")
    case False
    with less.prems show ?thesis
      by (intro exI [of _ X] exI [of _ val] exI [of _ "[]"]) (simp add: ll2string_loop.simps)
  next
    case True
    let ?i = "val mod 100 * 2"
    have split: "nat_dec val = nat_dec (val div 100) @ [ll2string_digits ! ?i, ll2string_digits ! (?i + 1)]"
      using True by (rule nat_dec_two)
    define n where "n = length (nat_dec (val div 100))"
    have lX: "length X = n + 2" using less.prems(1) split by (simp add: n_def)
    then have "length (drop n X) = Suc (Suc 0)" by simp
    then obtain x y where "drop n X = [x, y]" by (auto simp only: length_Suc_conv length_0_conv)
    then obtain X' where X: "X = X' @ [x, y]" "length X' = n"
      using append_take_drop_id [of n X] lX by (metis diff_add_inverse2 length_append length_drop
          length_take min.absorb2 le_add1)
    let ?B = "ll2string_digits ! ?i # ll2string_digits ! (?i + 1) # B"
    have "put_byte (A @ X @ B) nx (ll2string_digits ! (?i + 1)) =
        Some (A @ X' @ x # ll2string_digits ! (?i + 1) # B)"
      using put_byte_mid [of nx "A @ X' @ [x]" y B] less.prems(2) X by simp
    moreover have "put_byte (A @ X' @ x # ll2string_digits ! (?i + 1) # B) (nx - 1) (ll2string_digits ! ?i) =
        Some (A @ X' @ ?B)"
      using put_byte_mid [of "nx - 1" "A @ X'" x] less.prems(2) X by simp
    ultimately have step: "ll2string_loop (A @ X @ B) val nx =
        ll2string_loop (A @ X' @ ?B) (val div 100) (nx - 2)"
      using True by (subst ll2string_loop.simps) (simp add: Let_def)
    have "\<exists>Y val' ds. ll2string_loop (A @ X' @ ?B) (val div 100) (nx - 2) =
          Some (A @ Y @ ds @ ?B, val', int (length A + length Y) - 1) \<and>
        val' < 100 \<and> length Y = length (nat_dec val') \<and> nat_dec (val div 100) = nat_dec val' @ ds"
      using True X less.prems(2) by (intro less.IH) (auto simp: n_def)
    then obtain Y val' ds where
      "ll2string_loop (A @ X' @ ?B) (val div 100) (nx - 2) =
          Some (A @ Y @ ds @ ?B, val', int (length A + length Y) - 1)"
      "val' < 100" "length Y = length (nat_dec val')" "nat_dec (val div 100) = nat_dec val' @ ds"
      by blast
    then show ?thesis
      using step split
      by (intro exI [of _ Y] exI [of _ val'] exI [of _ "ds @ [ll2string_digits ! ?i, ll2string_digits ! (?i + 1)]"]) simp
  qed
qed

lemma ll2string_last_correct:
  assumes "val < 100" "length Y = length (nat_dec val)" "nx = int (length A + length Y) - 1"
  shows "ll2string_last (A @ Y @ B) val nx = Some (A @ nat_dec val @ B)"
proof (cases "val < 10")
  case True
  with assms obtain y where "Y = [y]" by (auto simp: length_Suc_conv)
  with True assms show ?thesis using put_byte_mid [of nx A y B] by (simp add: ll2string_last_def)
next
  case False
  then have dec: "nat_dec val = [ll2string_digits ! (val * 2), ll2string_digits ! (val * 2 + 1)]"
    using assms(1) nat_dec_ge [of val] ll2string_digits_nth [of val] by (simp add: mult.commute)
  with assms obtain x y where "Y = [x, y]" by (auto simp: length_Suc_conv)
  then show ?thesis
    using False assms dec put_byte_mid [of nx "A @ [x]" y B] put_byte_mid [of "nx - 1" A x]
    by (simp add: ll2string_last_def Let_def)
qed

lemma ll2string_value:
  "(if svalue < 0 then (if svalue \<noteq> LLONG_MIN then nat (- svalue) else nat LLONG_MAX + 1, True)
    else (nat svalue, False)) = (nat \<bar>svalue\<bar>, svalue < 0)"
  by auto

lemma int_dec_sign: "int_dec v = (if v < 0 then [c_minus] else []) @ nat_dec (nat \<bar>v\<bar>)"
  by (simp add: int_dec_def)

lemma ll2string_writes:
  assumes "length (int_dec v) < dstlen" "dstlen \<le> length dst"
  shows "ll2string dst dstlen v =
    Some (int_dec v @ [0] @ drop (length (int_dec v) + 1) dst, length (int_dec v))"
proof -
  define val where "val = nat \<bar>v\<bar>"
  define L where "L = length (int_dec v)"
  define A where "A = (if v < 0 then [hd dst] else [])"
  have dst: "dst \<noteq> []" using assms by auto
  have L: "L = length A + length (nat_dec val)"
    by (simp add: L_def A_def int_dec_sign val_def)
  define X where "X = drop (length A) (take L dst)"
  define B where "B = drop (L + 1) dst"
  have "L < length dst" using assms by (simp add: L_def)
  then have "dst = take L dst @ dst ! L # B" unfolding B_def by (simp add: id_take_nth_drop)
  moreover have "take L dst = A @ X"
    using L dst by (cases dst) (auto simp: A_def X_def take_Cons' length_greater_0_conv [symmetric] simp del: length_greater_0_conv)
  ultimately have split: "dst = A @ X @ dst ! L # B" by (metis append.assoc)
  have lX: "length X = length (nat_dec val)"
    using \<open>L < length dst\<close> L by (simp add: X_def)
  have nul: "put_byte dst (int L) 0 = Some (A @ X @ 0 # B)"
    using put_byte_mid [of "int L" "A @ X" "dst ! L" B 0] split L lX by simp
  obtain Y val' ds where loop: "ll2string_loop (A @ X @ 0 # B) val (int L - 1) =
      Some (A @ Y @ ds @ 0 # B, val', int (length A + length Y) - 1)"
    and val': "val' < 100" "length Y = length (nat_dec val')" and dec: "nat_dec val = nat_dec val' @ ds"
    using ll2string_loop_correct [OF lX, of "int L - 1" A "0 # B"] L lX by auto
  have last: "ll2string_last (A @ Y @ ds @ 0 # B) val' (int (length A + length Y) - 1) =
      Some (A @ nat_dec val @ 0 # B)"
    using ll2string_last_correct [OF val' refl, of A "ds @ 0 # B"] dec by simp
  have sign: "(if v < 0 then put_byte (A @ nat_dec val @ 0 # B) 0 c_minus
               else Some (A @ nat_dec val @ 0 # B)) = Some (int_dec v @ [0] @ B)"
    by (simp add: A_def put_byte_def int_dec_sign val_def)
  have len: "digits10 val + (if v < 0 then 1 else 0) = L"
    by (simp add: L_def digits10_length int_dec_sign val_def)
  have "\<not> dstlen \<le> L" using assms(1) by (simp add: L_def)
  then have "ll2string dst dstlen v = Some (int_dec v @ [0] @ B, L)"
    unfolding ll2string_def ll2string_value prod.case Let_def val_def [symmetric] len
    by (simp only: if_False nul loop last sign Option.bind.bind_lunit prod.case)
  then show ?thesis by (simp add: B_def L_def)
qed

subsection \<open>Parsing\<close>

definition is_digit :: "byte \<Rightarrow> bool" where
  "is_digit c \<longleftrightarrow> 0x30 \<le> c \<and> c \<le> 0x39"

definition dval :: "bytes \<Rightarrow> nat \<Rightarrow> nat" where
  "dval ds a = foldl (\<lambda>a c. a * 10 + unat (c - 0x30)) a ds"

lemma dval_simps [simp]:
  "dval [] a = a"
  "dval (c # ds) a = dval ds (a * 10 + unat (c - 0x30))"
  "dval (ds @ [c]) a = dval ds a * 10 + unat (c - 0x30)"
  by (simp_all add: dval_def)

lemma dval_ge: "a \<le> dval ds a"
proof (induction ds arbitrary: a)
  case (Cons c ds)
  have "a \<le> a * 10 + unat (c - 0x30)" by simp
  also have "\<dots> \<le> dval ds (a * 10 + unat (c - 0x30))" by (rule Cons)
  finally show ?case by simp
qed simp

lemma is_digit_of_nat [simp]: "n < 10 \<Longrightarrow> is_digit (0x30 + of_nat n)"
proof -
  assume n: "n < 10"
  then have "unat (0x30 + of_nat n :: byte) = 0x30 + n"
    by (simp add: unat_word_ariths unat_of_nat take_bit_nat_eq_self)
  with n show ?thesis by (simp add: is_digit_def word_le_nat_alt)
qed

lemma digit_value [simp]: "n < 10 \<Longrightarrow> unat (of_nat n :: byte) = n"
  by (simp add: unat_of_nat take_bit_nat_eq_self)

lemma is_digit_cases: "is_digit c \<Longrightarrow> \<exists>n < 10. c = 0x30 + of_nat n"
proof -
  assume c: "is_digit c"
  then have le: "unat (c - 0x30) = unat c - 48"
    by (simp add: is_digit_def unat_sub)
  have "unat c \<le> 57" using c by (simp add: is_digit_def word_le_nat_alt)
  with le have "unat (c - 0x30) < 10" by simp
  moreover have "c = 0x30 + of_nat (unat (c - 0x30))" by simp
  ultimately show ?thesis by blast
qed

lemma nat_dec_digits: "c \<in> set (nat_dec n) \<Longrightarrow> is_digit c"
proof (induction n rule: nat_dec.induct)
  case (1 n)
  then show ?case by (cases "n < 10") (auto simp: nat_dec_ge)
qed

lemma dval_nat_dec: "dval (nat_dec n) 0 = n"
proof (induction n rule: nat_dec.induct)
  case (1 n)
  then show ?case by (cases "n < 10") (simp_all add: nat_dec_ge)
qed

lemma hd_nat_dec: "0 < n \<Longrightarrow> hd (nat_dec n) \<noteq> 0x30"
proof (induction n rule: nat_dec.induct)
  case (1 n)
  show ?case
  proof (cases "n < 10")
    case True
    have "(0x30 + of_nat n :: byte) \<noteq> 0x30"
      using digit_value [OF True] 1(2) by auto
    with True show ?thesis by simp
  next
    case False
    with 1 show ?thesis by (simp add: nat_dec_ge)
  qed
qed

text \<open>A digit string without a leading zero is the representation of its value.\<close>

lemma nat_dec_dval:
  assumes "ds \<noteq> []" "\<forall>c \<in> set ds. is_digit c" "hd ds \<noteq> 0x30"
  shows "nat_dec (dval ds 0) = ds \<and> 0 < dval ds 0"
  using assms
proof (induction ds rule: rev_induct)
  case (snoc c ds)
  obtain n where n: "n < 10" "c = 0x30 + of_nat n"
    using snoc.prems(2) is_digit_cases by force
  show ?case
  proof (cases "ds = []")
    case True
    with snoc.prems(3) n have "0 < n" by (cases n) auto
    with True n show ?thesis by simp
  next
    case False
    with snoc have IH: "nat_dec (dval ds 0) = ds" "0 < dval ds 0" by auto
    then have "10 \<le> dval (ds @ [c]) 0" by simp
    moreover have "dval (ds @ [c]) 0 div 10 = dval ds 0" "dval (ds @ [c]) 0 mod 10 = n"
      using n by simp_all
    ultimately show ?thesis using IH n by (simp only: nat_dec_ge) simp
  qed
qed simp

lemma ucast_digit:
  assumes "is_digit c"
  shows "unat (ucast (c - 0x30) :: u64) = unat (c - 0x30)"
proof -
  have "unat (c - 0x30) < 2 ^ 64"
    by (rule less_le_trans [OF unsigned_less]) simp
  then show ?thesis by (simp add: unsigned_ucast_eq take_bit_nat_eq_self)
qed

lemma unat_ULLONG_MAX: "unat ULLONG_MAX = 2 ^ 64 - 1"
  by (simp add: unsigned_minus_1_eq_mask mask_eq_exp_minus_1)

lemma string2ll_loop_digits:
  assumes "\<forall>c \<in> set ds. is_digit c"
  shows "string2ll_loop ds v =
    (if dval ds (unat v) < 2 ^ 64 then Some (of_nat (dval ds (unat v)), []) else None)"
  using assms
proof (induction ds arbitrary: v)
  case Nil
  have "unat v < 2 ^ LENGTH(64)" by (rule unsigned_less)
  then show ?case by simp
next
  case (Cons c ds)
  let ?d = "unat (c - 0x30)"
  have c: "0x30 \<le> c \<and> c \<le> 0x39" using Cons.prems by (simp add: is_digit_def)
  have d: "unat (ucast (c - 0x30) :: u64) = ?d" using Cons.prems by (intro ucast_digit) simp
  obtain k where "k < 10" "c = 0x30 + of_nat k" using Cons.prems is_digit_cases by force
  then have d10: "?d < 10" by simp
  show ?case
  proof (cases "unat v * 10 + ?d < 2 ^ 64")
    case True
    have "\<not> v > ULLONG_MAX div 10"
      using True by (simp add: word_less_nat_alt unat_div)
    moreover have v10: "unat (v * 10) = unat v * 10"
      using unat_mult_no_wrap [of v 10] True by simp
    moreover have "\<not> v * 10 > ULLONG_MAX - ucast (c - 0x30)"
    proof -
      have "unat (ULLONG_MAX - ucast (c - 0x30) :: u64) = 2 ^ 64 - 1 - ?d"
        by (subst unat_sub) (simp_all add: d unat_ULLONG_MAX)
      with True v10 show ?thesis by (simp add: word_less_nat_alt)
    qed
    moreover have "unat (v * 10 + ucast (c - 0x30)) = unat v * 10 + ?d"
      using unat_add_no_wrap [of "v * 10" "ucast (c - 0x30)"] True v10 d by simp
    ultimately show ?thesis
      using c Cons.IH [of "v * 10 + ucast (c - 0x30)"] Cons.prems by (simp add: Let_def)
  next
    case False
    have over: "\<not> dval ds (unat v * 10 + ?d) < 2 ^ 64"
      using False dval_ge [of "unat v * 10 + ?d" ds] by linarith
    have "v > ULLONG_MAX div 10 \<or> v * 10 > ULLONG_MAX - ucast (c - 0x30)"
    proof (cases "v > ULLONG_MAX div 10")
      case small: False
      then have "unat v * 10 < 2 ^ 64" by (simp add: word_less_nat_alt unat_div)
      then have v10: "unat (v * 10) = unat v * 10" using unat_mult_no_wrap [of v 10] by simp
      have "unat (ULLONG_MAX - ucast (c - 0x30) :: u64) = 2 ^ 64 - 1 - ?d"
        by (subst unat_sub) (simp_all add: d unat_ULLONG_MAX)
      moreover have "2 ^ 64 - 1 - ?d < unat v * 10" using False d10 by simp
      ultimately show ?thesis using v10 by (simp add: word_less_nat_alt)
    qed simp
    with c over show ?thesis by (auto simp: Let_def)
  qed
qed

lemma string2ll_loop_rest: "string2ll_loop cs v = Some (w, []) \<Longrightarrow> \<forall>c \<in> set cs. is_digit c"
  by (induction cs arbitrary: v) (auto simp: is_digit_def Let_def split: if_splits)

lemma string2ll_nat:
  assumes "0 < n"
  shows "string2ll_loop (tl (nat_dec n)) (ucast (hd (nat_dec n) - 0x30)) =
    (if n < 2 ^ 64 then Some (of_nat n, []) else None)"
    and "0x31 \<le> hd (nat_dec n) \<and> hd (nat_dec n) \<le> 0x39"
proof -
  obtain c cs where cc: "nat_dec n = c # cs" by (cases "nat_dec n") simp_all
  have dig: "is_digit c" "\<forall>x \<in> set cs. is_digit x"
    using nat_dec_digits [of _ n] cc by auto
  have "dval cs (unat (ucast (c - 0x30) :: u64)) = n"
    using dval_nat_dec [of n] ucast_digit [OF dig(1)] cc by simp
  then show "string2ll_loop (tl (nat_dec n)) (ucast (hd (nat_dec n) - 0x30)) =
    (if n < 2 ^ 64 then Some (of_nat n, []) else None)"
    using string2ll_loop_digits [OF dig(2)] cc by simp
  have "unat c \<noteq> 48" using hd_nat_dec [OF assms] cc by (simp add: word_unat_eq_iff)
  with dig(1) show "0x31 \<le> hd (nat_dec n) \<and> hd (nat_dec n) \<le> 0x39"
    by (simp add: cc is_digit_def word_le_nat_alt)
qed

lemma sint_of_nat_small: "n < 2 ^ 63 \<Longrightarrow> sint (of_nat n :: u64) = int n"
  using sint_eq_unat [of "of_nat n :: u64"] by (simp add: unat_of_nat_no_wrap)

lemma sint_minus_of_nat:
  assumes "0 < n" "n \<le> 2 ^ 63"
  shows "sint (- (of_nat n :: u64)) = - int n"
proof -
  have "signed_take_bit 63 (- int n) = - int n"
    using assms by (intro signed_take_bit_int_eq_self) auto
  moreover have "- (of_nat n :: u64) = of_int (- int n)" by simp
  ultimately show ?thesis by (simp only: sint_sbintrunc') simp
qed

lemma string2ll_int_dec: "string2ll (int_dec v) = (if int64 v then Some v else None)"
proof (cases "v = 0")
  case True
  then show ?thesis by (simp add: string2ll_def int_dec_def int64_def)
next
  case False
  define n where "n = nat \<bar>v\<bar>"
  have n: "0 < n" using False by (simp add: n_def)
  note parse = string2ll_nat [OF n]
  have first: "hd (nat_dec n) \<noteq> c_minus" "hd (nat_dec n) \<noteq> 0x30"
    using parse(2) by auto
  have lim: "n < 2 ^ 64 \<Longrightarrow> (of_nat n > (word_of_int (- (LLONG_MIN + 1)) + 1 :: u64)) = (2 ^ 63 < n)"
    "n < 2 ^ 64 \<Longrightarrow> (of_nat n > (word_of_int LLONG_MAX :: u64)) = (2 ^ 63 \<le> n)"
    by (auto simp: word_less_nat_alt unat_of_nat_no_wrap)
  show ?thesis
  proof (cases "v < 0")
    case True
    then have v: "v = - int n" by (simp add: n_def)
    then have "int64 v \<longleftrightarrow> n \<le> 2 ^ 63" by (auto simp: int64_def)
    then show ?thesis
      using True n parse lim(1) sint_minus_of_nat [OF n]
      by (auto simp: string2ll_def int_dec_sign Let_def v)
  next
    case nonneg: False
    then have v: "v = int n" by (simp add: n_def)
    then have "int64 v \<longleftrightarrow> n < 2 ^ 63" by (auto simp: int64_def)
    then show ?thesis
      using nonneg first parse lim(2) sint_of_nat_small [of n]
      by (auto simp: string2ll_def int_dec_sign Let_def v)
  qed
qed

lemma string2ll_accepts:
  assumes "string2ll s = Some v"
  shows "\<exists>u. s = int_dec u"
proof (cases "s = [0x30]")
  case True
  then have "s = int_dec 0" by (simp add: int_dec_def)
  then show ?thesis ..
next
  case False
  define p where "p = (if hd s = c_minus then tl s else s)"
  have s: "s \<noteq> []" "\<not> (length s = 1 \<and> hd s = 0x30)"
    using assms False by (auto simp: string2ll_def length_Suc_conv)
  with assms have p: "p \<noteq> []" "0x31 \<le> hd p \<and> hd p \<le> 0x39"
    and "\<exists>w. string2ll_loop (tl p) (ucast (hd p - 0x30)) = Some (w, [])"
    by (auto simp: string2ll_def Let_def p_def split: if_splits option.splits)
  then have "\<forall>c \<in> set (tl p). is_digit c" using string2ll_loop_rest by blast
  with p have digits: "\<forall>c \<in> set p. is_digit c"
    by (cases p) (auto simp: is_digit_def word_le_nat_alt)
  have "hd p \<noteq> 0x30" using p(2) by auto
  with p(1) digits have "nat_dec (dval p 0) = p" "0 < dval p 0"
    using nat_dec_dval by blast+
  then have "s = int_dec (if hd s = c_minus then - int (dval p 0) else int (dval p 0))"
    using s(1) by (cases s) (auto simp: int_dec_def p_def)
  then show ?thesis ..
qed

lemma string2ll_canonical: "string2ll s = Some v \<longleftrightarrow> int64 v \<and> s = int_dec v"
proof
  assume parsed: "string2ll s = Some v"
  then obtain u where "s = int_dec u" using string2ll_accepts by blast
  with parsed show "int64 v \<and> s = int_dec v"
    by (auto simp: string2ll_int_dec split: if_splits)
qed (simp add: string2ll_int_dec)

subsection \<open>What a glob pattern means\<close>

text \<open>
  The specification reads a pattern as a sequence of tokens and says declaratively which
  strings they describe; it knows no backtracking.
\<close>

datatype class_item = CEsc byte | CRange byte byte | COne byte

datatype glob_tok = Star | AnyByte | Lit byte | Class bool "class_item list"

fun item_match :: "bool \<Rightarrow> byte \<Rightarrow> class_item \<Rightarrow> bool" where
  "item_match nocase c (CEsc b) = (b = c)"
| "item_match nocase c (CRange a b) = in_range nocase a b c"
| "item_match nocase c (COne a) = char_eq nocase a c"

fun tok_match :: "bool \<Rightarrow> glob_tok \<Rightarrow> byte \<Rightarrow> bool" where
  "tok_match nocase Star c = False"
| "tok_match nocase AnyByte c = True"
| "tok_match nocase (Lit a) c = char_eq nocase a c"
| "tok_match nocase (Class neg items) c = (list_ex (item_match nocase c) items \<noteq> neg)"

inductive glob :: "bool \<Rightarrow> glob_tok list \<Rightarrow> bytes \<Rightarrow> bool" for nocase where
  glob_Nil: "glob nocase [] []"
| glob_Star: "glob nocase ts s \<Longrightarrow> glob nocase (Star # ts) (s' @ s)"
| glob_tok: "tok_match nocase t c \<Longrightarrow> glob nocase ts s \<Longrightarrow> glob nocase (t # ts) (c # s)"

inductive_simps glob_Nil_iff [simp]: "glob nocase [] s"
inductive_simps glob_Star_iff: "glob nocase (Star # ts) s"
inductive_simps glob_Cons_iff: "glob nocase (t # ts) s"

fun parse_class :: "bytes \<Rightarrow> class_item list \<times> bytes" where
  "parse_class [] = ([], [])"
| "parse_class (x # xs) =
     (if x = c_bslash \<and> xs \<noteq> [] then apfst (Cons (CEsc (hd xs))) (parse_class (tl xs))
      else if x = c_rbrack then ([], xs)
      else case xs of
        d # y # ys \<Rightarrow>
          if d = c_minus then apfst (Cons (CRange x y)) (parse_class ys)
          else apfst (Cons (COne x)) (parse_class xs)
      | _ \<Rightarrow> apfst (Cons (COne x)) (parse_class xs))"

declare parse_class.simps(2) [simp del]

text \<open>The first token of a pattern and the pattern after it.\<close>

definition glob_step :: "bytes \<Rightarrow> glob_tok \<times> bytes" where
  "glob_step p =
     (let p0 = hd p; ps = tl p
      in if p0 = c_star then (Star, ps)
         else if p0 = c_quest then (AnyByte, ps)
         else if p0 = c_lbrack then
           (let neg = (ps \<noteq> [] \<and> hd ps = c_caret);
                (items, rest) = parse_class (if neg then tl ps else ps)
            in (Class neg items, rest))
         else if p0 = c_bslash \<and> ps \<noteq> [] then (Lit (hd ps), tl ps)
         else (Lit p0, ps))"

lemma class_loop_parse:
  "class_loop p c nocase m =
   (m \<or> list_ex (item_match nocase c) (fst (parse_class p)), snd (parse_class p))"
proof (induction p arbitrary: m rule: length_induct)
  case (1 p)
  then have IH: "class_loop q c nocase m' =
      (m' \<or> list_ex (item_match nocase c) (fst (parse_class q)), snd (parse_class q))"
    if "length q < length p" for q m'
    using that by blast
  show ?case
  proof (cases p)
    case (Cons x xs)
    then show ?thesis
      by (auto simp: class_loop.simps(2) [of x xs] parse_class.simps(2) [of x xs] IH split: list.splits)
  qed simp
qed

lemma length_parse_class: "length (snd (parse_class p)) \<le> length p"
  using length_class_loop [of p 0 False False] by (simp add: class_loop_parse)

lemma length_glob_step: "p \<noteq> [] \<Longrightarrow> length (snd (glob_step p)) < length p"
  using length_parse_class [of "tl p"] length_parse_class [of "tl (tl p)"]
  by (cases p) (auto simp: glob_step_def Let_def split: prod.splits)

function glob_parse :: "bytes \<Rightarrow> glob_tok list" where
  "glob_parse p = (if p = [] then [] else fst (glob_step p) # glob_parse (snd (glob_step p)))"
  by pat_completeness auto
termination
  by (relation "measure length") (auto simp: length_glob_step)

declare glob_parse.simps [simp del]

lemma glob_parse_Nil [simp]: "glob_parse [] = []"
  by (simp add: glob_parse.simps)

lemma glob_parse_Star [simp]: "glob_parse (c_star # ps) = Star # glob_parse ps"
  by (subst glob_parse.simps) (simp add: glob_step_def)

lemma glob_parse_step: "p \<noteq> [] \<Longrightarrow> glob_parse p = fst (glob_step p) # glob_parse (snd (glob_step p))"
  by (subst glob_parse.simps) simp

lemma match_one_step:
  assumes "p \<noteq> []" "hd p \<noteq> c_star"
  shows "match_one p c nocase =
    (if tok_match nocase (fst (glob_step p)) c then Some (snd (glob_step p)) else None)"
  using assms by (cases p) (auto simp: match_one_def glob_step_def Let_def class_loop_parse split: prod.splits)

lemma glob_step_not_Star: "hd p \<noteq> c_star \<Longrightarrow> fst (glob_step p) \<noteq> Star"
  by (auto simp: glob_step_def Let_def split: prod.splits)

lemma glob_Star_split: "glob nocase (Star # ts) s \<longleftrightarrow> (\<exists>s1 s2. s = s1 @ s2 \<and> glob nocase ts s2)"
  by (auto simp: glob_Star_iff)

lemma glob_Star_Star: "glob nocase (Star # Star # ts) s \<longleftrightarrow> glob nocase (Star # ts) s"
  unfolding glob_Star_split by (metis append.assoc append_Nil)

lemma glob_Star_Cons:
  "glob nocase (Star # ts) (c # s) \<longleftrightarrow> glob nocase ts (c # s) \<or> glob nocase (Star # ts) s"
proof
  assume "glob nocase (Star # ts) (c # s)"
  then obtain s1 s2 where "c # s = s1 @ s2" "glob nocase ts s2" by (auto simp: glob_Star_split)
  then show "glob nocase ts (c # s) \<or> glob nocase (Star # ts) s"
    by (cases s1) (auto simp: glob_Star_split)
next
  assume "glob nocase ts (c # s) \<or> glob nocase (Star # ts) s"
  then show "glob nocase (Star # ts) (c # s)"
    unfolding glob_Star_split by (metis append_Cons append_Nil)
qed

lemma glob_skip_stars:
  "glob nocase (Star # glob_parse p) s \<longleftrightarrow> glob nocase (Star # glob_parse (skip_stars p)) s"
proof (induction p)
  case (Cons x p)
  then show ?case by (cases "x = c_star") (auto simp: glob_Star_Star)
qed simp

lemma hd_skip_stars: "skip_stars p \<noteq> [] \<Longrightarrow> hd (skip_stars p) \<noteq> c_star"
  by (induction p) auto

lemma glob_nonstar:
  assumes "p \<noteq> []" "hd p \<noteq> c_star"
  shows "glob nocase (glob_parse p) s \<longleftrightarrow>
    (\<exists>c s'. s = c # s' \<and> tok_match nocase (fst (glob_step p)) c \<and>
       glob nocase (glob_parse (snd (glob_step p))) s')"
  using assms glob_step_not_Star [OF assms(2)]
  by (auto simp: glob_parse_step glob_Cons_iff)

lemma glob_empty_string: "glob nocase (glob_parse p) [] \<longleftrightarrow> skip_stars p = []"
proof (induction p)
  case (Cons x p)
  show ?case
  proof (cases "x = c_star")
    case True
    with Cons show ?thesis by (simp add: glob_Star_split)
  next
    case False
    then show ?thesis using glob_nonstar [of "x # p"] by simp
  qed
qed simp

lemma stringmatchlen_glob:
  shows "s \<noteq> [] \<Longrightarrow> stringmatchlen p s nocase \<longleftrightarrow> glob nocase (glob_parse p) s"
    and "r \<noteq> [] \<Longrightarrow> hd r \<noteq> c_star \<Longrightarrow>
      star_loop r u nc \<longleftrightarrow> glob nc (Star # glob_parse r) u"
proof (induction p s nocase and r u nc rule: stringmatchlen_star_loop.induct)
  case (1 p0 ps s0 ss nocase)
  show ?case
  proof (cases "p0 = c_star")
    case True
    show ?thesis
    proof (cases "skip_stars ps = []")
      case True
      with \<open>p0 = c_star\<close> show ?thesis
        using glob_skip_stars [of nocase ps "s0 # ss"] by (auto simp: glob_Star_split)
    next
      case False
      with \<open>p0 = c_star\<close> 1(1) show ?thesis
        using glob_skip_stars [of nocase ps "s0 # ss"] hd_skip_stars by simp
    qed
  next
    case False
    then show ?thesis
      using 1(2) match_one_step [of "p0 # ps" s0 nocase] glob_nonstar [of "p0 # ps" nocase "s0 # ss"]
      by (auto simp: glob_empty_string)
  qed
next
  case (3 r nocase)
  then show ?case using glob_nonstar [of r nocase] by (auto simp: glob_Star_split)
next
  case (4 r s0 ss nocase)
  then show ?case by (auto simp: glob_Star_Cons)
qed auto

subsection \<open>Properties\<close>

lemma ll2string_too_short:
  "dstlen \<le> length (int_dec v) \<Longrightarrow> ll2string dst dstlen v = Some (dst, 0)"
  by (auto simp: ll2string_def digits10_length int_dec_def Let_def)

text \<open>
  C22: \<open>ll2string\<close> never writes outside the destination; when the decimal representation and
  its terminator fit it writes exactly them, leaves the rest of the buffer alone and returns
  the number of digits and sign; otherwise it returns 0 and changes nothing.  The two-digit
  table loop is thereby shown equivalent to the schoolbook definition.
\<close>

theorem ll2string_correct:
  assumes "dstlen \<le> length dst"
  shows "ll2string dst dstlen v =
    (let n = length (int_dec v) in
     Some (if n < dstlen then (int_dec v @ [0] @ drop (n + 1) dst, n) else (dst, 0)))"
  using assms ll2string_writes [of v dstlen dst] ll2string_too_short [of dstlen v dst]
  by (simp add: Let_def)

theorem ll2string_correct_witness:
  "ll2string [7, 7, 7, 7, 7, 7] 6 (-105) = Some ([0x2D, 0x31, 0x30, 0x35, 0, 7], 4)"
proof -
  have "int_dec (-105) = [0x2D, 0x31, 0x30, 0x35]" by (simp add: int_dec_def nat_dec_ge)
  then show ?thesis using ll2string_correct [of 6 "[7, 7, 7, 7, 7, 7]" "-105"] by simp
qed

text \<open>
  C23: \<open>string2ll\<close> accepts a byte string exactly when it is the canonical decimal
  representation of a 64-bit signed integer (no spaces, no leading zero, no plus sign, no
  negative zero, no overflow) and then returns that integer.
\<close>

theorem string2ll_exact: "string2ll s = Some v \<longleftrightarrow> int64 v \<and> s = int_dec v"
  by (rule string2ll_canonical)

lemma length_nat_dec_le: "n < 10 ^ Suc k \<Longrightarrow> length (nat_dec n) \<le> Suc k"
proof (induction k arbitrary: n)
  case (Suc k)
  then have "n div 10 < 10 ^ Suc k" by simp
  then have "length (nat_dec (n div 10)) \<le> Suc k" by (rule Suc.IH)
  then show ?case by (cases "n < 10") (simp_all add: nat_dec_ge)
qed simp

lemma length_int_dec_le: "int64 v \<Longrightarrow> length (int_dec v) \<le> 20"
proof -
  assume v: "int64 v"
  have "nat \<bar>v\<bar> < 10 ^ Suc 18" using v by (auto simp: int64_def)
  from length_nat_dec_le [OF this] have "length (nat_dec (nat \<bar>v\<bar>)) \<le> 19" by simp
  then show ?thesis by (cases "v < 0") (simp_all add: int_dec_sign)
qed

text \<open>
  C33: the 21-byte buffers the callers use (\<open>LONG_STR_SIZE\<close>) hold every 64-bit integer, and
  reading back what \<open>ll2string\<close> printed gives the integer again.
\<close>

theorem ll2string_string2ll:
  assumes "int64 v" "21 \<le> dstlen" "dstlen \<le> length dst"
  shows "\<exists>b n. ll2string dst dstlen v = Some (b, n) \<and> 0 < n \<and> string2ll (take n b) = Some v"
proof -
  have "length (int_dec v) < dstlen" using length_int_dec_le [OF assms(1)] assms(2) by simp
  moreover have "0 < length (int_dec v)" by (simp add: int_dec_sign)
  ultimately show ?thesis
    using ll2string_writes [of v dstlen dst] assms by (simp add: string2ll_canonical)
qed

theorem ll2string_string2ll_witness:
  "\<exists>b n. ll2string (replicate 21 0) 21 (- (2 ^ 63)) = Some (b, n) \<and> 0 < n \<and>
     string2ll (take n b) = Some (- (2 ^ 63))"
  using ll2string_string2ll [of "- (2 ^ 63)" 21 "replicate 21 0"] by (simp add: int64_def)

text \<open>
  C13: glob matching of a non-empty string is exactly the declarative meaning of the pattern:
  stars match any run of bytes, question marks one byte, bracket classes one byte of the class
  (ranges, escapes and negation included), everything else itself.  The empty string is
  matched only by the empty pattern, so the pattern \<open>*\<close> alone does not match it.
\<close>

theorem stringmatchlen_correct:
  "stringmatchlen p s nocase \<longleftrightarrow> (if s = [] then p = [] else glob nocase (glob_parse p) s)"
proof (cases "s = []")
  case True
  then show ?thesis by (cases p) auto
next
  case False
  then show ?thesis using stringmatchlen_glob(1) [of s p nocase] by simp
qed

end
