(* ===== verification/Dict.thy ===== *)
theory Dict
  imports Redis_Prelude "HOL-Library.Multiset"
begin

unbundle bit_operations_syntax

text \<open>
  The hash tables of \<open>dict.c\<close>: two tables with chaining, power-of-two sizes and incremental
  rehashing.  A chain is the list of its entries, a table the list of its chains, and a
  \<open>NULL\<close> table the empty list.  Keys are compared by the type's comparison function, which
  is equality of key contents here; the hash function of the type is the parameter
  \<open>hash\<close>.  Every array access and every assertion of the code is checked:
  \<^term>\<open>None\<close> stands for an access outside of a table or a failed assertion.
\<close>

subsection \<open>State\<close>

type_synonym ('k, 'v) chain = "('k \<times> 'v) list"

record ('k, 'v) dictht =
  table :: "('k, 'v) chain list"
  size_ht :: nat
  sizemask :: u64
  used :: nat

record ('k, 'v) dict =
  ht0 :: "('k, 'v) dictht"
  ht1 :: "('k, 'v) dictht"
  rehashidx :: int
  iterators :: nat

definition DICT_HT_INITIAL_SIZE :: nat where "DICT_HT_INITIAL_SIZE = 4"

definition dict_force_resize_ratio :: nat where "dict_force_resize_ratio = 5"

abbreviation LONG_MAX :: nat where "LONG_MAX \<equiv> 2 ^ 63 - 1"

definition dictReset :: "('k, 'v) dictht" where
  "dictReset = \<lparr>table = [], size_ht = 0, sizemask = 0, used = 0\<rparr>"

definition dictCreate :: "('k, 'v) dict" where
  "dictCreate = \<lparr>ht0 = dictReset, ht1 = dictReset, rehashidx = -1, iterators = 0\<rparr>"

definition dictIsRehashing :: "('k, 'v) dict \<Rightarrow> bool" where
  "dictIsRehashing d \<longleftrightarrow> rehashidx d \<noteq> -1"

definition dictSize :: "('k, 'v) dict \<Rightarrow> nat" where
  "dictSize d = used (ht0 d) + used (ht1 d)"

definition bucket :: "('k, 'v) dictht \<Rightarrow> nat \<Rightarrow> ('k, 'v) chain option" where
  "bucket h i = (if i < length (table h) then Some (table h ! i) else None)"

definition set_bucket :: "('k, 'v) dictht \<Rightarrow> nat \<Rightarrow> ('k, 'v) chain \<Rightarrow> ('k, 'v) dictht" where
  "set_bucket h i c = h\<lparr>table := (table h)[i := c]\<rparr>"

definition hash_index :: "('k \<Rightarrow> u64) \<Rightarrow> 'k \<Rightarrow> ('k, 'v) dictht \<Rightarrow> nat" where
  "hash_index hash k h = unat (hash k AND sizemask h)"

text \<open>The table a function selects with \<open>d->ht[table]\<close>.\<close>

definition ht_of :: "('k, 'v) dict \<Rightarrow> bool \<Rightarrow> ('k, 'v) dictht" where
  "ht_of d second = (if second then ht1 d else ht0 d)"

definition set_ht_of :: "('k, 'v) dict \<Rightarrow> bool \<Rightarrow> ('k, 'v) dictht \<Rightarrow> ('k, 'v) dict" where
  "set_ht_of d second h = (if second then d\<lparr>ht1 := h\<rparr> else d\<lparr>ht0 := h\<rparr>)"

subsection \<open>Sizes\<close>

function next_power_loop :: "nat \<Rightarrow> nat \<Rightarrow> nat" where
  "next_power_loop i n = (if i \<ge> n \<or> i = 0 then i else next_power_loop (i * 2) n)"
  by pat_completeness auto
termination by (relation "measure (\<lambda>(i, n). n - i)") auto

declare next_power_loop.simps [simp del]

definition dictNextPower :: "nat \<Rightarrow> nat" where
  "dictNextPower n =
     (if n \<ge> LONG_MAX then LONG_MAX + 1 else next_power_loop DICT_HT_INITIAL_SIZE n)"

text \<open>
  A table of \<open>realsize\<close> pointers; the byte count is computed in \<open>size_t\<close> and must not wrap.
\<close>

definition dict_calloc :: "nat \<Rightarrow> ('k, 'v) chain list option" where
  "dict_calloc realsize = (if realsize * 8 < 2 ^ 64 then Some (replicate realsize []) else None)"

definition dictExpand :: "nat \<Rightarrow> ('k, 'v) dict \<Rightarrow> (('k, 'v) dict \<times> bool) option" where
  "dictExpand n d =
     (if dictIsRehashing d \<or> used (ht0 d) > n then Some (d, False)
      else let realsize = dictNextPower n
        in if realsize = size_ht (ht0 d) then Some (d, False)
           else do {
             t \<leftarrow> dict_calloc realsize;
             let nt = \<lparr>table = t, size_ht = realsize, sizemask = of_nat realsize - 1, used = 0\<rparr>;
             if table (ht0 d) = [] then Some (d\<lparr>ht0 := nt\<rparr>, True)
             else Some (d\<lparr>ht1 := nt, rehashidx := 0\<rparr>, True)
           })"

definition dictResize :: "bool \<Rightarrow> ('k, 'v) dict \<Rightarrow> (('k, 'v) dict \<times> bool) option" where
  "dictResize can_resize d =
     (if \<not> can_resize \<or> dictIsRehashing d then Some (d, False)
      else dictExpand (max (used (ht0 d)) DICT_HT_INITIAL_SIZE) d)"

definition dictExpandIfNeeded :: "bool \<Rightarrow> ('k, 'v) dict \<Rightarrow> (('k, 'v) dict \<times> bool) option" where
  "dictExpandIfNeeded can_resize d =
     (if dictIsRehashing d then Some (d, True)
      else if size_ht (ht0 d) = 0 then dictExpand DICT_HT_INITIAL_SIZE d
      else if used (ht0 d) \<ge> size_ht (ht0 d) \<and>
              (can_resize \<or> used (ht0 d) div size_ht (ht0 d) > dict_force_resize_ratio)
        then dictExpand (used (ht0 d) * 2 mod 2 ^ 64) d
      else Some (d, True))"

subsection \<open>Incremental rehashing\<close>

fun rehash_bucket :: "('k \<Rightarrow> u64) \<Rightarrow> ('k, 'v) chain \<Rightarrow> ('k, 'v) dictht \<Rightarrow> ('k, 'v) dictht \<Rightarrow>
    (('k, 'v) dictht \<times> ('k, 'v) dictht) option" where
  "rehash_bucket hash [] h0 h1 = Some (h0, h1)"
| "rehash_bucket hash (de # nextde) h0 h1 = do {
     let h = hash_index hash (fst de) h1;
     c \<leftarrow> bucket h1 h;
     rehash_bucket hash nextde (h0\<lparr>used := used h0 - 1\<rparr>)
       ((set_bucket h1 h (de # c))\<lparr>used := used h1 + 1\<rparr>)
   }"

text \<open>
  The inner loop over empty buckets: \<^term>\<open>Inl i\<close> when the budget of empty visits is used up
  with \<open>rehashidx = i\<close>, \<^term>\<open>Inr (i, e)\<close> at the first non-empty bucket \<open>i\<close> with \<open>e\<close> visits left.
\<close>

function skip_empty :: "('k, 'v) dictht \<Rightarrow> nat \<Rightarrow> int \<Rightarrow> (nat + nat \<times> int) option" where
  "skip_empty h i empty_visits =
     (case bucket h i of
        None \<Rightarrow> None
      | Some [] \<Rightarrow> if empty_visits - 1 = 0 then Some (Inl (i + 1))
                   else skip_empty h (i + 1) (empty_visits - 1)
      | Some (_ # _) \<Rightarrow> Some (Inr (i, empty_visits)))"
  by pat_completeness auto
termination
  by (relation "measure (\<lambda>(h, i, _). length (table h) - i)")
     (auto simp: bucket_def split: if_splits)

declare skip_empty.simps [simp del]

text \<open>The outer loop; \<^term>\<open>Inl\<close> is the early \<open>return 1\<close>.\<close>

fun rehash_loop :: "('k \<Rightarrow> u64) \<Rightarrow> nat \<Rightarrow> int \<Rightarrow> ('k, 'v) dict \<Rightarrow>
    (('k, 'v) dict + ('k, 'v) dict) option" where
  "rehash_loop hash 0 empty_visits d = Some (Inr d)"
| "rehash_loop hash (Suc n) empty_visits d =
     (if used (ht0 d) = 0 then Some (Inr d)
      else if \<not> int (size_ht (ht0 d)) > rehashidx d then None
      else do {
        r \<leftarrow> skip_empty (ht0 d) (nat (rehashidx d)) empty_visits;
        case r of
          Inl i \<Rightarrow> Some (Inl (d\<lparr>rehashidx := int i\<rparr>))
        | Inr (i, e) \<Rightarrow> do {
            de \<leftarrow> bucket (ht0 d) i;
            (h0, h1) \<leftarrow> rehash_bucket hash de (ht0 d) (ht1 d);
            rehash_loop hash n e
              (d\<lparr>ht0 := set_bucket h0 i [], ht1 := h1, rehashidx := int i + 1\<rparr>)
          }
      })"

definition dictRehash :: "('k \<Rightarrow> u64) \<Rightarrow> nat \<Rightarrow> ('k, 'v) dict \<Rightarrow> (('k, 'v) dict \<times> bool) option" where
  "dictRehash hash n d =
     (if \<not> dictIsRehashing d then Some (d, False)
      else do {
        r \<leftarrow> rehash_loop hash n (int n * 10) d;
        case r of
          Inl d' \<Rightarrow> Some (d', True)
        | Inr d' \<Rightarrow>
            if used (ht0 d') = 0
            then Some (d'\<lparr>ht0 := ht1 d', ht1 := dictReset, rehashidx := -1\<rparr>, False)
            else Some (d', True)
      })"

definition dictRehashStep :: "('k \<Rightarrow> u64) \<Rightarrow> ('k, 'v) dict \<Rightarrow> ('k, 'v) dict option" where
  "dictRehashStep hash d =
     (if iterators d = 0 then map_option fst (dictRehash hash 1 d) else Some d)"

text \<open>
  The timed variant; \<open>clock i\<close> is the \<open>i\<close>-th reading of the millisecond clock.
\<close>

partial_function (option) rehash_ms_loop :: "('k \<Rightarrow> u64) \<Rightarrow> (nat \<Rightarrow> int) \<Rightarrow> int \<Rightarrow> nat \<Rightarrow>
    ('k, 'v) dict \<Rightarrow> nat \<Rightarrow> (('k, 'v) dict \<times> nat) option" where
  "rehash_ms_loop hash clock ms i d rehashes = do {
     (d1, more) \<leftarrow> dictRehash hash 100 d;
     if \<not> more then Some (d1, rehashes)
     else if clock i - clock 0 > ms then Some (d1, rehashes + 100)
     else rehash_ms_loop hash clock ms (i + 1) d1 (rehashes + 100)
   }"

definition dictRehashMilliseconds :: "('k \<Rightarrow> u64) \<Rightarrow> (nat \<Rightarrow> int) \<Rightarrow> int \<Rightarrow>
    ('k, 'v) dict \<Rightarrow> (('k, 'v) dict \<times> nat) option" where
  "dictRehashMilliseconds hash clock ms d = rehash_ms_loop hash clock ms 1 d 0"

definition rehash_if_needed :: "('k \<Rightarrow> u64) \<Rightarrow> ('k, 'v) dict \<Rightarrow> ('k, 'v) dict option" where
  "rehash_if_needed hash d = (if dictIsRehashing d then dictRehashStep hash d else Some d)"


subsection \<open>Insertion and lookup\<close>

text \<open>
  A reference to an entry: the table, the bucket and the position in the chain.
\<close>

type_synonym entry_ref = "bool \<times> nat \<times> nat"

definition entry_at :: "('k, 'v) dict \<Rightarrow> entry_ref \<Rightarrow> ('k \<times> 'v) option" where
  "entry_at d r = (case r of (t, i, j) \<Rightarrow>
     do { c \<leftarrow> bucket (ht_of d t) i; if j < length c then Some (c ! j) else None })"

definition dictSetVal :: "('k, 'v) dict \<Rightarrow> entry_ref \<Rightarrow> 'v \<Rightarrow> ('k, 'v) dict option" where
  "dictSetVal d r x = (case r of (t, i, j) \<Rightarrow> do {
     c \<leftarrow> bucket (ht_of d t) i;
     if j < length c
     then Some (set_ht_of d t (set_bucket (ht_of d t) i (c[j := (fst (c ! j), x)])))
     else None
   })"

fun chain_find :: "'k \<Rightarrow> ('k, 'v) chain \<Rightarrow> nat option" where
  "chain_find k [] = None"
| "chain_find k (he # c) = (if k = fst he then Some 0 else map_option Suc (chain_find k c))"

text \<open>
  The two-table search loop shared by \<open>dictFind\<close> and \<open>_dictKeyIndex\<close>: the second table is
  searched only while a rehashing is in progress.
\<close>

definition find_ref :: "('k \<Rightarrow> u64) \<Rightarrow> 'k \<Rightarrow> ('k, 'v) dict \<Rightarrow> entry_ref option option" where
  "find_ref hash k d = do {
     let i0 = hash_index hash k (ht0 d);
     c0 \<leftarrow> bucket (ht0 d) i0;
     case chain_find k c0 of
       Some j \<Rightarrow> Some (Some (False, i0, j))
     | None \<Rightarrow>
         if \<not> dictIsRehashing d then Some None
         else do {
           let i1 = hash_index hash k (ht1 d);
           c1 \<leftarrow> bucket (ht1 d) i1;
           Some (map_option (\<lambda>j. (True, i1, j)) (chain_find k c1))
         }
   }"

datatype key_index = Index nat | KeyExists entry_ref | ExpandFailed

definition dictKeyIndex :: "bool \<Rightarrow> ('k \<Rightarrow> u64) \<Rightarrow> 'k \<Rightarrow> ('k, 'v) dict \<Rightarrow>
    (('k, 'v) dict \<times> key_index) option" where
  "dictKeyIndex can_resize hash k d = do {
     (d1, ok) \<leftarrow> dictExpandIfNeeded can_resize d;
     if \<not> ok then Some (d1, ExpandFailed)
     else do {
       r \<leftarrow> find_ref hash k d1;
       Some (d1, case r of
           Some r' \<Rightarrow> KeyExists r'
         | None \<Rightarrow> Index (hash_index hash k (ht_of d1 (dictIsRehashing d1))))
     }
   }"

text \<open>
  The value of a new entry is uninitialised memory, \<open>junk\<close>, until the caller sets it.  The
  result is the new entry, or the existing one, or neither.
\<close>

datatype add_result = Added entry_ref | Existing entry_ref | NotAdded

definition dictAddRaw :: "bool \<Rightarrow> ('k \<Rightarrow> u64) \<Rightarrow> 'v \<Rightarrow> 'k \<Rightarrow> ('k, 'v) dict \<Rightarrow>
    (('k, 'v) dict \<times> add_result) option" where
  "dictAddRaw can_resize hash junk k d = do {
     d1 \<leftarrow> rehash_if_needed hash d;
     (d2, ix) \<leftarrow> dictKeyIndex can_resize hash k d1;
     case ix of
       ExpandFailed \<Rightarrow> Some (d2, NotAdded)
     | KeyExists r \<Rightarrow> Some (d2, Existing r)
     | Index i \<Rightarrow> do {
         let t = dictIsRehashing d2;
         let h = ht_of d2 t;
         c \<leftarrow> bucket h i;
         Some (set_ht_of d2 t ((set_bucket h i ((k, junk) # c))\<lparr>used := used h + 1\<rparr>),
               Added (t, i, 0))
       }
   }"

definition dictAdd :: "bool \<Rightarrow> ('k \<Rightarrow> u64) \<Rightarrow> 'v \<Rightarrow> 'k \<Rightarrow> 'v \<Rightarrow> ('k, 'v) dict \<Rightarrow>
    (('k, 'v) dict \<times> bool) option" where
  "dictAdd can_resize hash junk k x d = do {
     (d1, r) \<leftarrow> dictAddRaw can_resize hash junk k d;
     case r of
       Added e \<Rightarrow> map_option (\<lambda>d2. (d2, True)) (dictSetVal d1 e x)
     | _ \<Rightarrow> Some (d1, False)
   }"

text \<open>
  With neither a new nor an existing entry the code would dereference \<open>NULL\<close>.
\<close>

definition dictReplace :: "bool \<Rightarrow> ('k \<Rightarrow> u64) \<Rightarrow> 'v \<Rightarrow> 'k \<Rightarrow> 'v \<Rightarrow> ('k, 'v) dict \<Rightarrow>
    (('k, 'v) dict \<times> bool) option" where
  "dictReplace can_resize hash junk k x d = do {
     (d1, r) \<leftarrow> dictAddRaw can_resize hash junk k d;
     case r of
       Added e \<Rightarrow> map_option (\<lambda>d2. (d2, True)) (dictSetVal d1 e x)
     | Existing e \<Rightarrow> map_option (\<lambda>d2. (d2, False)) (dictSetVal d1 e x)
     | NotAdded \<Rightarrow> None
   }"

definition dictAddOrFind :: "bool \<Rightarrow> ('k \<Rightarrow> u64) \<Rightarrow> 'v \<Rightarrow> 'k \<Rightarrow> ('k, 'v) dict \<Rightarrow>
    (('k, 'v) dict \<times> entry_ref option) option" where
  "dictAddOrFind can_resize hash junk k d = do {
     (d1, r) \<leftarrow> dictAddRaw can_resize hash junk k d;
     Some (d1, case r of Added e \<Rightarrow> Some e | Existing e \<Rightarrow> Some e | NotAdded \<Rightarrow> None)
   }"

definition dictFind :: "('k \<Rightarrow> u64) \<Rightarrow> 'k \<Rightarrow> ('k, 'v) dict \<Rightarrow>
    (('k, 'v) dict \<times> entry_ref option) option" where
  "dictFind hash k d =
     (if used (ht0 d) + used (ht1 d) = 0 then Some (d, None)
      else do {
        d1 \<leftarrow> rehash_if_needed hash d;
        r \<leftarrow> find_ref hash k d1;
        Some (d1, r)
      })"

definition dictFetchValue :: "('k \<Rightarrow> u64) \<Rightarrow> 'k \<Rightarrow> ('k, 'v) dict \<Rightarrow>
    (('k, 'v) dict \<times> 'v option) option" where
  "dictFetchValue hash k d = do {
     (d1, r) \<leftarrow> dictFind hash k d;
     case r of
       None \<Rightarrow> Some (d1, None)
     | Some e \<Rightarrow> do { (_, x) \<leftarrow> entry_at d1 e; Some (d1, Some x) }
   }"

subsection \<open>Removal\<close>

fun chain_unlink :: "'k \<Rightarrow> ('k, 'v) chain \<Rightarrow> (('k \<times> 'v) \<times> ('k, 'v) chain) option" where
  "chain_unlink k [] = None"
| "chain_unlink k (he # c) =
     (if k = fst he then Some (he, c)
      else map_option (\<lambda>(e, c'). (e, he # c')) (chain_unlink k c))"

definition unlink_from :: "('k \<Rightarrow> u64) \<Rightarrow> 'k \<Rightarrow> ('k, 'v) dictht \<Rightarrow>
    (('k \<times> 'v) \<times> ('k, 'v) dictht) option option" where
  "unlink_from hash k h = do {
     let i = hash_index hash k h;
     c \<leftarrow> bucket h i;
     Some (map_option (\<lambda>(e, c'). (e, (set_bucket h i c')\<lparr>used := used h - 1\<rparr>)) (chain_unlink k c))
   }"

definition dictGenericDelete :: "('k \<Rightarrow> u64) \<Rightarrow> 'k \<Rightarrow> ('k, 'v) dict \<Rightarrow>
    (('k, 'v) dict \<times> ('k \<times> 'v) option) option" where
  "dictGenericDelete hash k d =
     (if used (ht0 d) = 0 \<and> used (ht1 d) = 0 then Some (d, None)
      else do {
        d1 \<leftarrow> rehash_if_needed hash d;
        r0 \<leftarrow> unlink_from hash k (ht0 d1);
        case r0 of
          Some (e, h) \<Rightarrow> Some (d1\<lparr>ht0 := h\<rparr>, Some e)
        | None \<Rightarrow>
            if \<not> dictIsRehashing d1 then Some (d1, None)
            else do {
              r1 \<leftarrow> unlink_from hash k (ht1 d1);
              case r1 of
                Some (e, h) \<Rightarrow> Some (d1\<lparr>ht1 := h\<rparr>, Some e)
              | None \<Rightarrow> Some (d1, None)
            }
      })"

definition dictDelete :: "('k \<Rightarrow> u64) \<Rightarrow> 'k \<Rightarrow> ('k, 'v) dict \<Rightarrow> (('k, 'v) dict \<times> bool) option" where
  "dictDelete hash k d = map_option (\<lambda>(d', e). (d', e \<noteq> None)) (dictGenericDelete hash k d)"

definition dictUnlink :: "('k \<Rightarrow> u64) \<Rightarrow> 'k \<Rightarrow> ('k, 'v) dict \<Rightarrow>
    (('k, 'v) dict \<times> ('k \<times> 'v) option) option" where
  "dictUnlink hash k d = dictGenericDelete hash k d"

text \<open>
  \<open>_dictClear\<close> frees the entries it walks over, returned here in order, and resets the table;
  the walk stops early once \<open>used\<close> reaches zero.
\<close>

fun clear_loop :: "('k, 'v) chain list \<Rightarrow> nat \<Rightarrow> ('k \<times> 'v) list" where
  "clear_loop [] u = []"
| "clear_loop (c # t) u = (if u > 0 then c @ clear_loop t (u - length c) else [])"

definition dictClear :: "('k, 'v) dictht \<Rightarrow> ('k, 'v) dictht \<times> ('k \<times> 'v) list" where
  "dictClear h = (dictReset, clear_loop (table h) (used h))"

definition dictEmpty :: "('k, 'v) dict \<Rightarrow> ('k, 'v) dict \<times> ('k \<times> 'v) list" where
  "dictEmpty d =
     (let (h0, f0) = dictClear (ht0 d); (h1, f1) = dictClear (ht1 d)
      in (d\<lparr>ht0 := h0, ht1 := h1, rehashidx := -1, iterators := 0\<rparr>, f0 @ f1))"

subsection \<open>Invariant and abstraction\<close>

definition ht_shape :: "('k, 'v) dictht \<Rightarrow> bool" where
  "ht_shape h \<longleftrightarrow> length (table h) = size_ht h \<and>
     (size_ht h = 0 \<and> sizemask h = 0 \<or>
      (\<exists>e \<le> 60. size_ht h = 2 ^ e \<and> sizemask h = mask e))"

definition ht_ok :: "('k \<Rightarrow> u64) \<Rightarrow> ('k, 'v) dictht \<Rightarrow> bool" where
  "ht_ok hash h \<longleftrightarrow> ht_shape h \<and> used h = length (concat (table h)) \<and>
     (\<forall>i < length (table h). \<forall>e \<in> set (table h ! i). hash_index hash (fst e) h = i)"

definition dict_entries :: "('k, 'v) dict \<Rightarrow> ('k \<times> 'v) list" where
  "dict_entries d = concat (table (ht0 d)) @ concat (table (ht1 d))"

definition rehash_inv :: "('k \<Rightarrow> u64) \<Rightarrow> ('k, 'v) dict \<Rightarrow> bool" where
  "rehash_inv hash d \<longleftrightarrow> ht_ok hash (ht0 d) \<and> ht_ok hash (ht1 d) \<and>
     distinct (map fst (dict_entries d)) \<and> table (ht1 d) \<noteq> [] \<and> 0 \<le> rehashidx d \<and>
     (\<forall>i < length (table (ht0 d)). int i < rehashidx d \<longrightarrow> table (ht0 d) ! i = [])"

definition dict_invar :: "('k \<Rightarrow> u64) \<Rightarrow> ('k, 'v) dict \<Rightarrow> bool" where
  "dict_invar hash d \<longleftrightarrow>
     (if dictIsRehashing d then rehash_inv hash d \<and> rehashidx d < int (size_ht (ht0 d))
      else ht_ok hash (ht0 d) \<and> distinct (map fst (dict_entries d)) \<and> ht1 d = dictReset)"

definition dict_map :: "('k, 'v) dict \<Rightarrow> 'k \<rightharpoonup> 'v" where
  "dict_map d = map_of (dict_entries d)"

lemma mset_concat_update:
  "i < length t \<Longrightarrow> mset (concat (t[i := c])) + mset (t ! i) = mset (concat t) + mset c"
  by (induction t arbitrary: i) (auto simp: nth_Cons' split: nat.split)

lemma length_concat_update:
  "i < length t \<Longrightarrow> length (concat (t[i := c])) + length (t ! i) = length (concat t) + length c"
  using mset_concat_update [of i t c] by (metis size_mset size_union)

lemma map_of_mset_eq:
  assumes "mset xs = mset ys" "distinct (map fst xs)"
  shows "map_of xs = map_of ys"
proof -
  have "mset (map fst xs) = mset (map fst ys)" using assms(1) by (simp add: mset_map)
  then have "distinct (map fst ys)" using assms(2) mset_eq_imp_distinct_iff by blast
  then show ?thesis
    using assms map_of_inject_set [of xs ys] mset_eq_setD [OF assms(1)] by simp
qed

lemma distinct_keys_mset:
  "mset xs = mset ys \<Longrightarrow> distinct (map fst xs) \<longleftrightarrow> distinct (map fst ys)"
  by (metis mset_eq_imp_distinct_iff mset_map)

lemma ht_okD:
  assumes "ht_ok hash h"
  shows "ht_shape h" "used h = length (concat (table h))" "length (table h) = size_ht h"
    "\<And>i e. i < length (table h) \<Longrightarrow> e \<in> set (table h ! i) \<Longrightarrow> hash_index hash (fst e) h = i"
  using assms by (auto simp: ht_ok_def ht_shape_def)

lemma hash_index_less:
  assumes "ht_shape h" "table h \<noteq> []"
  shows "hash_index hash k h < length (table h)"
proof -
  from assms obtain e where e: "e \<le> 60" "size_ht h = 2 ^ e" "sizemask h = mask e" "length (table h) = size_ht h"
    by (auto simp: ht_shape_def)
  have "unat (hash k AND mask e) < 2 ^ e"
    by (simp add: unsigned_take_bit_eq take_bit_nat_less_exp flip: take_bit_eq_mask)
  then show ?thesis using e by (simp add: hash_index_def)
qed

lemma set_bucket_simps [simp]:
  "table (set_bucket h i c) = (table h)[i := c]" "size_ht (set_bucket h i c) = size_ht h"
  "sizemask (set_bucket h i c) = sizemask h" "used (set_bucket h i c) = used h"
  by (simp_all add: set_bucket_def)

lemma hash_index_cong [simp]:
  "hash_index hash k (set_bucket h i c) = hash_index hash k h"
  "hash_index hash k (h\<lparr>used := u\<rparr>) = hash_index hash k h"
  by (simp_all add: hash_index_def)

lemma ht_ok_set_bucket:
  assumes "ht_ok hash h" "i < length (table h)" "\<And>e. e \<in> set c \<Longrightarrow> hash_index hash (fst e) h = i"
    and "u + length (table h ! i) = used h + length c"
  shows "ht_ok hash ((set_bucket h i c)\<lparr>used := u\<rparr>)"
  using assms length_concat_update [of i "table h" c]
  by (auto simp: ht_ok_def ht_shape_def nth_list_update)

lemma ht_ok_reset [simp]: "ht_ok hash dictReset"
  by (simp add: ht_ok_def ht_shape_def dictReset_def)

lemma bucket_Some: "i < length (table h) \<Longrightarrow> bucket h i = Some (table h ! i)"
  by (simp add: bucket_def)

lemma rehash_bucket_ok:
  assumes "ht_ok hash h1" "table h1 \<noteq> []"
  shows "\<exists>h1'. rehash_bucket hash c h0 h1 = Some (h0\<lparr>used := used h0 - length c\<rparr>, h1') \<and>
    ht_ok hash h1' \<and> table h1' \<noteq> [] \<and> size_ht h1' = size_ht h1 \<and>
    mset (concat (table h1')) = mset (concat (table h1)) + mset c"
  using assms
proof (induction c arbitrary: h0 h1)
  case (Cons de c)
  define i where "i = hash_index hash (fst de) h1"
  have i: "i < length (table h1)"
    using hash_index_less [OF ht_okD(1)] Cons.prems by (simp add: i_def)
  define h2 where "h2 = (set_bucket h1 i (de # table h1 ! i))\<lparr>used := used h1 + 1\<rparr>"
  have "ht_ok hash h2"
    unfolding h2_def using Cons.prems i
    by (intro ht_ok_set_bucket) (auto simp: i_def dest: ht_okD(4))
  moreover have "table h2 \<noteq> []" using Cons.prems by (simp add: h2_def)
  ultimately obtain h1' where
    "rehash_bucket hash c (h0\<lparr>used := used h0 - 1\<rparr>) h2 =
       Some (h0\<lparr>used := used h0 - 1 - length c\<rparr>, h1')"
    "ht_ok hash h1'" "table h1' \<noteq> []" "size_ht h1' = size_ht h2"
    "mset (concat (table h1')) = mset (concat (table h2)) + mset c"
    using Cons.IH [of h2 "h0\<lparr>used := used h0 - 1\<rparr>"] by auto
  moreover have "mset (concat (table h2)) = mset (concat (table h1)) + {#de#}"
    using mset_concat_update [OF i, of "de # table h1 ! i"] by (simp add: h2_def)
  ultimately show ?case
    using i by (auto simp: bucket_Some Let_def simp flip: i_def) (simp add: h2_def)
qed simp

lemma skip_empty_ok:
  assumes "i \<le> j" "j < length (table h)" "table h ! j \<noteq> []"
  shows "(\<exists>i'. skip_empty h i ev = Some (Inl i') \<and> i < i' \<and> i' < length (table h) \<and>
            (\<forall>k \<in> {i..<i'}. table h ! k = [])) \<or>
         (\<exists>i' e. skip_empty h i ev = Some (Inr (i', e)) \<and> i \<le> i' \<and> i' < length (table h) \<and>
            table h ! i' \<noteq> [] \<and> (\<forall>k \<in> {i..<i'}. table h ! k = []))"
  using assms
proof (induction h i ev rule: skip_empty.induct)
  case (1 h i ev)
  have i: "bucket h i = Some (table h ! i)" using "1.prems" by (simp add: bucket_Some)
  show ?case
  proof (cases "table h ! i")
    case (Cons a c)
    then show ?thesis
      using i "1.prems" by (intro disjI2 exI [of _ i] exI [of _ ev]) (auto simp: skip_empty.simps [of h i])
  next
    case Nil
    with "1.prems" have ij: "Suc i \<le> j" using le_eq_less_or_eq by auto
    show ?thesis
    proof (cases "ev - 1 = 0")
      case True
      with i Nil ij "1.prems" show ?thesis
        by (intro disjI1 exI [of _ "Suc i"]) (auto simp: skip_empty.simps [of h i] less_Suc_eq_le)
    next
      case False
      have eq: "skip_empty h i ev = skip_empty h (i + 1) (ev - 1)"
        using i Nil False by (simp add: skip_empty.simps [of h i])
      have "{i..<i'} = insert i {i + 1..<i'}" if "i < i'" for i' using that by auto
      then show ?thesis
        using "1.IH" [OF i Nil False] ij "1.prems"(2,3) Nil unfolding eq by auto
    qed
  qed
qed

lemma nonempty_bucket:
  assumes "rehash_inv hash d" "used (ht0 d) \<noteq> 0"
  obtains j where "nat (rehashidx d) \<le> j" "j < length (table (ht0 d))" "table (ht0 d) ! j \<noteq> []"
proof -
  have "concat (table (ht0 d)) \<noteq> []"
    using assms by (auto simp: rehash_inv_def dest: ht_okD(2))
  then obtain c where "c \<in> set (table (ht0 d))" "c \<noteq> []" by auto
  then obtain j where j: "j < length (table (ht0 d))" "table (ht0 d) ! j \<noteq> []"
    by (auto simp: in_set_conv_nth)
  with assms(1) have "nat (rehashidx d) \<le> j" unfolding rehash_inv_def by force
  with j that show ?thesis by blast
qed

definition same_entries :: "('k, 'v) dict \<Rightarrow> ('k, 'v) dict \<Rightarrow> bool" where
  "same_entries d d' \<longleftrightarrow> mset (dict_entries d') = mset (dict_entries d) \<and> iterators d' = iterators d"

lemma same_entries_refl [simp]: "same_entries d d"
  by (simp add: same_entries_def)

lemma same_entries_trans: "same_entries d d' \<Longrightarrow> same_entries d' d'' \<Longrightarrow> same_entries d d''"
  by (simp add: same_entries_def)

text \<open>Moving one bucket, the body of the outer loop.\<close>

lemma rehash_move:
  assumes inv: "rehash_inv hash d" and ridx: "rehashidx d \<le> int i"
    and i: "i < length (table (ht0 d))"
    and empty: "\<And>k. rehashidx d \<le> int k \<Longrightarrow> k < i \<Longrightarrow> table (ht0 d) ! k = []"
  shows "\<exists>h0 h1. rehash_bucket hash (table (ht0 d) ! i) (ht0 d) (ht1 d) = Some (h0, h1) \<and>
    rehash_inv hash (d\<lparr>ht0 := set_bucket h0 i [], ht1 := h1, rehashidx := int i + 1\<rparr>) \<and>
    same_entries d (d\<lparr>ht0 := set_bucket h0 i [], ht1 := h1, rehashidx := int i + 1\<rparr>) \<and>
    size_ht h0 = size_ht (ht0 d) \<and> size_ht h1 = size_ht (ht1 d)"
proof -
  define c where "c = table (ht0 d) ! i"
  from inv have ok: "ht_ok hash (ht0 d)" "ht_ok hash (ht1 d)" "table (ht1 d) \<noteq> []"
    by (auto simp: rehash_inv_def)
  obtain h1 where h1: "rehash_bucket hash c (ht0 d) (ht1 d) =
       Some ((ht0 d)\<lparr>used := used (ht0 d) - length c\<rparr>, h1)" "ht_ok hash h1" "table h1 \<noteq> []"
    "size_ht h1 = size_ht (ht1 d)"
    "mset (concat (table h1)) = mset (concat (table (ht1 d))) + mset c"
    using rehash_bucket_ok [OF ok(2,3)] by blast
  define h0 where "h0 = (ht0 d)\<lparr>used := used (ht0 d) - length c\<rparr>"
  define d' where "d' = d\<lparr>ht0 := set_bucket h0 i [], ht1 := h1, rehashidx := int i + 1\<rparr>"
  have swap: "set_bucket h0 i [] = (set_bucket (ht0 d) i [])\<lparr>used := used (ht0 d) - length c\<rparr>"
    by (simp add: h0_def set_bucket_def)
  have le: "length c \<le> used (ht0 d)"
    using length_concat_update [OF i, of "[]"] ht_okD(2) [OF ok(1)] by (simp add: c_def)
  have ok0: "ht_ok hash (set_bucket h0 i [])"
    unfolding swap using le i ok(1) by (intro ht_ok_set_bucket) (auto simp: c_def)
  have same: "same_entries d d'"
    using mset_concat_update [OF i, of "[]"] h1(5)
    by (simp add: same_entries_def d'_def dict_entries_def h0_def c_def)
  moreover have "table (ht0 d) ! k = []" if "k < length (table (ht0 d))" "k < i" for k
    using inv empty [of k] that by (cases "int k < rehashidx d") (auto simp: rehash_inv_def)
  then have "rehash_inv hash d'"
    using ok0 h1 inv i distinct_keys_mset [of "dict_entries d'" "dict_entries d"] same
    by (auto simp: rehash_inv_def d'_def h0_def same_entries_def nth_list_update)
  ultimately show ?thesis using h1 by (auto simp: d'_def h0_def c_def)
qed

lemma rehash_loop_ok:
  assumes "rehash_inv hash d"
  shows "\<exists>d'. (rehash_loop hash n ev d = Some (Inl d') \<and> used (ht0 d') \<noteq> 0 \<or>
      rehash_loop hash n ev d = Some (Inr d')) \<and>
    rehash_inv hash d' \<and> same_entries d d' \<and>
    size_ht (ht0 d') = size_ht (ht0 d) \<and> size_ht (ht1 d') = size_ht (ht1 d) \<and>
    rehashidx d \<le> rehashidx d' \<and> (n \<noteq> 0 \<and> used (ht0 d) \<noteq> 0 \<longrightarrow> rehashidx d < rehashidx d')"
  using assms
proof (induction n arbitrary: ev d)
  case (Suc n)
  show ?case
  proof (cases "used (ht0 d) = 0")
    case False
    from nonempty_bucket [OF Suc.prems False] obtain j where
      j: "nat (rehashidx d) \<le> j" "j < length (table (ht0 d))" "table (ht0 d) ! j \<noteq> []" .
    from Suc.prems have r: "0 \<le> rehashidx d" "length (table (ht0 d)) = size_ht (ht0 d)"
      by (auto simp: rehash_inv_def dest: ht_okD(3))
    have bound: "rehashidx d < int (size_ht (ht0 d))" using j r by linarith
    from skip_empty_ok [OF j, of ev] show ?thesis
    proof (elim disjE exE conjE)
      fix i assume s: "skip_empty (ht0 d) (nat (rehashidx d)) ev = Some (Inl i)"
        "nat (rehashidx d) < i" "\<forall>k\<in>{nat (rehashidx d)..<i}. table (ht0 d) ! k = []"
      have "rehash_inv hash (d\<lparr>rehashidx := int i\<rparr>)"
        using Suc.prems s(2,3) by (auto simp: rehash_inv_def dict_entries_def)
      then show ?thesis
        using s r bound False by (auto simp: same_entries_def dict_entries_def)
    next
      fix i e assume s: "skip_empty (ht0 d) (nat (rehashidx d)) ev = Some (Inr (i, e))"
        "nat (rehashidx d) \<le> i" "i < length (table (ht0 d))"
        "\<forall>k\<in>{nat (rehashidx d)..<i}. table (ht0 d) ! k = []"
      obtain h0 h1 where m:
        "rehash_bucket hash (table (ht0 d) ! i) (ht0 d) (ht1 d) = Some (h0, h1)"
        "rehash_inv hash (d\<lparr>ht0 := set_bucket h0 i [], ht1 := h1, rehashidx := int i + 1\<rparr>)"
        "same_entries d (d\<lparr>ht0 := set_bucket h0 i [], ht1 := h1, rehashidx := int i + 1\<rparr>)"
        "size_ht h0 = size_ht (ht0 d)" "size_ht h1 = size_ht (ht1 d)"
        using rehash_move [OF Suc.prems, of i] s r by force
      show ?thesis
        using Suc.IH [OF m(2), of e] m s r bound False
        by (auto simp: bucket_Some dest: same_entries_trans [OF m(3)])
    qed
  qed (auto simp: Suc.prems)
qed auto

lemma dictRehash_ok:
  assumes "dict_invar hash d"
  shows "\<exists>d' more. dictRehash hash n d = Some (d', more) \<and> dict_invar hash d' \<and>
    same_entries d d' \<and> more = dictIsRehashing d' \<and>
    (if dictIsRehashing d'
     then dictIsRehashing d \<and> size_ht (ht0 d') = size_ht (ht0 d) \<and> size_ht (ht1 d') = size_ht (ht1 d) \<and>
       rehashidx d \<le> rehashidx d' \<and> (n \<noteq> 0 \<longrightarrow> rehashidx d < rehashidx d')
     else if dictIsRehashing d then size_ht (ht0 d') = size_ht (ht1 d) else d' = d)"
proof (cases "dictIsRehashing d")
  case True
  with assms have inv: "rehash_inv hash d" by (simp add: dict_invar_def)
  from rehash_loop_ok [OF inv, of n "int n * 10"] obtain d' where
    d': "rehash_loop hash n (int n * 10) d = Some (Inl d') \<and> used (ht0 d') \<noteq> 0 \<or>
      rehash_loop hash n (int n * 10) d = Some (Inr d')"
    "rehash_inv hash d'" "same_entries d d'"
    "size_ht (ht0 d') = size_ht (ht0 d)" "size_ht (ht1 d') = size_ht (ht1 d)"
    "rehashidx d \<le> rehashidx d'" "n \<noteq> 0 \<and> used (ht0 d) \<noteq> 0 \<longrightarrow> rehashidx d < rehashidx d'"
    by auto
  have nr: "0 \<le> rehashidx d'" using d'(2) by (simp add: rehash_inv_def)
  show ?thesis
  proof (cases "used (ht0 d') = 0")
    case False
    obtain j where "nat (rehashidx d') \<le> j" "j < length (table (ht0 d'))"
      using nonempty_bucket [OF d'(2) False] .
    then have b: "rehashidx d' < int (size_ht (ht0 d'))"
      using d'(2) by (auto simp: rehash_inv_def dest!: ht_okD(3))
    have "used (ht0 d) = 0 \<longrightarrow> rehash_loop hash n (int n * 10) d = Some (Inr d)"
      by (cases n) simp_all
    with False d'(1) have "used (ht0 d) \<noteq> 0" by auto
    moreover have "dictRehash hash n d = Some (d', True)"
      using d'(1) False True by (auto simp: dictRehash_def)
    ultimately show ?thesis
      using d' nr b True by (auto simp: dict_invar_def dictIsRehashing_def)
  next
    case z: True
    then have "concat (table (ht0 d')) = []"
      using d'(2) by (auto simp: rehash_inv_def dest: ht_okD(2))
    then have "dict_entries (d'\<lparr>ht0 := ht1 d', ht1 := dictReset, rehashidx := -1\<rparr>) = dict_entries d'"
      by (simp add: dict_entries_def dictReset_def)
    moreover have "dictRehash hash n d =
        Some (d'\<lparr>ht0 := ht1 d', ht1 := dictReset, rehashidx := -1\<rparr>, False)"
      using d'(1) z True by (auto simp: dictRehash_def)
    ultimately show ?thesis
      using d' True by (auto simp: dict_invar_def dictIsRehashing_def same_entries_def rehash_inv_def)
  qed
qed (use assms in \<open>simp add: dictRehash_def\<close>)

lemma rehash_if_needed_ok:
  assumes "dict_invar hash d"
  shows "\<exists>d'. rehash_if_needed hash d = Some d' \<and> dict_invar hash d' \<and> same_entries d d'"
  using dictRehash_ok [OF assms, of 1] assms
  by (auto simp: rehash_if_needed_def dictRehashStep_def)

subsection \<open>Resizing\<close>

lemma next_power_loop_ok:
  assumes "a \<le> b" "n \<le> 2 ^ b" "a = b \<or> 2 ^ (b - 1) < n"
  shows "next_power_loop (2 ^ a) n = 2 ^ b"
  using assms
proof (induction "b - a" arbitrary: a)
  case 0
  then show ?case by (simp add: next_power_loop.simps)
next
  case (Suc m)
  then have "a \<le> b - 1" "a \<noteq> b" by auto
  then have "(2::nat) ^ a \<le> 2 ^ (b - 1)" by (intro power_increasing) auto
  with Suc have "(2::nat) ^ a < n" by linarith
  moreover have "next_power_loop (2 ^ Suc a) n = 2 ^ b"
    using Suc \<open>a \<le> b - 1\<close> \<open>a \<noteq> b\<close> by (intro Suc.hyps(1)) auto
  ultimately show ?case by (simp add: next_power_loop.simps [of "2 ^ a"] mult.commute)
qed

lemma dictNextPower_eq:
  assumes "2 \<le> b" "n \<le> 2 ^ b" "b = 2 \<or> 2 ^ (b - 1) < n" "n < 2 ^ 62"
  shows "dictNextPower n = 2 ^ b"
  using assms next_power_loop_ok [of 2 b n]
  by (simp add: dictNextPower_def DICT_HT_INITIAL_SIZE_def)

lemma least_power_exists:
  fixes n :: nat
  assumes "n \<le> 2 ^ 60"
  shows "\<exists>b. 2 \<le> b \<and> b \<le> 60 \<and> n \<le> 2 ^ b \<and> (b = 2 \<or> 2 ^ (b - 1) < n)"
proof -
  define b where "b = (LEAST b. 2 \<le> b \<and> n \<le> 2 ^ b)"
  have ex: "(2::nat) \<le> 60 \<and> n \<le> 2 ^ 60" using assms by simp
  from LeastI [of "\<lambda>b. 2 \<le> b \<and> n \<le> 2 ^ b", OF ex]
  have b: "2 \<le> b" "n \<le> 2 ^ b" by (simp_all add: b_def)
  moreover have "b \<le> 60" unfolding b_def by (rule Least_le) (rule ex)
  moreover have "2 ^ (b - 1) < n" if "b \<noteq> 2"
  proof (rule ccontr)
    assume "\<not> ?thesis"
    then have "2 \<le> b - 1 \<and> n \<le> 2 ^ (b - 1)" using that b by auto
    then have "b \<le> b - 1" unfolding b_def by (rule Least_le)
    with b show False by simp
  qed
  ultimately show ?thesis by auto
qed

lemma dictNextPower_bounds:
  assumes "n \<le> 2 ^ 60"
  shows "\<exists>b. 2 \<le> b \<and> b \<le> 60 \<and> dictNextPower n = 2 ^ b \<and> n \<le> 2 ^ b"
proof -
  from least_power_exists [OF assms] obtain b where
    "2 \<le> b" "b \<le> 60" "n \<le> 2 ^ b" "b = 2 \<or> 2 ^ (b - 1) < n" by auto
  moreover from this have "dictNextPower n = 2 ^ b"
    using assms by (intro dictNextPower_eq) auto
  ultimately show ?thesis by auto
qed

lemma table_Nil_iff: "ht_ok hash h \<Longrightarrow> table h = [] \<longleftrightarrow> size_ht h = 0"
  using ht_okD(3) by fastforce

lemma concat_replicate_Nil [simp]: "concat (replicate n []) = []"
  by (induction n) auto

lemma dictExpand_ok:
  fixes d :: "('k, 'v) dict"
  assumes "dict_invar hash d" "n \<le> 2 ^ 60"
  shows "\<exists>d' ok. dictExpand n d = Some (d', ok) \<and> dict_invar hash d' \<and> same_entries d d' \<and>
    ok = (\<not> dictIsRehashing d \<and> used (ht0 d) \<le> n \<and> dictNextPower n \<noteq> size_ht (ht0 d)) \<and>
    (ok \<longrightarrow> size_ht (if table (ht0 d) = [] then ht0 d' else ht1 d') = dictNextPower n) \<and>
    (ok \<or> table (ht0 d) \<noteq> [] \<longrightarrow> table (ht0 d') \<noteq> [])"
proof -
  from dictNextPower_bounds [OF assms(2)] obtain b where
    b: "2 \<le> b" "b \<le> 60" "dictNextPower n = 2 ^ b" by auto
  have "(2::nat) ^ b \<le> 2 ^ 60" using b by (intro power_increasing) auto
  then have alloc: "dict_calloc (2 ^ b) = Some (replicate (2 ^ b) [] :: ('k, 'v) chain list)"
    by (simp add: dict_calloc_def)
  define nt :: "('k, 'v) dictht" where
    "nt = \<lparr>table = replicate (2 ^ b) [], size_ht = 2 ^ b, sizemask = 2 ^ b - 1, used = 0\<rparr>"
  have nt: "ht_ok hash nt" "table nt \<noteq> []" "concat (table nt) = []" "size_ht nt = 2 ^ b"
    using b by (auto simp: nt_def ht_ok_def ht_shape_def mask_eq_exp_minus_1)
  show ?thesis
  proof (cases "dictIsRehashing d \<or> used (ht0 d) > n \<or> dictNextPower n = size_ht (ht0 d)")
    case True
    then show ?thesis using assms by (auto simp: dictExpand_def Let_def)
  next
    case False
    then have inv: "ht_ok hash (ht0 d)" "distinct (map fst (dict_entries d))" "ht1 d = dictReset"
      using assms(1) by (auto simp: dict_invar_def)
    have na: "\<not> dictIsRehashing d" "rehashidx d = -1" "used (ht0 d) \<le> n" "dictNextPower n \<noteq> size_ht (ht0 d)"
      using False by (auto simp: dictIsRehashing_def)
    show ?thesis
    proof (cases "table (ht0 d) = []")
      case True
      then have "dictExpand n d = Some (d\<lparr>ht0 := nt\<rparr>, True)"
        using na b alloc by (simp add: dictExpand_def nt_def Let_def)
      then show ?thesis
        using na inv nt b True
        by (intro exI [of _ "d\<lparr>ht0 := nt\<rparr>"] exI [of _ True])
           (simp add: dict_invar_def dictIsRehashing_def dict_entries_def same_entries_def dictReset_def
            del: concat_eq_Nil_conv)
    next
      case False
      then have "dictExpand n d = Some (d\<lparr>ht1 := nt, rehashidx := 0\<rparr>, True)"
        using na b alloc by (simp add: dictExpand_def nt_def Let_def)
      moreover have "0 < size_ht (ht0 d)" using False table_Nil_iff [OF inv(1)] by simp
      ultimately show ?thesis
        using na inv nt b False
        by (intro exI [of _ "d\<lparr>ht1 := nt, rehashidx := 0\<rparr>"] exI [of _ True])
           (simp add: dict_invar_def rehash_inv_def dictIsRehashing_def dict_entries_def
            same_entries_def dictReset_def del: concat_eq_Nil_conv)
    qed
  qed
qed

text \<open>
  The number of entries up to which the size computations do not overflow.
\<close>

definition dict_room :: "('k, 'v) dict \<Rightarrow> bool" where
  "dict_room d \<longleftrightarrow> length (dict_entries d) < 2 ^ 59"

lemma dictSize_entries: "dict_invar hash d \<Longrightarrow> dictSize d = length (dict_entries d)"
  by (auto simp: dictSize_def dict_invar_def rehash_inv_def dict_entries_def dictReset_def
      split: if_splits dest!: ht_okD(2))

lemma dictExpandIfNeeded_ok:
  assumes "dict_invar hash d" "dict_room d"
  shows "\<exists>d'. dictExpandIfNeeded can_resize d = Some (d', True) \<and> dict_invar hash d' \<and>
    same_entries d d' \<and> table (ht0 d') \<noteq> []"
proof -
  have u: "used (ht0 d) < 2 ^ 59"
    using dictSize_entries [OF assms(1)] assms(2) by (simp add: dictSize_def dict_room_def)
  consider (rehashing) "dictIsRehashing d" | (new) "\<not> dictIsRehashing d" "size_ht (ht0 d) = 0"
    | (old) "\<not> dictIsRehashing d" "size_ht (ht0 d) \<noteq> 0" by blast
  then show ?thesis
  proof cases
    case rehashing
    then show ?thesis
      using assms by (auto simp: dictExpandIfNeeded_def dict_invar_def rehash_inv_def dest: ht_okD(3))
  next
    case new
    then have "table (ht0 d) = []"
      using assms(1) table_Nil_iff by (auto simp: dict_invar_def)
    with new have "used (ht0 d) = 0"
      using assms(1) by (auto simp: dict_invar_def dest: ht_okD(2))
    moreover have "dictNextPower 4 = 4"
      using dictNextPower_eq [of 2 4] by simp
    ultimately show ?thesis
      using dictExpand_ok [OF assms(1), of 4] new
      by (auto simp: dictExpandIfNeeded_def DICT_HT_INITIAL_SIZE_def)
  next
    case old
    then have ne: "table (ht0 d) \<noteq> []"
      using assms(1) table_Nil_iff [of hash "ht0 d"] by (auto simp: dict_invar_def)
    have "2 * used (ht0 d) \<le> 2 ^ 60" using u by simp
    from dictNextPower_bounds [OF this] u
    have n: "2 * used (ht0 d) \<le> dictNextPower (2 * used (ht0 d))" by auto
    have m: "used (ht0 d) * 2 mod 2 ^ 64 = 2 * used (ht0 d)" using u by simp
    show ?thesis
    proof (cases "used (ht0 d) \<ge> size_ht (ht0 d) \<and>
        (can_resize \<or> used (ht0 d) div size_ht (ht0 d) > dict_force_resize_ratio)")
      case True
      then have "dictExpandIfNeeded can_resize d = dictExpand (2 * used (ht0 d)) d"
        using old m by (simp add: dictExpandIfNeeded_def)
      moreover have "dictNextPower (2 * used (ht0 d)) \<noteq> size_ht (ht0 d)"
        using n True old by linarith
      ultimately show ?thesis
        using dictExpand_ok [OF assms(1) \<open>2 * used (ht0 d) \<le> 2 ^ 60\<close>] old ne by auto
    next
      case False
      with old ne assms show ?thesis by (auto simp: dictExpandIfNeeded_def)
    qed
  qed
qed

subsection \<open>Lookup\<close>

lemma dict_invar_distinct: "dict_invar hash d \<Longrightarrow> distinct (map fst (dict_entries d))"
  by (auto simp: dict_invar_def rehash_inv_def split: if_splits)

lemma dict_invar_ht:
  assumes "dict_invar hash d"
  shows "ht_ok hash (ht0 d)" "ht_ok hash (ht1 d)" "ht_ok hash (ht_of d t)"
    "dictIsRehashing d \<Longrightarrow> table (ht0 d) \<noteq> [] \<and> table (ht1 d) \<noteq> []"
    "\<not> dictIsRehashing d \<Longrightarrow> ht1 d = dictReset"
proof -
  show ok: "ht_ok hash (ht0 d)" "ht_ok hash (ht1 d)"
    using assms by (auto simp: dict_invar_def rehash_inv_def split: if_splits)
  then show "ht_ok hash (ht_of d t)" by (simp add: ht_of_def)
  show "dictIsRehashing d \<Longrightarrow> table (ht0 d) \<noteq> [] \<and> table (ht1 d) \<noteq> []"
    using assms table_Nil_iff [OF ok(1)] by (auto simp: dict_invar_def rehash_inv_def)
  show "\<not> dictIsRehashing d \<Longrightarrow> ht1 d = dictReset" using assms by (simp add: dict_invar_def)
qed

lemma dict_map_iff:
  assumes "dict_invar hash d"
  shows "dict_map d k = Some x \<longleftrightarrow> (k, x) \<in> set (dict_entries d)"
  using dict_invar_distinct [OF assms] by (simp add: dict_map_def)

lemma dict_map_None_iff: "dict_map d k = None \<longleftrightarrow> k \<notin> fst ` set (dict_entries d)"
  by (simp add: dict_map_def map_of_eq_None_iff)

lemma same_entries_map:
  "dict_invar hash d \<Longrightarrow> same_entries d d' \<Longrightarrow> dict_map d' = dict_map d"
  unfolding dict_map_def same_entries_def
  by (metis dict_invar_distinct map_of_mset_eq)

lemma same_entries_room: "same_entries d d' \<Longrightarrow> dict_room d' = dict_room d"
  unfolding same_entries_def dict_room_def by (metis size_mset)

lemma chain_find_ok:
  "case chain_find k c of
     None \<Rightarrow> k \<notin> fst ` set c
   | Some j \<Rightarrow> j < length c \<and> fst (c ! j) = k"
  by (induction c) (auto split: option.splits)

text \<open>An entry is only ever in the bucket its hash selects.\<close>

lemma entry_in_bucket:
  assumes "ht_ok hash h" "(k, x) \<in> set (concat (table h))"
  shows "(k, x) \<in> set (table h ! hash_index hash k h)"
proof -
  from assms(2) obtain c where "c \<in> set (table h)" "(k, x) \<in> set c" by auto
  then obtain i where "i < length (table h)" "(k, x) \<in> set (table h ! i)"
    by (auto simp: in_set_conv_nth)
  with ht_okD(4) [OF assms(1) this] show ?thesis by simp
qed

lemma bucket_in_entries:
  assumes "i < length (table (ht_of d t))" "e \<in> set (table (ht_of d t) ! i)"
  shows "e \<in> set (dict_entries d)"
proof -
  have "table (ht_of d t) ! i \<in> set (table (ht_of d t))" using assms(1) by simp
  then show ?thesis using assms(2) by (cases t) (auto simp: dict_entries_def ht_of_def)
qed

lemma entry_at_entries: "entry_at d r = Some e \<Longrightarrow> e \<in> set (dict_entries d)"
  by (auto simp: entry_at_def bucket_def split: prod.splits if_splits
      intro: bucket_in_entries)

lemma find_ref_ok:
  assumes "dict_invar hash d" "table (ht0 d) \<noteq> []"
  shows "\<exists>r. find_ref hash k d = Some r \<and>
    (case r of None \<Rightarrow> dict_map d k = None
     | Some e \<Rightarrow> \<exists>x. entry_at d e = Some (k, x) \<and> dict_map d k = Some x)"
proof -
  note ht = dict_invar_ht [OF assms(1)]
  define i0 i1 where "i0 = hash_index hash k (ht0 d)" and "i1 = hash_index hash k (ht1 d)"
  have i0: "i0 < length (table (ht0 d))"
    unfolding i0_def using hash_index_less [OF ht_okD(1) [OF ht(1)] assms(2)] .
  have i1: "i1 < length (table (ht1 d))" if "dictIsRehashing d"
    unfolding i1_def using hash_index_less [OF ht_okD(1) [OF ht(2)]] ht(4) [OF that] by blast
  have hit: "\<exists>x. entry_at d (t, i, j) = Some (k, x) \<and> dict_map d k = Some x"
    if "i < length (table (ht_of d t))" "chain_find k (table (ht_of d t) ! i) = Some j" for t i j
  proof -
    have "entry_at d (t, i, j) = Some (k, snd (table (ht_of d t) ! i ! j))"
      using that chain_find_ok [of k "table (ht_of d t) ! i"]
      by (auto simp: entry_at_def bucket_Some prod_eq_iff)
    with entry_at_entries [OF this] dict_map_iff [OF assms(1)] show ?thesis by blast
  qed
  have miss: "k \<notin> fst ` set (concat (table h))"
    if "ht_ok hash h" "chain_find k (table h ! hash_index hash k h) = None" for h :: "('a, 'b) dictht"
    using entry_in_bucket [OF that(1)] chain_find_ok [of k "table h ! hash_index hash k h"] that(2)
    by force
  show ?thesis
  proof (cases "chain_find k (table (ht0 d) ! i0)")
    case (Some j)
    then show ?thesis
      using hit [of i0 False j] i0 by (auto simp: find_ref_def bucket_Some ht_of_def simp flip: i0_def)
  next
    case None
    note none0 = this miss [OF ht(1) None [unfolded i0_def]]
    show ?thesis
    proof (cases "dictIsRehashing d")
      case True
      have r: "find_ref hash k d = Some (map_option (\<lambda>j. (True, i1, j)) (chain_find k (table (ht1 d) ! i1)))"
        using none0 True i0 i1 by (simp add: find_ref_def bucket_Some Let_def flip: i0_def i1_def)
      show ?thesis
      proof (cases "chain_find k (table (ht1 d) ! i1)")
        case None
        then show ?thesis
          using r none0 miss [OF ht(2) None [unfolded i1_def]]
          by (auto simp: dict_map_None_iff dict_entries_def)
      next
        case (Some j)
        then show ?thesis using r hit [of i1 True j] i1 [OF True] by (auto simp: ht_of_def)
      qed
    next
      case False
      then show ?thesis
        using none0 i0 ht(5)
        by (auto simp: find_ref_def bucket_Some dict_map_None_iff dict_entries_def dictReset_def
            simp flip: i0_def)
    qed
  qed
qed

subsection \<open>Updates\<close>

lemma ht_of_set [simp]:
  "ht_of (set_ht_of d t h) t = h" "iterators (set_ht_of d t h) = iterators d"
  "dictIsRehashing (set_ht_of d t h) = dictIsRehashing d"
  by (auto simp: ht_of_def set_ht_of_def dictIsRehashing_def)

lemma entries_set_bucket:
  assumes "i < length (table (ht_of d t))"
  shows "mset (dict_entries (set_ht_of d t ((set_bucket (ht_of d t) i c)\<lparr>used := u\<rparr>))) +
      mset (table (ht_of d t) ! i) = mset (dict_entries d) + mset c"
  using mset_concat_update [OF assms, of c]
  by (cases t) (auto simp: dict_entries_def ht_of_def set_ht_of_def)

text \<open>Replacing one chain of a table by another one keeps the invariant.\<close>

lemma dict_update:
  assumes inv: "dict_invar hash d" and i: "i < length (table (ht_of d t))"
    and c: "\<And>e. e \<in> set c \<Longrightarrow> hash_index hash (fst e) (ht_of d t) = i"
    and live: "dictIsRehashing d \<Longrightarrow> \<not> t \<Longrightarrow> table (ht0 d) ! i \<noteq> []"
    and u: "u + length (table (ht_of d t) ! i) = used (ht_of d t) + length c"
    and dis: "distinct (map fst (dict_entries (set_ht_of d t ((set_bucket (ht_of d t) i c)\<lparr>used := u\<rparr>))))"
  shows "dict_invar hash (set_ht_of d t ((set_bucket (ht_of d t) i c)\<lparr>used := u\<rparr>))"
proof -
  define h where "h = (set_bucket (ht_of d t) i c)\<lparr>used := u\<rparr>"
  note ht = dict_invar_ht [OF inv]
  have h: "ht_ok hash h" "table h = (table (ht_of d t))[i := c]" "size_ht h = size_ht (ht_of d t)"
    using ht_ok_set_bucket [OF ht(3) i c u] by (simp_all add: h_def)
  show ?thesis
  proof (cases "dictIsRehashing d")
    case True
    then have r: "rehash_inv hash d" "rehashidx d < int (size_ht (ht0 d))"
      using inv by (auto simp: dict_invar_def)
    have "rehashidx d \<le> int i" if "\<not> t"
      using r live [OF True that] i that by (force simp: rehash_inv_def ht_of_def)
    then have "rehash_inv hash (set_ht_of d t h)"
      using r h dis i unfolding h_def [symmetric]
      by (cases t) (auto simp: rehash_inv_def set_ht_of_def ht_of_def nth_list_update)
    then show ?thesis
      using r h True by (auto simp: dict_invar_def h_def set_ht_of_def ht_of_def dictIsRehashing_def)
  next
    case False
    then have "\<not> t" using ht(5) i by (auto simp: ht_of_def dictReset_def)
    then show ?thesis
      using inv False h dis unfolding h_def [symmetric]
      by (auto simp: dict_invar_def set_ht_of_def dictIsRehashing_def)
  qed
qed

lemma map_of_add:
  assumes "mset ys = mset xs + {#(k, x)#}" "distinct (map fst xs)" "map_of xs k = None"
  shows "distinct (map fst ys)" "map_of ys = (map_of xs)(k \<mapsto> x)"
proof -
  have m: "mset ys = mset ((k, x) # xs)" using assms(1) by simp
  show d: "distinct (map fst ys)"
    using distinct_keys_mset [OF m] assms(2,3) by (simp add: map_of_eq_None_iff)
  show "map_of ys = (map_of xs)(k \<mapsto> x)" using map_of_mset_eq [OF m d] by simp
qed

lemma map_of_remove:
  assumes "mset ys + {#(k, x)#} = mset xs" "distinct (map fst xs)"
  shows "distinct (map fst ys)" "map_of ys = (map_of xs)(k := None)"
proof -
  have m: "mset xs = mset ((k, x) # ys)" using assms(1) by simp
  have d: "distinct (map fst ys)" "k \<notin> fst ` set ys"
    using distinct_keys_mset [OF m] assms(2) by auto
  then show "distinct (map fst ys)" by simp
  show "map_of ys = (map_of xs)(k := None)"
    using map_of_mset_eq [OF m assms(2)] d(2) by (auto simp: map_of_eq_None_iff fun_eq_iff)
qed

lemma map_of_replace:
  assumes "mset ys + {#(k, y)#} = mset xs + {#(k, x)#}" "distinct (map fst xs)" "map_of xs k = Some y"
  shows "distinct (map fst ys)" "map_of ys = (map_of xs)(k \<mapsto> x)"
proof -
  have "(k, y) \<in> set xs" using assms(3) by (rule map_of_SomeD)
  then have m: "mset (remove1 (k, y) xs) + {#(k, y)#} = mset xs" by simp
  have "mset ys + {#(k, y)#} = (mset (remove1 (k, y) xs) + {#(k, x)#}) + {#(k, y)#}"
    unfolding assms(1) m [symmetric] by simp
  then have y: "mset ys = mset (remove1 (k, y) xs) + {#(k, x)#}" by simp
  note r = map_of_remove [OF m assms(2)]
  have "map_of (remove1 (k, y) xs) k = None" using r(2) by simp
  note a = map_of_add [OF y r(1) this]
  show "distinct (map fst ys)" by (rule a(1))
  show "map_of ys = (map_of xs)(k \<mapsto> x)" using a(2) r(2) by simp
qed

lemma set_bucket_used: "(set_bucket h i c)\<lparr>used := used h\<rparr> = set_bucket h i c"
  by (simp add: set_bucket_def)

lemma mset_list_update: "j < length c \<Longrightarrow> mset (c[j := e]) + {#c ! j#} = mset c + {#e#}"
  by (simp add: mset_update)

lemma mset_exchange:
  assumes "A + C = B + D" "D + {#y#} = C + {#x#}"
  shows "A + {#y#} = B + {#x#}"
proof -
  have "(A + {#y#}) + C = (A + C) + {#y#}" by simp
  also have "\<dots> = B + (D + {#y#})" using assms(1) by simp
  also have "\<dots> = (B + {#x#}) + C" using assms(2) by simp
  finally show ?thesis by simp
qed

lemma dictSetVal_ok:
  assumes inv: "dict_invar hash d" and r: "entry_at d r = Some (k, y)"
  shows "\<exists>d'. dictSetVal d r x = Some d' \<and> dict_invar hash d' \<and>
    dict_map d' = (dict_map d)(k \<mapsto> x) \<and> iterators d' = iterators d \<and>
    length (dict_entries d') = length (dict_entries d)"
proof -
  obtain t i j where rr: "r = (t, i, j)" by (cases r)
  define h c where "h = ht_of d t" and "c = table h ! i"
  have i: "i < length (table h)" and j: "j < length c" and e: "c ! j = (k, y)"
    using r by (auto simp: rr entry_at_def bucket_def h_def c_def split: if_splits)
  define d' where "d' = set_ht_of d t (set_bucket h i (c[j := (k, x)]))"
  have d': "d' = set_ht_of d t ((set_bucket (ht_of d t) i (c[j := (k, x)]))\<lparr>used := used (ht_of d t)\<rparr>)"
    by (simp add: d'_def h_def set_bucket_used)
  have "mset (dict_entries d') + mset c = mset (dict_entries d) + mset (c[j := (k, x)])"
    using entries_set_bucket [of i d t _ "c[j := (k, x)]"] i unfolding d' by (simp add: c_def h_def)
  from mset_exchange [OF this, of "(k, y)" "(k, x)"] mset_list_update [OF j, of "(k, x)"] e
  have m: "mset (dict_entries d') + {#(k, y)#} = mset (dict_entries d) + {#(k, x)#}" by simp
  have "map_of (dict_entries d) k = Some y"
    using entry_at_entries [OF r] dict_invar_distinct [OF inv] by simp
  note mo = map_of_replace [OF m dict_invar_distinct [OF inv] this]
  have hi: "hash_index hash (fst e') h = i" if "e' \<in> set (c[j := (k, x)])" for e'
  proof -
    have "fst e' \<in> fst ` set c"
      using that set_update_subset_insert [of c j "(k, x)"] nth_mem [OF j] e by force
    then show ?thesis using ht_okD(4) [OF dict_invar_ht(3) [OF inv]] i by (auto simp: h_def c_def)
  qed
  have "\<not> t \<Longrightarrow> table (ht0 d) ! i \<noteq> []" using j by (auto simp: c_def h_def ht_of_def)
  then have "dict_invar hash d'"
    unfolding d' using mo(1) [unfolded d'] hi i
    by (intro dict_update [OF inv]) (auto simp: h_def c_def)
  moreover have "length (dict_entries d') = length (dict_entries d)"
    using arg_cong [OF m, of size] by simp
  moreover have "dictSetVal d r x = Some d'"
    using i j e by (simp add: dictSetVal_def rr bucket_Some d'_def flip: h_def c_def)
  ultimately show ?thesis
    using mo(2) by (intro exI [of _ d']) (simp add: dict_map_def, simp add: d'_def)
qed

lemma dictKeyIndex_ok:
  assumes "dict_invar hash d" "dict_room d"
  shows "\<exists>d'. dict_invar hash d' \<and> same_entries d d' \<and> table (ht0 d') \<noteq> [] \<and>
    (case dict_map d k of
       None \<Rightarrow> dictKeyIndex can_resize hash k d =
                Some (d', Index (hash_index hash k (ht_of d' (dictIsRehashing d'))))
     | Some x \<Rightarrow> \<exists>e. dictKeyIndex can_resize hash k d = Some (d', KeyExists e) \<and>
                    entry_at d' e = Some (k, x))"
proof -
  from dictExpandIfNeeded_ok [OF assms, of can_resize] obtain d' where
    d': "dictExpandIfNeeded can_resize d = Some (d', True)" "dict_invar hash d'" "same_entries d d'"
      "table (ht0 d') \<noteq> []" by auto
  from find_ref_ok [OF d'(2,4), of k] same_entries_map [OF assms(1) d'(3)] d'
  show ?thesis
    by (intro exI [of _ d']) (auto simp: dictKeyIndex_def split: option.splits)
qed

lemma dictAddRaw_ok:
  assumes inv: "dict_invar hash d" and room: "dict_room d"
  shows "\<exists>d' r. dictAddRaw can_resize hash junk k d = Some (d', r) \<and> dict_invar hash d' \<and>
    iterators d' = iterators d \<and>
    (case dict_map d k of
       None \<Rightarrow> dict_map d' = (dict_map d)(k \<mapsto> junk) \<and>
         length (dict_entries d') = Suc (length (dict_entries d)) \<and>
         (\<exists>e. r = Added e \<and> entry_at d' e = Some (k, junk))
     | Some x \<Rightarrow> dict_map d' = dict_map d \<and> length (dict_entries d') = length (dict_entries d) \<and>
         (\<exists>e. r = Existing e \<and> entry_at d' e = Some (k, x)))"
proof -
  from rehash_if_needed_ok [OF inv] obtain d1 where
    d1: "rehash_if_needed hash d = Some d1" "dict_invar hash d1" "same_entries d d1" by auto
  have room1: "dict_room d1" using room same_entries_room [OF d1(3)] by simp
  from dictKeyIndex_ok [OF d1(2) room1, of can_resize k] obtain d2 where
    d2: "dict_invar hash d2" "same_entries d1 d2" "table (ht0 d2) \<noteq> []" and
    ix: "case dict_map d1 k of
       None \<Rightarrow> dictKeyIndex can_resize hash k d1 =
                Some (d2, Index (hash_index hash k (ht_of d2 (dictIsRehashing d2))))
     | Some x \<Rightarrow> \<exists>e. dictKeyIndex can_resize hash k d1 = Some (d2, KeyExists e) \<and>
                    entry_at d2 e = Some (k, x)" by auto
  have same: "same_entries d d2" using d1(3) d2(2) by (rule same_entries_trans)
  note maps = same_entries_map [OF inv d1(3)] same_entries_map [OF inv same]
  show ?thesis
  proof (cases "dict_map d k")
    case (Some x)
    with ix d1 d2 maps same show ?thesis
      by (auto simp: dictAddRaw_def same_entries_def dest: mset_eq_length)
  next
    case None
    define t i where "t = dictIsRehashing d2" and "i = hash_index hash k (ht_of d2 t)"
    define h where "h = ht_of d2 t"
    define d' where "d' = set_ht_of d2 t ((set_bucket h i ((k, junk) # table h ! i))\<lparr>used := used h + 1\<rparr>)"
    have "table h \<noteq> []"
      using dict_invar_ht(4) [OF d2(1)] d2(3) by (auto simp: h_def t_def ht_of_def)
    then have i: "i < length (table h)"
      using hash_index_less [OF ht_okD(1) [OF dict_invar_ht(3) [OF d2(1)]]] by (simp add: i_def h_def)
    have "hash_index hash k h = i" by (simp add: h_def i_def)
    have m: "mset (dict_entries d') = mset (dict_entries d2) + {#(k, junk)#}"
      using entries_set_bucket [of i d2 t "used h + 1" "(k, junk) # table h ! i"] i
      by (simp add: d'_def h_def)
    have "map_of (dict_entries d2) k = None" using None maps(2) by (simp add: dict_map_def)
    note mo = map_of_add [OF m dict_invar_distinct [OF d2(1)] this]
    have "dict_invar hash d'"
      unfolding d'_def h_def using mo(1) i ht_okD(4) [OF dict_invar_ht(3) [OF d2(1)]]
      by (intro dict_update [OF d2(1)]) (auto simp: h_def i_def t_def d'_def)
    moreover have "dict_map d' = (dict_map d)(k \<mapsto> junk)"
      using mo(2) maps(2) by (simp add: dict_map_def)
    moreover have "length (dict_entries d') = Suc (length (dict_entries d))"
      using arg_cong [OF m, of size] same mset_eq_length by (force simp: same_entries_def)
    moreover have "entry_at d' (t, i, 0) = Some (k, junk)"
      using i by (simp add: entry_at_def d'_def bucket_Some)
    moreover have "dictAddRaw can_resize hash junk k d = Some (d', Added (t, i, 0))"
      using None maps ix d1 i \<open>hash_index hash k h = i\<close>
      by (simp add: dictAddRaw_def d'_def bucket_Some Let_def flip: t_def h_def i_def)
    ultimately show ?thesis
      using None same by (simp add: same_entries_def) (simp add: d'_def)
  qed
qed

lemma dictAdd_ok:
  assumes "dict_invar hash d" "dict_room d"
  shows "\<exists>d'. dictAdd can_resize hash junk k x d = Some (d', dict_map d k = None) \<and>
    dict_invar hash d' \<and> iterators d' = iterators d \<and>
    dict_map d' = (if dict_map d k = None then (dict_map d)(k \<mapsto> x) else dict_map d) \<and>
    length (dict_entries d') \<le> Suc (length (dict_entries d))"
proof -
  from dictAddRaw_ok [OF assms, of can_resize junk k] obtain d1 r where
    d1: "dictAddRaw can_resize hash junk k d = Some (d1, r)" "dict_invar hash d1"
      "iterators d1 = iterators d" and
    r: "case dict_map d k of
       None \<Rightarrow> dict_map d1 = (dict_map d)(k \<mapsto> junk) \<and>
         length (dict_entries d1) = Suc (length (dict_entries d)) \<and>
         (\<exists>e. r = Added e \<and> entry_at d1 e = Some (k, junk))
     | Some x \<Rightarrow> dict_map d1 = dict_map d \<and> length (dict_entries d1) = length (dict_entries d) \<and>
         (\<exists>e. r = Existing e \<and> entry_at d1 e = Some (k, x))" by auto
  show ?thesis
  proof (cases "dict_map d k")
    case None
    with r obtain e where e: "r = Added e" "entry_at d1 e = Some (k, junk)" by auto
    from dictSetVal_ok [OF d1(2) e(2), of x] None r e d1 show ?thesis
      by (auto simp: dictAdd_def)
  next
    case (Some y)
    with r d1 show ?thesis by (auto simp: dictAdd_def)
  qed
qed

lemma dictReplace_ok:
  assumes "dict_invar hash d" "dict_room d"
  shows "\<exists>d'. dictReplace can_resize hash junk k x d = Some (d', dict_map d k = None) \<and>
    dict_invar hash d' \<and> iterators d' = iterators d \<and>
    dict_map d' = (dict_map d)(k \<mapsto> x) \<and>
    length (dict_entries d') \<le> Suc (length (dict_entries d))"
proof -
  from dictAddRaw_ok [OF assms, of can_resize junk k] obtain d1 r where
    d1: "dictAddRaw can_resize hash junk k d = Some (d1, r)" "dict_invar hash d1"
      "iterators d1 = iterators d" and
    r: "case dict_map d k of
       None \<Rightarrow> dict_map d1 = (dict_map d)(k \<mapsto> junk) \<and>
         length (dict_entries d1) = Suc (length (dict_entries d)) \<and>
         (\<exists>e. r = Added e \<and> entry_at d1 e = Some (k, junk))
     | Some x \<Rightarrow> dict_map d1 = dict_map d \<and> length (dict_entries d1) = length (dict_entries d) \<and>
         (\<exists>e. r = Existing e \<and> entry_at d1 e = Some (k, x))" by auto
  show ?thesis
  proof (cases "dict_map d k")
    case None
    with r obtain e where e: "r = Added e" "entry_at d1 e = Some (k, junk)" by auto
    from dictSetVal_ok [OF d1(2) e(2), of x] None r e d1 show ?thesis
      by (auto simp: dictReplace_def)
  next
    case (Some y)
    with r obtain e where e: "r = Existing e" "entry_at d1 e = Some (k, y)" by auto
    from dictSetVal_ok [OF d1(2) e(2), of x] Some r e d1 show ?thesis
      by (auto simp: dictReplace_def)
  qed
qed

lemma entries_table:
  "dict_invar hash d \<Longrightarrow> dict_entries d \<noteq> [] \<Longrightarrow> table (ht0 d) \<noteq> []"
  using dict_invar_ht(4,5) [of hash d]
  by (cases "dictIsRehashing d") (auto simp: dict_entries_def dictReset_def)

lemma dictFind_ok:
  assumes "dict_invar hash d"
  shows "\<exists>d' r. dictFind hash k d = Some (d', r) \<and> dict_invar hash d' \<and> same_entries d d' \<and>
    (case r of None \<Rightarrow> dict_map d k = None
     | Some e \<Rightarrow> \<exists>x. entry_at d' e = Some (k, x) \<and> dict_map d k = Some x)"
proof (cases "dict_entries d = []")
  case True
  then show ?thesis
    using assms dictSize_entries [OF assms]
    by (auto simp: dictFind_def dictSize_def dict_map_def)
next
  case False
  from rehash_if_needed_ok [OF assms] obtain d1 where
    d1: "rehash_if_needed hash d = Some d1" "dict_invar hash d1" "same_entries d d1" by auto
  have "dict_entries d1 \<noteq> []" using False d1(3) by (auto simp: same_entries_def)
  from find_ref_ok [OF d1(2) entries_table [OF d1(2) this], of k] obtain r where
    r: "find_ref hash k d1 = Some r" "case r of None \<Rightarrow> dict_map d1 k = None
     | Some e \<Rightarrow> \<exists>x. entry_at d1 e = Some (k, x) \<and> dict_map d1 k = Some x" by blast
  have "dictFind hash k d = Some (d1, r)"
    using False dictSize_entries [OF assms] d1 r by (simp add: dictFind_def dictSize_def)
  then show ?thesis
    using d1 r(2) [unfolded same_entries_map [OF assms d1(3)]] by blast
qed

lemma dictFetchValue_ok:
  assumes "dict_invar hash d"
  shows "\<exists>d'. dictFetchValue hash k d = Some (d', dict_map d k) \<and> dict_invar hash d' \<and> same_entries d d'"
  using dictFind_ok [OF assms, of k]
  by (auto simp: dictFetchValue_def split: option.splits)

subsection \<open>Removal\<close>

lemma chain_unlink_ok:
  "case chain_unlink k c of
     None \<Rightarrow> k \<notin> fst ` set c
   | Some (e, c') \<Rightarrow> fst e = k \<and> mset c = mset c' + {#e#}"
  by (induction c) (auto split: option.splits)

lemma unlink_from_ok:
  assumes inv: "dict_invar hash d" and ne: "table (ht_of d t) \<noteq> []"
  shows "\<exists>r. unlink_from hash k (ht_of d t) = Some r \<and>
    (case r of
       None \<Rightarrow> k \<notin> fst ` set (concat (table (ht_of d t)))
     | Some (e, h) \<Rightarrow> dict_invar hash (set_ht_of d t h) \<and> fst e = k \<and> dict_map d k = Some (snd e) \<and>
         dict_map (set_ht_of d t h) = (dict_map d)(k := None) \<and>
         length (dict_entries d) = Suc (length (dict_entries (set_ht_of d t h))))"
proof -
  define h i c where "h = ht_of d t" and "i = hash_index hash k h" and "c = table h ! i"
  note ok = dict_invar_ht(3) [OF inv, of t]
  have i: "i < length (table h)" using hash_index_less [OF ht_okD(1) [OF ok] ne] by (simp add: i_def h_def)
  have u: "unlink_from hash k h =
      Some (map_option (\<lambda>(e, c'). (e, (set_bucket h i c')\<lparr>used := used h - 1\<rparr>)) (chain_unlink k c))"
    using i by (simp add: unlink_from_def bucket_Some Let_def flip: i_def c_def)
  show ?thesis
  proof (cases "chain_unlink k c")
    case None
    have "k \<notin> fst ` set (concat (table h))"
      using None chain_unlink_ok [of k c] entry_in_bucket [OF ok [folded h_def]]
      by (force simp: i_def c_def)
    then show ?thesis using u None by (simp add: h_def)
  next
    case (Some ec)
    then obtain e c' where ec: "chain_unlink k c = Some (e, c')" by (cases ec) auto
    with chain_unlink_ok [of k c] have e: "fst e = k" "mset c = mset c' + {#e#}" by auto
    define d' where "d' = set_ht_of d t ((set_bucket (ht_of d t) i c')\<lparr>used := used (ht_of d t) - 1\<rparr>)"
    have "mset (dict_entries d') + mset c = mset (dict_entries d) + mset c'"
      using entries_set_bucket [of i d t "used (ht_of d t) - 1" c'] i
      by (simp add: d'_def h_def c_def)
    then have m: "mset (dict_entries d') + {#(k, snd e)#} = mset (dict_entries d)"
      using e by (cases e) simp
    note mo = map_of_remove [OF m dict_invar_distinct [OF inv]]
    have sub: "e' \<in> set c" if "e' \<in> set c'" for e'
      using e(2) that by (metis mset_subset_eq_add_left set_mset_mono set_mset_mset subsetD)
    have len: "length c = Suc (length c')" using arg_cong [OF e(2), of size] by simp
    have "(k, snd e) \<in> set (dict_entries d)"
      using m by (metis multi_member_last set_mset_mset union_iff)
    then have "dict_map d k = Some (snd e)" using dict_map_iff [OF inv] by simp
    moreover have "length c \<le> used h"
      using length_concat_update [OF i, of "[]"] ht_okD(2) [OF ok] by (simp add: c_def h_def)
    then have "dict_invar hash d'"
      unfolding d'_def using mo(1) [unfolded d'_def] i len sub ht_okD(4) [OF ok]
      by (intro dict_update [OF inv]) (auto simp: h_def c_def ht_of_def)
    moreover have "length (dict_entries d) = Suc (length (dict_entries d'))"
      using arg_cong [OF m, of size] by simp
    ultimately show ?thesis
      using u ec e(1) mo(2) by (simp add: d'_def dict_map_def flip: h_def)
  qed
qed

lemma dictGenericDelete_ok:
  assumes inv: "dict_invar hash d"
  shows "\<exists>d'. dictGenericDelete hash k d = Some (d', map_option (\<lambda>x. (k, x)) (dict_map d k)) \<and>
    dict_invar hash d' \<and> dict_map d' = (dict_map d)(k := None) \<and> iterators d' = iterators d \<and>
    length (dict_entries d') \<le> length (dict_entries d)"
proof (cases "dict_entries d = []")
  case True
  then show ?thesis
    using inv dictSize_entries [OF inv]
    by (auto simp: dictGenericDelete_def dictSize_def dict_map_def fun_eq_iff)
next
  case False
  from rehash_if_needed_ok [OF inv] obtain d1 where
    d1: "rehash_if_needed hash d = Some d1" "dict_invar hash d1" "same_entries d d1" by auto
  have ne: "dict_entries d1 \<noteq> []" using False d1(3) by (auto simp: same_entries_def)
  have len: "length (dict_entries d1) = length (dict_entries d)" "iterators d1 = iterators d"
    using d1(3) mset_eq_length by (auto simp: same_entries_def)
  have del: "dictGenericDelete hash k d = do {
      r0 \<leftarrow> unlink_from hash k (ht_of d1 False);
      case r0 of
        Some (e, h) \<Rightarrow> Some (set_ht_of d1 False h, Some e)
      | None \<Rightarrow>
          if \<not> dictIsRehashing d1 then Some (d1, None)
          else do {
            r1 \<leftarrow> unlink_from hash k (ht_of d1 True);
            case r1 of
              Some (e, h) \<Rightarrow> Some (set_ht_of d1 True h, Some e)
            | None \<Rightarrow> Some (d1, None)
          }
    }"
    unfolding ht_of_def set_ht_of_def if_True if_False
    using False dictSize_entries [OF inv] d1(1) by (auto simp: dictGenericDelete_def dictSize_def)
  note map1 = same_entries_map [OF inv d1(3)]
  have "table (ht_of d1 False) \<noteq> []" using entries_table [OF d1(2) ne] by (simp add: ht_of_def)
  from unlink_from_ok [OF d1(2) this, of k] obtain r0 where
    r0: "unlink_from hash k (ht_of d1 False) = Some r0" "case r0 of
       None \<Rightarrow> k \<notin> fst ` set (concat (table (ht_of d1 False)))
     | Some (e, h) \<Rightarrow> dict_invar hash (set_ht_of d1 False h) \<and> fst e = k \<and> dict_map d1 k = Some (snd e) \<and>
         dict_map (set_ht_of d1 False h) = (dict_map d1)(k := None) \<and>
         length (dict_entries d1) = Suc (length (dict_entries (set_ht_of d1 False h)))" by auto
  show ?thesis
  proof (cases r0)
    case (Some eh)
    with r0 del d1 map1 len show ?thesis by (cases eh) auto
  next
    case None
    note none0 = this
    show ?thesis
    proof (cases "dictIsRehashing d1")
      case False
      then have "dict_map d k = None"
        using r0(2) none0 dict_invar_ht(5) [OF d1(2)]
        by (simp add: map1 [symmetric] dict_map_None_iff dict_entries_def dictReset_def ht_of_def)
      then show ?thesis
        using r0 none0 False del d1 map1 len by (auto simp: fun_upd_idem)
    next
      case True
      then have "table (ht_of d1 True) \<noteq> []"
        using dict_invar_ht(4) [OF d1(2)] by (simp add: ht_of_def)
      from unlink_from_ok [OF d1(2) this, of k] obtain r1 where
        r1: "unlink_from hash k (ht_of d1 True) = Some r1" "case r1 of
           None \<Rightarrow> k \<notin> fst ` set (concat (table (ht_of d1 True)))
         | Some (e, h) \<Rightarrow> dict_invar hash (set_ht_of d1 True h) \<and> fst e = k \<and> dict_map d1 k = Some (snd e) \<and>
             dict_map (set_ht_of d1 True h) = (dict_map d1)(k := None) \<and>
             length (dict_entries d1) = Suc (length (dict_entries (set_ht_of d1 True h)))" by auto
      show ?thesis
      proof (cases r1)
        case (Some eh)
        with r0 r1 none0 True del d1 map1 len show ?thesis by (cases eh) auto
      next
        case None
        have "dict_map d k = None"
          using r0(2) r1(2) none0 None
          by (auto simp: map1 [symmetric] dict_map_None_iff dict_entries_def ht_of_def)
        then show ?thesis
          using r0 r1 none0 None True del d1 map1 len by (auto simp: fun_upd_idem)
      qed
    qed
  qed
qed

subsection \<open>The dictionary as a partial map\<close>

text \<open>
  The commands of a client, each with the value \<open>dict_can_resize\<close> has at that moment, and
  the background work of the server: rehashing and resizing.
\<close>

datatype ('k, 'v) dict_cmd =
    DAdd 'k 'v | DReplace 'k 'v | DDelete 'k | DFetch 'k | DRehash nat | DResize

datatype 'v dict_answer = ABool bool | AVal "'v option" | ADone

fun dict_exec :: "('k \<Rightarrow> u64) \<Rightarrow> 'v \<Rightarrow> bool \<times> ('k, 'v) dict_cmd \<Rightarrow> ('k, 'v) dict \<Rightarrow>
    (('k, 'v) dict \<times> 'v dict_answer) option" where
  "dict_exec hash junk (cr, DAdd k x) d = map_option (\<lambda>(d', b). (d', ABool b)) (dictAdd cr hash junk k x d)"
| "dict_exec hash junk (cr, DReplace k x) d = map_option (\<lambda>(d', b). (d', ABool b)) (dictReplace cr hash junk k x d)"
| "dict_exec hash junk (cr, DDelete k) d = map_option (\<lambda>(d', b). (d', ABool b)) (dictDelete hash k d)"
| "dict_exec hash junk (cr, DFetch k) d = map_option (\<lambda>(d', v). (d', AVal v)) (dictFetchValue hash k d)"
| "dict_exec hash junk (cr, DRehash n) d = map_option (\<lambda>(d', _). (d', ADone)) (dictRehash hash n d)"
| "dict_exec hash junk (cr, DResize) d = map_option (\<lambda>(d', _). (d', ADone)) (dictResize cr d)"

fun map_step :: "bool \<times> ('k, 'v) dict_cmd \<Rightarrow> ('k \<rightharpoonup> 'v) \<Rightarrow> ('k \<rightharpoonup> 'v) \<times> 'v dict_answer" where
  "map_step (_, DAdd k x) m = (if m k = None then (m(k \<mapsto> x), ABool True) else (m, ABool False))"
| "map_step (_, DReplace k x) m = (m(k \<mapsto> x), ABool (m k = None))"
| "map_step (_, DDelete k) m = (m(k := None), ABool (m k \<noteq> None))"
| "map_step (_, DFetch k) m = (m, AVal (m k))"
| "map_step (_, DRehash n) m = (m, ADone)"
| "map_step (_, DResize) m = (m, ADone)"

definition dict_weight :: "('k, 'v) dict \<Rightarrow> nat" where
  "dict_weight d = length (dict_entries d)"

lemma same_entries_weight: "same_entries d d' \<Longrightarrow> dict_weight d' = dict_weight d"
  using mset_eq_length by (auto simp: same_entries_def dict_weight_def)

lemma dictResize_ok:
  assumes "dict_invar hash d" "dict_room d"
  shows "\<exists>d' ok. dictResize can_resize d = Some (d', ok) \<and> dict_invar hash d' \<and> same_entries d d'"
proof -
  have "max (used (ht0 d)) DICT_HT_INITIAL_SIZE \<le> 2 ^ 60"
    using dictSize_entries [OF assms(1)] assms(2)
    by (simp add: dictSize_def dict_room_def DICT_HT_INITIAL_SIZE_def)
  from dictExpand_ok [OF assms(1) this] assms(1) show ?thesis
    by (auto simp: dictResize_def)
qed

interpretation dict_sim: simulation "dict_invar hash" dict_map dict_weight "2 ^ 59"
    "dict_exec hash junk" map_step
  for hash :: "'k \<Rightarrow> u64" and junk :: 'v
proof unfold_locales
  fix d :: "('k, 'v) dict" and c :: "bool \<times> ('k, 'v) dict_cmd"
  assume inv: "dict_invar hash d" and "dict_weight d < 2 ^ 59"
  then have room: "dict_room d" by (simp add: dict_room_def dict_weight_def)
  have same: "dict_map d' = dict_map d \<and> dict_weight d' = dict_weight d" if "same_entries d d'" for d'
    using same_entries_map [OF inv that] same_entries_weight [OF that] by simp
  obtain cr op where c: "c = (cr, op)" by (cases c)
  show "\<exists>d' a. dict_exec hash junk c d = Some (d', a) \<and> dict_invar hash d' \<and>
      map_step c (dict_map d) = (dict_map d', a) \<and> dict_weight d' \<le> Suc (dict_weight d)"
  proof (cases op)
    case (DAdd k x)
    with dictAdd_ok [OF inv room, of cr junk k x] show ?thesis by (auto simp: c dict_weight_def)
  next
    case (DReplace k x)
    with dictReplace_ok [OF inv room, of cr junk k x] show ?thesis by (auto simp: c dict_weight_def)
  next
    case (DDelete k)
    with dictGenericDelete_ok [OF inv, of k] show ?thesis by (auto simp: c dictDelete_def dict_weight_def)
  next
    case (DFetch k)
    with dictFetchValue_ok [OF inv, of k] show ?thesis
      by (auto simp: c dest!: same)
  next
    case (DRehash n)
    with dictRehash_ok [OF inv, of n] show ?thesis
      by (auto simp: c dest!: same)
  next
    case DResize
    with dictResize_ok [OF inv room, of cr] show ?thesis
      by (auto simp: c dest!: same)
  qed
qed

lemma dictCreate_ok: "dict_invar hash dictCreate" "dict_map dictCreate = Map.empty" "dict_weight dictCreate = 0"
  by (simp_all add: dict_invar_def dictCreate_def dictIsRehashing_def dict_entries_def dict_map_def
      dict_weight_def dictReset_def) (simp add: ht_ok_def ht_shape_def)

text \<open>
  C9: whatever sequence of fewer than \<open>2\<^sup>5\<^sup>9\<close> insertions, replacements, deletions, lookups, rehashing
  steps and resizings a client runs on a new dictionary, with resizing enabled or disabled at
  any moment and for any hash function, no access leaves a table, no assertion fails, every
  answer is the one a partial map gives, and the final contents are that map.
\<close>

theorem dict_refines_map:
  assumes "length cs \<le> 2 ^ 59"
  shows "\<exists>d as. run_cmds (dict_exec hash junk) cs dictCreate = Some (d, as) \<and> dict_invar hash d \<and>
    run_spec map_step cs Map.empty = (dict_map d, as)"
  using dict_sim.run_refines [OF dictCreate_ok(1), of cs hash junk] assms
  by (auto simp: dictCreate_ok(2,3))

definition sample_cmds :: "(bool \<times> (nat, nat) dict_cmd) list" where
  "sample_cmds = map (\<lambda>k. (True, DAdd k (k * k))) [0..<6] @
     [(True, DDelete 3), (True, DFetch 3), (True, DFetch 5), (True, DResize), (True, DRehash 2)]"

theorem dict_refines_map_witness:
  "\<exists>d as. run_cmds (dict_exec (\<lambda>k. of_nat (k mod 3)) 0) sample_cmds dictCreate = Some (d, as) \<and>
     dict_invar (\<lambda>k. of_nat (k mod 3)) d \<and>
     run_spec map_step sample_cmds Map.empty = (dict_map d, as)"
  using dict_refines_map [of sample_cmds "\<lambda>k. of_nat (k mod 3)" 0] by (simp add: sample_cmds_def)

lemma rehash_ms_loop_total:
  assumes "dict_invar hash d"
  shows "\<exists>d' r'. rehash_ms_loop hash clock ms i d r = Some (d', r') \<and> dict_invar hash d' \<and>
    same_entries d d' \<and> ((\<forall>j. clock j - clock 0 \<le> ms) \<longrightarrow> \<not> dictIsRehashing d')"
  using assms
proof (induction "nat (int (size_ht (ht0 d)) - rehashidx d)" arbitrary: d i r rule: less_induct)
  case less
  from dictRehash_ok [OF less.prems, of 100] obtain d1 more where
    d1: "dictRehash hash 100 d = Some (d1, more)" "dict_invar hash d1" "same_entries d d1"
      "more = dictIsRehashing d1"
      "dictIsRehashing d1 \<Longrightarrow> size_ht (ht0 d1) = size_ht (ht0 d) \<and> rehashidx d < rehashidx d1"
    by (auto split: if_splits)
  note unf = rehash_ms_loop.simps [of hash clock ms i d r]
  show ?case
  proof (cases "more \<and> \<not> clock i - clock 0 > ms")
    case False
    then show ?thesis using d1 by (auto simp: unf not_le)
  next
    case True
    then have "dictIsRehashing d1" using d1(4) by simp
    from d1(5) [OF this] have "nat (int (size_ht (ht0 d1)) - rehashidx d1) < nat (int (size_ht (ht0 d)) - rehashidx d)"
      using d1(2) \<open>dictIsRehashing d1\<close> by (auto simp: dict_invar_def)
    from less.hyps [OF this d1(2), of "i + 1" "r + 100"] True d1 show ?thesis
      by (auto simp: unf dest: same_entries_trans)
  qed
qed

text \<open>
  C26: timed rehashing always ends, whatever the clock does, keeps every entry, and when the
  clock never exceeds the budget it ends with the rehashing completed.
\<close>

theorem dictRehashMilliseconds_total:
  assumes "dict_invar hash d"
  shows "\<exists>d' r. dictRehashMilliseconds hash clock ms d = Some (d', r) \<and> dict_invar hash d' \<and>
    same_entries d d' \<and> ((\<forall>j. clock j - clock 0 \<le> ms) \<longrightarrow> \<not> dictIsRehashing d')"
  unfolding dictRehashMilliseconds_def using rehash_ms_loop_total [OF assms] .

definition rehashing_dict :: "(nat, nat) dict" where
  "rehashing_dict =
     \<lparr>ht0 = \<lparr>table = [[(0, 5)], [], [], []], size_ht = 4, sizemask = 3, used = 1\<rparr>,
      ht1 = \<lparr>table = [[], [(1, 6)], [], [], [], [], [], []], size_ht = 8, sizemask = 7, used = 1\<rparr>,
      rehashidx = 0, iterators = 0\<rparr>"

lemma rehashing_dict_invar: "dict_invar of_nat rehashing_dict"
proof -
  have "\<exists>e\<le>60. (4::nat) = 2 ^ e \<and> (3::u64) = mask e"
    by (rule exI [of _ 2]) (simp add: mask_eq_exp_minus_1)
  moreover have "\<exists>e\<le>60. (8::nat) = 2 ^ e \<and> (7::u64) = mask e"
    by (rule exI [of _ 3]) (simp add: mask_eq_exp_minus_1)
  ultimately show ?thesis
    by (simp add: rehashing_dict_def dict_invar_def rehash_inv_def dictIsRehashing_def ht_ok_def
        ht_shape_def dict_entries_def hash_index_def numeral_eq_Suc All_less_Suc)
qed

theorem dictRehashMilliseconds_total_witness:
  "\<exists>d' r. dictRehashMilliseconds of_nat (\<lambda>_. 0) 1 rehashing_dict = Some (d', r) \<and> dict_invar of_nat d' \<and>
    same_entries rehashing_dict d' \<and> \<not> dictIsRehashing d'"
  using dictRehashMilliseconds_total [OF rehashing_dict_invar, of "\<lambda>_. 0" 1] by simp

end
