(* ===== verification/Dict_Scan.thy ===== *)
theory Dict_Scan
  imports Dict
begin

unbundle bit_operations_syntax

text \<open>
  The stateless cursor of \<open>dictScan\<close>: its bits are incremented in reversed order, which makes an
  iteration complete although the tables change size between its calls.
\<close>

subsection \<open>Scanning with a cursor\<close>

function rev_loop :: "nat \<Rightarrow> u64 \<Rightarrow> u64 \<Rightarrow> u64" where
  "rev_loop s msk v =
     (let s' = s div 2 in
      if s' > 0
      then let msk' = msk XOR push_bit s' msk
        in rev_loop s' msk' ((drop_bit s' v AND msk') OR (push_bit s' v AND NOT msk'))
      else v)"
  by pat_completeness auto
termination by (relation "measure (\<lambda>(s, _, _). s)") auto

declare rev_loop.simps [simp del]

definition rev_bits :: "u64 \<Rightarrow> u64" where
  "rev_bits v = rev_loop 64 (NOT 0) v"

definition cursor_incr :: "u64 \<Rightarrow> u64 \<Rightarrow> u64" where
  "cursor_incr m v = rev_bits (rev_bits (v OR NOT m) + 1)"

definition emit :: "('k, 'v) dictht \<Rightarrow> u64 \<Rightarrow> ('k, 'v) chain option" where
  "emit t v = bucket t (unat (v AND sizemask t))"

partial_function (option) scan_expand :: "('k, 'v) dictht \<Rightarrow> u64 \<Rightarrow> u64 \<Rightarrow>
    (u64 \<times> ('k \<times> 'v) list) option" where
  "scan_expand t1 m0 v = do {
     es \<leftarrow> emit t1 v;
     let v1 = cursor_incr (sizemask t1) v;
     if v1 AND (m0 XOR sizemask t1) \<noteq> 0
     then do { (v2, es2) \<leftarrow> scan_expand t1 m0 v1; Some (v2, es @ es2) }
     else Some (v1, es)
   }"

text \<open>
  One call of \<open>dictScan\<close>: the new cursor and the entries handed to the callback, in order.
  The iterator count is raised during the call and restored, and there is no bucket callback.
\<close>

definition dictScan :: "('k, 'v) dict \<Rightarrow> u64 \<Rightarrow> (u64 \<times> ('k \<times> 'v) list) option" where
  "dictScan d v =
     (if dictSize d = 0 then Some (0, [])
      else if \<not> dictIsRehashing d then do {
        es \<leftarrow> emit (ht0 d) v;
        Some (cursor_incr (sizemask (ht0 d)) v, es)
      }
      else do {
        let (t0, t1) = (if size_ht (ht0 d) > size_ht (ht1 d) then (ht1 d, ht0 d) else (ht0 d, ht1 d));
        es0 \<leftarrow> emit t0 v;
        (v', es1) \<leftarrow> scan_expand t1 (sizemask t0) v;
        Some (v', es0 @ es1)
      })"

subsection \<open>The reversed cursor\<close>

definition swap_bits :: "nat \<Rightarrow> u64 \<Rightarrow> u64 \<Rightarrow> u64" where
  "swap_bits s m v = (drop_bit s v AND m) OR (push_bit s v AND NOT m)"

lemma rev_loop_swap:
  "s' = s div 2 \<Longrightarrow> 0 < s' \<Longrightarrow> m XOR push_bit s' m = m' \<Longrightarrow>
     rev_loop s m v = rev_loop s' m' (swap_bits s' m' v)"
  by (simp add: rev_loop.simps [of s] swap_bits_def Let_def)

lemma rev_masks:
  "(NOT 0 :: u64) XOR push_bit 32 (NOT 0) = 0x00000000FFFFFFFF"
  "(0x00000000FFFFFFFF :: u64) XOR push_bit 16 0x00000000FFFFFFFF = 0x0000FFFF0000FFFF"
  "(0x0000FFFF0000FFFF :: u64) XOR push_bit 8 0x0000FFFF0000FFFF = 0x00FF00FF00FF00FF"
  "(0x00FF00FF00FF00FF :: u64) XOR push_bit 4 0x00FF00FF00FF00FF = 0x0F0F0F0F0F0F0F0F"
  "(0x0F0F0F0F0F0F0F0F :: u64) XOR push_bit 2 0x0F0F0F0F0F0F0F0F = 0x3333333333333333"
  "(0x3333333333333333 :: u64) XOR push_bit 1 0x3333333333333333 = 0x5555555555555555"
  by code_simp+

lemma rev_bits_swaps:
  "rev_bits v = swap_bits 1 0x5555555555555555 (swap_bits 2 0x3333333333333333
     (swap_bits 4 0x0F0F0F0F0F0F0F0F (swap_bits 8 0x00FF00FF00FF00FF
     (swap_bits 16 0x0000FFFF0000FFFF (swap_bits 32 0x00000000FFFFFFFF v)))))"
  unfolding rev_bits_def
  using rev_loop_swap [OF _ _ rev_masks(1), of 64 v] rev_loop_swap [OF _ _ rev_masks(2), of 32]
    rev_loop_swap [OF _ _ rev_masks(3), of 16] rev_loop_swap [OF _ _ rev_masks(4), of 8]
    rev_loop_swap [OF _ _ rev_masks(5), of 4] rev_loop_swap [OF _ _ rev_masks(6), of 2]
    rev_loop.simps [of 1]
  by simp

lemma bit_swap_bits:
  assumes "i < 64" 
  shows "bit (swap_bits s m v) i = (if bit m i then bit v (s + i) else s \<le> i \<and> bit v (i - s))"
  using assms by (auto simp: swap_bits_def bit_simps)

lemma bit_rev_bits_all: "\<forall>i \<in> set [0..<64]. bit (rev_bits v) i = bit v (63 - i)"
  unfolding rev_bits_swaps
  by (simp add: upt_rec bit_swap_bits)

lemma bit_rev_bits: "i < 64 \<Longrightarrow> bit (rev_bits v) i = bit v (63 - i)"
  using bit_rev_bits_all [of v] by simp

lemma rev_bits_rev_bits [simp]: "rev_bits (rev_bits v) = v"
  by (rule bit_word_eqI) (simp add: bit_rev_bits)

lemma rev_or_not_mask:
  assumes "e \<le> 64"
  shows "rev_bits (v OR NOT (mask e)) = rev_bits v OR mask (64 - e)"
proof (rule bit_word_eqI)
  fix i assume "i < LENGTH(64)"
  then show "bit (rev_bits (v OR NOT (mask e))) i = bit (rev_bits v OR mask (64 - e)) i"
    using assms by (auto simp: bit_rev_bits bit_simps)
qed

definition rcur :: "u64 \<Rightarrow> nat" where
  "rcur v = unat (rev_bits v)"

lemma rcur_less [simp]: "rcur v < 2 ^ 64"
  using unsigned_less [of "rev_bits v"] by (simp add: rcur_def)

lemma rcur_inj: "rcur v = rcur w \<longleftrightarrow> v = w"
proof
  assume "rcur v = rcur w"
  then have "rev_bits v = rev_bits w" by (simp add: rcur_def unsigned_word_eqI)
  then show "v = w" by (metis rev_bits_rev_bits)
qed simp

lemma or_mask_nat: "(x::nat) OR mask n = x div 2 ^ n * 2 ^ n + (2 ^ n - 1)"
proof -
  have "x OR mask n = push_bit n (drop_bit n x) OR mask n"
    by (rule bit_eqI) (auto simp: bit_simps)
  also have "\<dots> = push_bit n (drop_bit n x) + mask n"
    by (rule disjunctive_add_eq_or [symmetric]) (rule bit_eqI, auto simp: bit_simps)
  finally show ?thesis by (simp add: push_bit_eq_mult drop_bit_eq_div mask_eq_exp_minus_1)
qed

lemma rcur_incr_mod:
  assumes "e \<le> 64"
  shows "rcur (cursor_incr (mask e) v) = (rcur v div 2 ^ (64 - e) + 1) * 2 ^ (64 - e) mod 2 ^ 64"
proof -
  have "rcur (cursor_incr (mask e) v) = unat ((rev_bits v OR mask (64 - e)) + 1)"
    by (simp add: rcur_def cursor_incr_def rev_or_not_mask [OF assms])
  also have "\<dots> = (unat (rev_bits v OR mask (64 - e)) + 1) mod 2 ^ 64"
    by (simp add: unat_word_ariths)
  also have "unat (rev_bits v OR mask (64 - e)) = rcur v OR mask (64 - e)"
    by (rule bit_eqI) (auto simp: rcur_def bit_simps)
  finally show ?thesis by (simp add: or_mask_nat add.commute)
qed

lemma pow64_split: "e \<le> 64 \<Longrightarrow> (2::nat) ^ 64 = 2 ^ e * 2 ^ (64 - e)"
  by (metis le_add_diff_inverse power_add)

lemma rcur_block_less: "e \<le> 64 \<Longrightarrow> rcur v div 2 ^ (64 - e) < 2 ^ e"
  using rcur_less [of v] pow64_split [of e] by (metis less_mult_imp_div_less)

lemma rcur_incr:
  assumes "e \<le> 64"
  shows "rcur (cursor_incr (mask e) v) =
    (let q = rcur v div 2 ^ (64 - e) in if Suc q = 2 ^ e then 0 else Suc q * 2 ^ (64 - e))"
proof -
  define n q where "n = 64 - e" and "q = rcur v div 2 ^ n"
  have q: "Suc q \<le> 2 ^ e" using rcur_block_less [OF assms, of v] by (simp add: q_def n_def)
  have r: "rcur (cursor_incr (mask e) v) = Suc q * 2 ^ n mod 2 ^ 64"
    using rcur_incr_mod [OF assms, of v] unfolding q_def n_def Suc_eq_plus1 .
  have p: "(2::nat) ^ 64 = 2 ^ e * 2 ^ n" using pow64_split [OF assms] by (simp only: n_def)
  have "Suc q * 2 ^ n mod 2 ^ 64 = (if Suc q = 2 ^ e then 0 else Suc q * 2 ^ n)"
  proof (cases "Suc q = 2 ^ e")
    case True
    then show ?thesis unfolding p by simp
  next
    case False
    with q have "Suc q < 2 ^ e" by simp
    then have "Suc q * 2 ^ n < 2 ^ e * 2 ^ n" by (rule mult_strict_right_mono) simp
    with False show ?thesis unfolding p by (simp only: mod_less if_False)
  qed
  then show ?thesis by (simp only: r Let_def n_def [symmetric] q_def [symmetric])
qed

lemma rcur_div: "rcur w div 2 ^ n = unat (drop_bit n (rev_bits w))"
  unfolding rcur_def unat_drop_bit_eq by (rule drop_bit_eq_div [symmetric])

lemma same_block_iff:
  assumes "e \<le> 64"
  shows "h AND mask e = v AND mask e \<longleftrightarrow> rcur h div 2 ^ (64 - e) = rcur v div 2 ^ (64 - e)"
proof -
  have "rcur h div 2 ^ (64 - e) = rcur v div 2 ^ (64 - e) \<longleftrightarrow>
      drop_bit (64 - e) (rev_bits h) = drop_bit (64 - e) (rev_bits v)"
    unfolding rcur_div word_unat_eq_iff ..
  also have "\<dots> \<longleftrightarrow> (\<forall>i < e. bit h i = bit v i)"
  proof
    assume eq: "drop_bit (64 - e) (rev_bits h) = drop_bit (64 - e) (rev_bits v)"
    show "\<forall>i < e. bit h i = bit v i"
    proof (intro allI impI)
      fix i assume i: "i < e"
      have "bit (drop_bit (64 - e) (rev_bits h)) (e - 1 - i) = bit (drop_bit (64 - e) (rev_bits v)) (e - 1 - i)"
        using eq by simp
      then show "bit h i = bit v i" using i assms by (simp add: bit_simps bit_rev_bits)
    qed
  next
    assume *: "\<forall>i < e. bit h i = bit v i"
    show "drop_bit (64 - e) (rev_bits h) = drop_bit (64 - e) (rev_bits v)"
    proof (rule bit_word_eqI)
      fix i assume "i < LENGTH(64)"
      show "bit (drop_bit (64 - e) (rev_bits h)) i = bit (drop_bit (64 - e) (rev_bits v)) i"
      proof (cases "i < e")
        case True
        then show ?thesis using * assms by (simp add: bit_simps bit_rev_bits)
      next
        case False
        then have "\<not> bit w (64 - e + i)" for w :: u64
          using assms by (auto dest: bit_imp_le_length)
        then show ?thesis by (simp add: bit_simps)
      qed
    qed
  qed
  also have "\<dots> \<longleftrightarrow> h AND mask e = v AND mask e"
    using assms by (auto simp: bit_eq_iff bit_simps dest: order_less_le_trans)
  finally show ?thesis by blast
qed

text \<open>A cursor step from \<open>v\<close> to \<open>v'\<close> covers the hash \<open>h\<close>.\<close>

definition covers :: "u64 \<Rightarrow> u64 \<Rightarrow> u64 \<Rightarrow> bool" where
  "covers v v' h \<longleftrightarrow> rcur v \<le> rcur h \<and> (rcur v' = 0 \<or> rcur h < rcur v')"

lemma covers_same_block:
  assumes "e \<le> 64" "covers v (cursor_incr (mask e) v) h"
  shows "h AND mask e = v AND mask e"
proof -
  define n q where "n = 64 - e" and "q = rcur v div 2 ^ n"
  have "q \<le> rcur h div 2 ^ n" using assms(2) by (simp add: covers_def q_def div_le_mono)
  moreover have "rcur h div 2 ^ n < Suc q"
  proof (cases "Suc q = 2 ^ e")
    case True
    then show ?thesis using rcur_block_less [OF assms(1), of h] by (simp add: n_def)
  next
    case False
    then have "rcur h < Suc q * 2 ^ n"
      using assms by (auto simp: covers_def rcur_incr Let_def q_def n_def)
    then show ?thesis by (rule less_mult_imp_div_less)
  qed
  ultimately show ?thesis using same_block_iff [OF assms(1), of h v] by (simp add: n_def q_def)
qed

lemma incr_progress:
  assumes "e \<le> 64"
  shows "rcur (cursor_incr (mask e) v) = 0 \<or> rcur v < rcur (cursor_incr (mask e) v)"
  using assms dividend_less_div_times [of "2 ^ (64 - e)" "rcur v"]
  by (auto simp: rcur_incr Let_def add.commute)

lemma dvd_rcur_iff:
  assumes "n \<le> 64"
  shows "2 ^ n dvd rcur v \<longleftrightarrow> (\<forall>i. 64 - n \<le> i \<and> i < 64 \<longrightarrow> \<not> bit v i)"
proof -
  have "2 ^ n dvd rcur v \<longleftrightarrow> (\<forall>i < n. \<not> bit (rev_bits v) i)"
    unfolding rcur_def take_bit_eq_0_iff [symmetric]
    by (auto simp: bit_eq_iff bit_simps)
  also have "\<dots> \<longleftrightarrow> (\<forall>i < n. \<not> bit v (63 - i))"
    using assms by (simp add: bit_rev_bits)
  also have "\<dots> \<longleftrightarrow> (\<forall>i. 64 - n \<le> i \<and> i < 64 \<longrightarrow> \<not> bit v i)"
  proof (intro iffI allI impI)
    fix i assume *: "\<forall>i < n. \<not> bit v (63 - i)" and i: "64 - n \<le> i \<and> i < 64"
    then have "63 - i < n" "63 - (63 - i) = i" by auto
    with * show "\<not> bit v i" by metis
  next
    fix i assume *: "\<forall>i. 64 - n \<le> i \<and> i < 64 \<longrightarrow> \<not> bit v i" and i: "i < n"
    have "64 - n \<le> 63 - i \<and> 63 - i < 64" using i assms by auto
    with * show "\<not> bit v (63 - i)" by blast
  qed
  finally show ?thesis .
qed

lemma mask_xor_iff:
  assumes "e0 \<le> e1" "e1 \<le> 64"
  shows "(v :: u64) AND (mask e0 XOR mask e1) = 0 \<longleftrightarrow> (\<forall>i. e0 \<le> i \<and> i < e1 \<longrightarrow> \<not> bit v i)"
proof -
  have "(v AND (mask e0 XOR mask e1) = 0) = (\<forall>i < 64. bit v i \<longrightarrow> (i < e0 \<longleftrightarrow> i < e1))"
    by (auto simp: bit_eq_iff bit_simps)
  also have "\<dots> \<longleftrightarrow> (\<forall>i. e0 \<le> i \<and> i < e1 \<longrightarrow> \<not> bit v i)"
    using assms by (auto simp: not_less [symmetric])
  finally show ?thesis .
qed

lemma expand_zero_iff:
  assumes "e0 \<le> e1" "e1 \<le> 64" "2 ^ (64 - e1) dvd rcur v"
  shows "v AND (mask e0 XOR mask e1) = 0 \<longleftrightarrow> 2 ^ (64 - e0) dvd rcur v"
proof -
  have "\<forall>i. e1 \<le> i \<and> i < 64 \<longrightarrow> \<not> bit v i"
    using assms dvd_rcur_iff [of "64 - e1" v] by simp
  then show ?thesis
    using assms dvd_rcur_iff [of "64 - e0" v]
    by (auto simp: mask_xor_iff) (metis linorder_not_less)
qed

lemma next_multiple:
  fixes x A B C :: nat
  assumes "A = B * C" "0 < B" "0 < C"
  defines "y \<equiv> Suc (x div B) * B"
  shows "x div A * A < y" "y \<le> Suc (x div A) * A" "x < y"
    "A dvd y \<Longrightarrow> y = Suc (x div A) * A" "\<not> A dvd y \<Longrightarrow> y div A = x div A"
proof -
  have q: "x div A = x div B div C" by (simp add: assms(1) div_mult2_eq)
  show xy: "x < y"
    using dividend_less_div_times [of B x] assms(2) by (simp add: y_def add.commute)
  have "x div A * A \<le> x" by simp
  with xy show lo: "x div A * A < y" by linarith
  have "Suc (x div B) \<le> Suc (x div A) * C"
    using dividend_less_div_times [of C "x div B"] assms(3) by (simp add: q)
  from mult_le_mono1 [OF this, of B] show hi: "y \<le> Suc (x div A) * A"
    by (simp only: y_def assms(1) mult.assoc mult.commute [of B C])
  show "y = Suc (x div A) * A" if "A dvd y"
  proof -
    from that obtain k where k: "y = k * A" by (metis dvd_def mult.commute)
    have "0 < A" using assms by simp
    with lo hi k have "x div A < k" "k \<le> Suc (x div A)" by (simp_all only: mult_less_cancel2 mult_le_cancel2)
    then show ?thesis using k by (metis le_Suc_eq not_le)
  qed
  show "y div A = x div A" if "\<not> A dvd y"
  proof -
    have "y \<noteq> Suc (x div A) * A" using that by (metis dvd_triv_right)
    with hi have "y < Suc (x div A) * A" by simp
    then have "y div A < Suc (x div A)" by (rule less_mult_imp_div_less)
    moreover have "x div A \<le> y div A" using xy by (simp add: div_le_mono)
    ultimately show ?thesis by simp
  qed
qed

lemma expand_step:
  fixes v :: u64
  assumes "e0 \<le> e1" "e1 \<le> 64"
  defines "v1 \<equiv> cursor_incr (mask e1) v"
  shows "v1 AND (mask e0 XOR mask e1) = 0 \<Longrightarrow> v1 = cursor_incr (mask e0) v"
    and "v1 AND (mask e0 XOR mask e1) \<noteq> 0 \<Longrightarrow>
      cursor_incr (mask e0) v1 = cursor_incr (mask e0) v \<and> rcur v < rcur v1"
proof -
  define A B C :: nat where "A = 2 ^ (64 - e0)" and "B = 2 ^ (64 - e1)" and "C = 2 ^ (e1 - e0)"
  define y where "y = Suc (rcur v div B) * B"
  have e0: "e0 \<le> 64" using assms by simp
  have ABC: "A = B * C" using assms by (simp add: A_def B_def C_def flip: power_add)
  have pos: "0 < B" "0 < C" by (simp_all add: B_def C_def)
  note nm = next_multiple [OF ABC pos, of "rcur v", folded y_def]
  have p0: "(2::nat) ^ 64 = 2 ^ e0 * A" and p1: "(2::nat) ^ 64 = 2 ^ e1 * B"
    unfolding A_def B_def using pow64_split [OF e0] pow64_split [OF assms(2)] .
  have incr0: "rcur (cursor_incr (mask e0) w) =
      (if Suc (rcur w div A) = 2 ^ e0 then 0 else Suc (rcur w div A) * A)" for w
    using rcur_incr [OF e0, of w] by (simp only: A_def Let_def)
  have incr1: "rcur v1 = (if Suc (rcur v div B) = 2 ^ e1 then 0 else y)"
    using rcur_incr [OF assms(2), of v] by (simp only: y_def v1_def B_def Let_def)
  have "B dvd rcur v1" using incr1 by (simp add: y_def)
  then have test: "v1 AND (mask e0 XOR mask e1) = 0 \<longleftrightarrow> A dvd rcur v1"
    using expand_zero_iff [OF assms(1,2), of v1] by (simp only: A_def B_def)
  have q0: "Suc (rcur v div A) \<le> 2 ^ e0"
    using rcur_block_less [OF e0, of v] by (simp only: A_def Suc_leI)
  show "v1 = cursor_incr (mask e0) v" if "v1 AND (mask e0 XOR mask e1) = 0"
  proof (cases "Suc (rcur v div B) = 2 ^ e1")
    case True
    then have "y = 2 ^ e0 * A" using p0 p1 by (simp only: y_def)
    with nm(2) have "2 ^ e0 \<le> Suc (rcur v div A)" using pos ABC by (simp only: mult_le_cancel2) simp
    with q0 show ?thesis
      using True incr0 [of v] incr1 by (simp only: rcur_inj [symmetric] if_True le_antisym)
  next
    case False
    then have "A dvd y" using that test incr1 by simp
    then have yA: "y = Suc (rcur v div A) * A" by (rule nm(4))
    have "y < 2 ^ 64" using incr1 False rcur_less [of v1] by simp
    then have "Suc (rcur v div A) \<noteq> 2 ^ e0" using yA p0 by (metis less_irrefl)
    then show ?thesis using False incr0 [of v] incr1 yA by (simp only: rcur_inj [symmetric] if_False)
  qed
  show "cursor_incr (mask e0) v1 = cursor_incr (mask e0) v \<and> rcur v < rcur v1"
    if "v1 AND (mask e0 XOR mask e1) \<noteq> 0"
  proof -
    have "rcur v1 \<noteq> 0" using that test by (metis dvd_0_right)
    then have y: "rcur v1 = y" using incr1 by (auto split: if_splits)
    then have "y div A = rcur v div A" using that test nm(5) by simp
    then show ?thesis using incr0 [of v1] incr0 [of v] y nm(3) by (simp add: rcur_inj [symmetric])
  qed
qed

subsection \<open>One scan call\<close>

lemma ht_mask:
  assumes "ht_ok hash h" "table h \<noteq> []"
  obtains e where "e \<le> 60" "sizemask h = mask e" "size_ht h = 2 ^ e"
  using assms by (auto simp: ht_ok_def ht_shape_def)

lemma emit_ok:
  assumes "ht_ok hash h" "table h \<noteq> []"
  shows "\<exists>es. emit h v = Some es \<and> set es \<subseteq> set (concat (table h)) \<and>
    (\<forall>k x. (k, x) \<in> set (concat (table h)) \<and> hash k AND sizemask h = v AND sizemask h \<longrightarrow> (k, x) \<in> set es)"
proof -
  have i: "unat (v AND sizemask h) < length (table h)"
    using hash_index_less [OF ht_okD(1) [OF assms(1)] assms(2), of "\<lambda>_. v"] by (simp add: hash_index_def)
  have "(k, x) \<in> set (table h ! unat (v AND sizemask h))"
    if "(k, x) \<in> set (concat (table h))" "hash k AND sizemask h = v AND sizemask h" for k x
    using entry_in_bucket [OF assms(1) that(1)] that(2) by (simp add: hash_index_def)
  moreover have "set (table h ! unat (v AND sizemask h)) \<subseteq> set (concat (table h))"
    using i nth_mem by fastforce
  ultimately show ?thesis using i by (auto simp: emit_def bucket_Some)
qed

lemma scan_expand_ok:
  assumes "ht_ok hash h" "table h \<noteq> []" "sizemask h = mask e1" "e0 \<le> e1" "e1 \<le> 60"
  shows "\<exists>es. scan_expand h (mask e0) v = Some (cursor_incr (mask e0) v, es) \<and>
    set es \<subseteq> set (concat (table h)) \<and>
    (\<forall>k x. (k, x) \<in> set (concat (table h)) \<and> covers v (cursor_incr (mask e0) v) (hash k) \<longrightarrow> (k, x) \<in> set es)"
proof (induction "2 ^ 64 - rcur v" arbitrary: v rule: less_induct)
  case less
  have e: "e0 \<le> e1" "e1 \<le> 64" using assms by auto
  define v1 where "v1 = cursor_incr (mask e1) v"
  from emit_ok [OF assms(1,2), of v] obtain es where
    es: "emit h v = Some es" "set es \<subseteq> set (concat (table h))"
      "\<And>k x. (k, x) \<in> set (concat (table h)) \<Longrightarrow> hash k AND mask e1 = v AND mask e1 \<Longrightarrow> (k, x) \<in> set es"
    using assms(3) by auto
  have here: "(k, x) \<in> set es" if "(k, x) \<in> set (concat (table h))" "covers v v1 (hash k)" for k x
    using es(3) [OF that(1)] covers_same_block [OF e(2)] that(2) by (simp add: v1_def)
  note step = expand_step [OF e, of v, folded v1_def]
  note unf = scan_expand.simps [of h "mask e0" v] es(1) assms(3)
  show ?case
  proof (cases "v1 AND (mask e0 XOR mask e1) = 0")
    case True
    then have "scan_expand h (mask e0) v = Some (v1, es)" by (simp add: unf v1_def Let_def)
    with step(1) [OF True] es(2) here show ?thesis by auto
  next
    case False
    from step(2) [OF False] have s: "cursor_incr (mask e0) v1 = cursor_incr (mask e0) v" "rcur v < rcur v1"
      by auto
    then have "2 ^ 64 - rcur v1 < 2 ^ 64 - rcur v" using rcur_less [of v1] by linarith
    from less.hyps [OF this] obtain es2 where
      es2: "scan_expand h (mask e0) v1 = Some (cursor_incr (mask e0) v, es2)" "set es2 \<subseteq> set (concat (table h))"
      "\<And>k x. (k, x) \<in> set (concat (table h)) \<Longrightarrow> covers v1 (cursor_incr (mask e0) v) (hash k) \<Longrightarrow> (k, x) \<in> set es2"
      unfolding s(1) by auto
    have "scan_expand h (mask e0) v = Some (cursor_incr (mask e0) v, es @ es2)"
      using False es2(1) by (simp add: unf v1_def Let_def)
    moreover have "(k, x) \<in> set (es @ es2)"
      if "(k, x) \<in> set (concat (table h))" "covers v (cursor_incr (mask e0) v) (hash k)" for k x
      using here [OF that(1)] es2(3) [OF that(1)] that(2)
      by (cases "rcur v1 \<le> rcur (hash k)") (auto simp: covers_def)
    ultimately show ?thesis using es(2) es2(2) by auto
  qed
qed

lemma scan_two:
  fixes h0 h1 :: "('k, 'v) dictht"
  assumes h: "ht_ok hash h0" "table h0 \<noteq> []" "sizemask h0 = mask e0" "ht_ok hash h1" "table h1 \<noteq> []"
    "sizemask h1 = mask e1" "e0 \<le> e1" "e1 \<le> 60"
  shows "\<exists>es. do { es0 \<leftarrow> emit h0 v; (v', es1) \<leftarrow> scan_expand h1 (sizemask h0) v; Some (v', es0 @ es1) } =
        Some (cursor_incr (mask e0) v, es) \<and>
      set es \<subseteq> set (concat (table h0)) \<union> set (concat (table h1)) \<and>
      (\<forall>k x. (k, x) \<in> set (concat (table h0)) \<union> set (concat (table h1)) \<and>
        covers v (cursor_incr (mask e0) v) (hash k) \<longrightarrow> (k, x) \<in> set es)"
proof -
  from emit_ok [OF h(1,2), of v] obtain es0 where
    es0: "emit h0 v = Some es0" "set es0 \<subseteq> set (concat (table h0))"
      "\<And>k x. (k, x) \<in> set (concat (table h0)) \<Longrightarrow> hash k AND mask e0 = v AND mask e0 \<Longrightarrow> (k, x) \<in> set es0"
    using h(3) by auto
  from scan_expand_ok [OF h(4-8), of v] obtain es1 where
    es1: "scan_expand h1 (mask e0) v = Some (cursor_incr (mask e0) v, es1)" "set es1 \<subseteq> set (concat (table h1))"
      "\<And>k x. (k, x) \<in> set (concat (table h1)) \<Longrightarrow> covers v (cursor_incr (mask e0) v) (hash k) \<Longrightarrow> (k, x) \<in> set es1"
    by auto
  have "e0 \<le> 64" using h(7,8) by simp
  note block = covers_same_block [OF this]
  have all: "(k, x) \<in> set (es0 @ es1)"
    if "(k, x) \<in> set (concat (table h0)) \<union> set (concat (table h1))"
      "covers v (cursor_incr (mask e0) v) (hash k)" for k x
    using that(1)
  proof (rule UnE)
    assume "(k, x) \<in> set (concat (table h0))"
    from es0(3) [OF this block [OF that(2)]] show ?thesis by simp
  next
    assume "(k, x) \<in> set (concat (table h1))"
    from es1(3) [OF this that(2)] show ?thesis by simp
  qed
  have "do { es0 \<leftarrow> emit h0 v; (v', es1) \<leftarrow> scan_expand h1 (sizemask h0) v; Some (v', es0 @ es1) } =
      Some (cursor_incr (mask e0) v, es0 @ es1)"
    by (simp add: es0(1) es1(1) h(3))
  moreover have "set (es0 @ es1) \<subseteq> set (concat (table h0)) \<union> set (concat (table h1))"
    using es0(2) es1(2) unfolding set_append by blast
  ultimately show ?thesis using all by blast
qed

text \<open>The mask that governs the cursor: the one of the smaller table.\<close>

definition scan_bits :: "('k, 'v) dict \<Rightarrow> nat \<Rightarrow> bool" where
  "scan_bits d e \<longleftrightarrow>
     (if dictIsRehashing d then 2 ^ e = min (size_ht (ht0 d)) (size_ht (ht1 d)) else 2 ^ e = size_ht (ht0 d))"

lemma dictScan_ok:
  assumes inv: "dict_invar hash d" and ne: "dict_entries d \<noteq> []"
  shows "\<exists>e es. e \<le> 60 \<and> scan_bits d e \<and> dictScan d v = Some (cursor_incr (mask e) v, es) \<and>
    set es \<subseteq> set (dict_entries d) \<and>
    (\<forall>k x. (k, x) \<in> set (dict_entries d) \<and> covers v (cursor_incr (mask e) v) (hash k) \<longrightarrow> (k, x) \<in> set es)"
proof -
  note ht = dict_invar_ht [OF inv]
  have t0: "table (ht0 d) \<noteq> []" by (rule entries_table [OF inv ne])
  obtain a where a: "a \<le> 60" "sizemask (ht0 d) = mask a" "size_ht (ht0 d) = 2 ^ a"
    using ht_mask [OF ht(1) t0] .
  have size: "dictSize d \<noteq> 0" using dictSize_entries [OF inv] ne by simp
  show ?thesis
  proof (cases "dictIsRehashing d")
    case False
    have ents: "dict_entries d = concat (table (ht0 d))"
      using ht(5) [OF False] by (simp add: dict_entries_def dictReset_def)
    from emit_ok [OF ht(1) t0, of v] obtain es where
      es: "emit (ht0 d) v = Some es" "set es \<subseteq> set (concat (table (ht0 d)))"
      "\<And>k x. (k, x) \<in> set (concat (table (ht0 d))) \<Longrightarrow> hash k AND mask a = v AND mask a \<Longrightarrow> (k, x) \<in> set es"
      using a by auto
    have "dictScan d v = Some (cursor_incr (mask a) v, es)"
      using False size es a by (simp add: dictScan_def)
    moreover have "scan_bits d a" using False a by (simp add: scan_bits_def)
    moreover have "(k, x) \<in> set es" if "(k, x) \<in> set (dict_entries d)" "covers v (cursor_incr (mask a) v) (hash k)" for k x
      using es(3) that covers_same_block [of a] a ents by simp
    ultimately show ?thesis using a es ents by auto
  next
    case True
    then have t1: "table (ht1 d) \<noteq> []" using ht(4) by simp
    obtain b where b: "b \<le> 60" "sizemask (ht1 d) = mask b" "size_ht (ht1 d) = 2 ^ b"
      using ht_mask [OF ht(2) t1] .
    have ents: "set (dict_entries d) = set (concat (table (ht0 d))) \<union> set (concat (table (ht1 d)))"
      unfolding dict_entries_def set_append ..
    show ?thesis
    proof (cases "size_ht (ht0 d) > size_ht (ht1 d)")
      case swap: True
      then have ba: "b \<le> a" using a b by simp
      have sc: "dictScan d v = do { es0 \<leftarrow> emit (ht1 d) v; (v', es1) \<leftarrow> scan_expand (ht0 d) (sizemask (ht1 d)) v; Some (v', es0 @ es1) }"
        using True size swap by (simp add: dictScan_def)
      have "scan_bits d b" using True swap a b by (simp add: scan_bits_def)
      with scan_two [OF ht(2) t1 b(2) ht(1) t0 a(2) ba a(1), of v, folded sc] b(1) show ?thesis
        unfolding ents by blast
    next
      case False
      then have ab: "a \<le> b" using a b by simp
      have sc: "dictScan d v = do { es0 \<leftarrow> emit (ht0 d) v; (v', es1) \<leftarrow> scan_expand (ht1 d) (sizemask (ht0 d)) v; Some (v', es0 @ es1) }"
        using True size False by (simp add: dictScan_def)
      have "scan_bits d a" using True False a b by (simp add: scan_bits_def)
      with scan_two [OF ht(1) t0 a(2) ht(2) t1 b(2) ab b(1), of v, folded sc] a(1) show ?thesis
        unfolding ents by blast
    qed
  qed
qed

subsection \<open>Complete iterations\<close>

text \<open>
  The calls of a client that feeds back the returned cursor; the list holds the state of the
  dictionary at each call.
\<close>

fun scan_calls :: "('k, 'v) dict list \<Rightarrow> u64 \<Rightarrow> (u64 \<times> ('k \<times> 'v) list) option" where
  "scan_calls [] v = Some (v, [])"
| "scan_calls (d # ds) v = do {
     (v1, es1) \<leftarrow> dictScan d v;
     (v2, es2) \<leftarrow> scan_calls ds v1;
     Some (v2, es1 @ es2)
   }"

lemma rcur_0 [simp]: "rcur 0 = 0"
proof -
  have "rev_bits 0 = 0" by (rule bit_word_eqI) (simp add: bit_rev_bits)
  then show ?thesis by (simp add: rcur_def)
qed

lemma rcur_0_iff [simp]: "rcur v = 0 \<longleftrightarrow> v = 0"
  using rcur_inj [of v 0] by simp

lemma scan_bits_unique: "scan_bits d e \<Longrightarrow> scan_bits d e' \<Longrightarrow> e = e'"
proof -
  assume "scan_bits d e" "scan_bits d e'"
  then have "(2::nat) ^ e = 2 ^ e'" unfolding scan_bits_def by presburger
  then show "e = e'" by simp
qed

lemma scan_calls_emit:
  assumes "\<forall>d \<in> set ds. dict_invar hash d \<and> k \<in> dom (dict_map d)" "ds \<noteq> []"
    and "scan_calls ds v = Some (0, es)" "rcur v \<le> rcur (hash k)"
  shows "\<exists>d \<in> set ds. \<exists>x. dict_map d k = Some x \<and> (k, x) \<in> set es"
  using assms
proof (induction ds arbitrary: v es)
  case (Cons d ds)
  then obtain x where inv: "dict_invar hash d" and x: "dict_map d k = Some x" by auto
  then have mem: "(k, x) \<in> set (dict_entries d)" using dict_map_iff [OF inv] by simp
  then have "dict_entries d \<noteq> []" by auto
  from dictScan_ok [OF inv this, of v] obtain e es1 where
    e: "e \<le> 60" and sc: "dictScan d v = Some (cursor_incr (mask e) v, es1)" and
    all: "\<And>k x. (k, x) \<in> set (dict_entries d) \<Longrightarrow> covers v (cursor_incr (mask e) v) (hash k) \<Longrightarrow> (k, x) \<in> set es1"
    by blast
  define v1 where "v1 = cursor_incr (mask e) v"
  from Cons.prems(3) sc obtain es2 where
    es2: "scan_calls ds v1 = Some (0, es2)" "es = es1 @ es2"
    by (auto simp: v1_def split: bind_splits)
  show ?case
  proof (cases "covers v v1 (hash k)")
    case True
    then show ?thesis using all [OF mem] x es2(2) by (auto simp: v1_def)
  next
    case False
    then have v1: "v1 \<noteq> 0" "rcur v1 \<le> rcur (hash k)"
      using Cons.prems(4) by (auto simp: covers_def)
    then have "ds \<noteq> []" using es2(1) by auto
    from Cons.IH [OF _ this es2(1) v1(2)] Cons.prems(1) es2(2) show ?thesis by auto
  qed
qed simp

text \<open>
  C10: a complete iteration with \<open>dictScan\<close>, from cursor 0 until cursor 0 is returned, reports
  every key that is in the dictionary during all of its calls, even though between the calls
  the tables may grow, shrink, start or finish rehashing, and entries may come and go.
\<close>

theorem dictScan_complete:
  assumes "\<forall>d \<in> set ds. dict_invar hash d \<and> k \<in> dom (dict_map d)" "ds \<noteq> []"
    and "scan_calls ds 0 = Some (0, es)"
  shows "\<exists>d \<in> set ds. \<exists>x. dict_map d k = Some x \<and> (k, x) \<in> set es"
  using scan_calls_emit [OF assms] by simp

lemma scan_calls_snoc:
  "scan_calls (ds @ [d]) v = do {
     (v1, es1) \<leftarrow> scan_calls ds v;
     (v2, es2) \<leftarrow> dictScan d v1;
     Some (v2, es1 @ es2)
   }"
proof (induction ds arbitrary: v)
  case Nil
  then show ?case by (cases "dictScan d v") auto
next
  case (Cons d' ds)
  then show ?case by (cases "dictScan d' v") (auto split: bind_splits)
qed

lemma scan_calls_cursor:
  assumes inv: "dict_invar hash d" and ne: "dict_entries d \<noteq> []" and e: "scan_bits d e" "e \<le> 60"
  shows "j \<le> 2 ^ e \<Longrightarrow> \<exists>v es. scan_calls (replicate j d) 0 = Some (v, es) \<and>
    set es \<subseteq> set (dict_entries d) \<and> rcur v = (if j = 2 ^ e then 0 else j * 2 ^ (64 - e))"
proof (induction j)
  case (Suc j)
  then obtain v es where v: "scan_calls (replicate j d) 0 = Some (v, es)" "set es \<subseteq> set (dict_entries d)"
    "rcur v = j * 2 ^ (64 - e)" by (auto split: if_splits)
  from dictScan_ok [OF inv ne, of v] obtain e' es1 where
    es1: "scan_bits d e'" "dictScan d v = Some (cursor_incr (mask e') v, es1)" "set es1 \<subseteq> set (dict_entries d)"
    by blast
  have "e' = e" using scan_bits_unique es1(1) e(1) by blast
  moreover have "rcur (cursor_incr (mask e) v) = (if Suc j = 2 ^ e then 0 else Suc j * 2 ^ (64 - e))"
    using e(2) v(3) by (simp add: rcur_incr Let_def)
  moreover have "replicate (Suc j) d = replicate j d @ [d]" by (simp add: replicate_append_same)
  ultimately show ?case
    using v es1 by (auto simp: scan_calls_snoc simp del: replicate_Suc)
qed simp

lemma scan_returns:
  assumes "dict_invar hash d"
  shows "\<exists>n es. 0 < n \<and> n \<le> max 1 (size_ht (ht0 d)) \<and>
    scan_calls (replicate n d) 0 = Some (0, es) \<and> set es = set (dict_entries d)"
proof (cases "dict_entries d = []")
  case True
  then have "dictScan d 0 = Some (0, [])"
    using dictSize_entries [OF assms] by (simp add: dictScan_def)
  with True show ?thesis by (intro exI [of _ 1] exI [of _ "[]"]) simp
next
  case False
  from dictScan_ok [OF assms False] obtain e where e: "scan_bits d e" "e \<le> 60" by blast
  from scan_calls_cursor [OF assms False e, of "2 ^ e"] obtain es where
    es: "scan_calls (replicate (2 ^ e) d) 0 = Some (0, es)" "set es \<subseteq> set (dict_entries d)" by auto
  have "(k, x) \<in> set es" if "(k, x) \<in> set (dict_entries d)" for k x
  proof -
    have m: "dict_map d k = Some x" using that dict_map_iff [OF assms] by simp
    then show ?thesis
      using scan_calls_emit [OF _ _ es(1), of hash k] assms by (auto simp: dom_def)
  qed
  with es(2) have "set es = set (dict_entries d)" by auto
  moreover have "2 ^ e \<le> size_ht (ht0 d)" using e(1) by (auto simp: scan_bits_def split: if_splits)
  ultimately show ?thesis using es(1) by (intro exI [of _ "2 ^ e"] exI [of _ es]) simp
qed

text \<open>
  C19: on a dictionary that does not change, the iteration from cursor 0 comes back to cursor 0
  after at most as many calls as the main table has buckets, without leaving a table, and
  reports exactly the entries.
\<close>

theorem dictScan_terminates:
  assumes "dict_invar hash d"
  shows "\<exists>n es. 0 < n \<and> n \<le> max 1 (size_ht (ht0 d)) \<and>
    scan_calls (replicate n d) 0 = Some (0, es) \<and> set es = set (dict_entries d)"
  by (rule scan_returns [OF assms])

theorem dictScan_terminates_witness:
  "\<exists>n es. 0 < n \<and> n \<le> 4 \<and>
    scan_calls (replicate n rehashing_dict) 0 = Some (0, es) \<and> set es = {(0, 5), (1, 6)}"
  using dictScan_terminates [OF rehashing_dict_invar]
  by (simp add: rehashing_dict_def dict_entries_def)

text \<open>The same two entries before the rehashing has started.\<close>

definition small_dict :: "(nat, nat) dict" where
  "small_dict = \<lparr>ht0 = \<lparr>table = [[(0, 5)], [(1, 6)], [], []], size_ht = 4, sizemask = 3, used = 2\<rparr>,
     ht1 = dictReset, rehashidx = -1, iterators = 0\<rparr>"

lemma small_dict_invar: "dict_invar of_nat small_dict"
proof -
  have "\<exists>e\<le>60. (4::nat) = 2 ^ e \<and> (3::u64) = mask e"
    by (rule exI [of _ 2]) (simp add: mask_eq_exp_minus_1)
  then show ?thesis
    by (simp add: small_dict_def dict_invar_def dictIsRehashing_def ht_ok_def
        ht_shape_def dict_entries_def hash_index_def dictReset_def numeral_eq_Suc All_less_Suc)
qed

lemma rev_bits_eqI:
  assumes "\<forall>i \<in> set [0..<64]. bit w i = bit v (63 - i)"
  shows "rev_bits v = w"
  by (rule bit_word_eqI) (use assms in \<open>simp add: bit_rev_bits\<close>)

lemma rev_bits_sym: "rev_bits v = w \<Longrightarrow> rev_bits w = v"
  by (metis rev_bits_rev_bits)

lemma rev_small:
  "rev_bits 0 = 0" "rev_bits 1 = 0x8000000000000000" "rev_bits 2 = 0x4000000000000000"
  "rev_bits 3 = 0xC000000000000000" "rev_bits 5 = 0xA000000000000000" "rev_bits 7 = 0xE000000000000000"
  by (rule rev_bits_eqI, simp add: upt_rec)+

lemmas rev_large = rev_small [THEN rev_bits_sym]

lemma wrap_2_64: "(0x10000000000000000 :: u64) = 0"
  by (simp add: word_eq_iff_unsigned)

lemma scan_cursors:
  "cursor_incr 3 0 = 2" "cursor_incr 3 2 = 1" "cursor_incr 7 1 = 5" "cursor_incr 7 5 = 3"
  "cursor_incr 7 3 = 7" "cursor_incr 7 7 = 0"
  using rev_or_not_mask [of 2 0] rev_or_not_mask [of 2 2] rev_or_not_mask [of 3 1]
    rev_or_not_mask [of 3 5] rev_or_not_mask [of 3 3] rev_or_not_mask [of 3 7]
  by (simp_all add: cursor_incr_def mask_eq_exp_minus_1 rev_small rev_large wrap_2_64)

lemma mixed_scan:
  "scan_calls [small_dict, small_dict, rehashing_dict, rehashing_dict] 0 = Some (0, [(0, 5), (1, 6)])"
  by (simp add: small_dict_def rehashing_dict_def dictScan_def dictSize_def dictIsRehashing_def
      emit_def bucket_def scan_cursors scan_expand.simps [of _ 3] dictReset_def)

theorem dictScan_complete_witness:
  "\<exists>d \<in> {small_dict, rehashing_dict}. \<exists>x. dict_map d 1 = Some x \<and> (1, x) \<in> set [(0, 5), (1, 6)]"
  using dictScan_complete [of "[small_dict, small_dict, rehashing_dict, rehashing_dict]" of_nat 1,
      OF _ _ mixed_scan] small_dict_invar rehashing_dict_invar
  by (simp add: small_dict_def rehashing_dict_def dict_map_def dict_entries_def dictReset_def dom_def)

end
