(* ===== verification/Dict_Iter.thy ===== *)
theory Dict_Iter
  imports Dict
begin

unbundle bit_operations_syntax

text \<open>
  Iterators over a dictionary and the sampling of random entries.
\<close>

subsection \<open>Iterators\<close>

text \<open>
  The fingerprint mixes the table addresses, sizes and counts in 64-bit signed arithmetic
  (\<open>>>\<close> is the arithmetic shift); \<open>addr0\<close> and \<open>addr1\<close> are the addresses of the tables.
\<close>

definition wang_mix :: "u64 \<Rightarrow> u64" where
  "wang_mix h0 =
     (let h1 = NOT h0 + push_bit 21 h0;
          h2 = h1 XOR signed_drop_bit 24 h1;
          h3 = (h2 + push_bit 3 h2) + push_bit 8 h2;
          h4 = h3 XOR signed_drop_bit 14 h3;
          h5 = (h4 + push_bit 2 h4) + push_bit 4 h4;
          h6 = h5 XOR signed_drop_bit 28 h5
      in h6 + push_bit 31 h6)"

definition dictFingerprint :: "u64 \<Rightarrow> u64 \<Rightarrow> ('k, 'v) dict \<Rightarrow> u64" where
  "dictFingerprint addr0 addr1 d =
     foldl (\<lambda>hash i. wang_mix (hash + i)) 0
       [addr0, of_nat (size_ht (ht0 d)), of_nat (used (ht0 d)),
        addr1, of_nat (size_ht (ht1 d)), of_nat (used (ht1 d))]"

record dictIterator =
  index :: int
  second :: bool
  safe :: bool
  entry :: "entry_ref option"
  nextEntry :: "entry_ref option"
  fingerprint :: u64

text \<open>The fingerprint field is uninitialised until the first step.\<close>

definition dictGetIterator :: "u64 \<Rightarrow> dictIterator" where
  "dictGetIterator junk =
     \<lparr>index = -1, second = False, safe = False, entry = None, nextEntry = None, fingerprint = junk\<rparr>"

definition dictGetSafeIterator :: "u64 \<Rightarrow> dictIterator" where
  "dictGetSafeIterator junk = (dictGetIterator junk)\<lparr>safe := True\<rparr>"

definition chain_ref :: "('k, 'v) dict \<Rightarrow> entry_ref \<Rightarrow> entry_ref option option" where
  "chain_ref d r = (case r of (t, i, j) \<Rightarrow>
     do { c \<leftarrow> bucket (ht_of d t) i; Some (if j < length c then Some r else None) })"

text \<open>One pass of the \<open>while (1)\<close> loop up to the test of \<open>iter->entry\<close>; \<open>False\<close> is the \<open>break\<close>.\<close>

definition next_pass :: "('k, 'v) dict \<Rightarrow> dictIterator \<Rightarrow> (dictIterator \<times> bool) option" where
  "next_pass d it =
     (case entry it of
        None \<Rightarrow>
          (let it1 = it\<lparr>index := index it + 1\<rparr>
           in if index it1 \<ge> int (size_ht (ht_of d (second it1)))
              then if dictIsRehashing d \<and> \<not> second it1
                   then do {
                     let it2 = it1\<lparr>second := True, index := 0\<rparr>;
                     e \<leftarrow> chain_ref d (True, 0, 0);
                     Some (it2\<lparr>entry := e\<rparr>, True)
                   }
                   else Some (it1, False)
              else do {
                e \<leftarrow> chain_ref d (second it1, nat (index it1), 0);
                Some (it1\<lparr>entry := e\<rparr>, True)
              })
      | Some _ \<Rightarrow> Some (it\<lparr>entry := nextEntry it\<rparr>, True))"

definition iter_start :: "u64 \<Rightarrow> u64 \<Rightarrow> ('k, 'v) dict \<Rightarrow> dictIterator \<Rightarrow>
    ('k, 'v) dict \<times> dictIterator" where
  "iter_start addr0 addr1 d it =
     (if entry it = None \<and> index it = -1 \<and> \<not> second it
      then if safe it then (d\<lparr>iterators := iterators d + 1\<rparr>, it)
           else (d, it\<lparr>fingerprint := dictFingerprint addr0 addr1 d\<rparr>)
      else (d, it))"

partial_function (option) next_loop :: "('k, 'v) dict \<Rightarrow> dictIterator \<Rightarrow>
    (dictIterator \<times> entry_ref option) option" where
  "next_loop d it = do {
     (it1, continue) \<leftarrow> next_pass d it;
     if \<not> continue then Some (it1, None)
     else case entry it1 of
       Some (t, i, j) \<Rightarrow> do {
         nx \<leftarrow> chain_ref d (t, i, j + 1);
         Some (it1\<lparr>nextEntry := nx\<rparr>, Some (t, i, j))
       }
     | None \<Rightarrow> next_loop d it1
   }"

text \<open>
  The registration of a fresh iterator is inside the loop of the code, under a condition that
  holds on the first pass of the first call only.
\<close>

definition dictNext :: "u64 \<Rightarrow> u64 \<Rightarrow> ('k, 'v) dict \<Rightarrow> dictIterator \<Rightarrow>
    (('k, 'v) dict \<times> dictIterator \<times> entry_ref option) option" where
  "dictNext addr0 addr1 d it =
     (let (d1, it1) = iter_start addr0 addr1 d it
      in map_option (\<lambda>(it2, r). (d1, it2, r)) (next_loop d1 it1))"

definition dictReleaseIterator :: "u64 \<Rightarrow> u64 \<Rightarrow> ('k, 'v) dict \<Rightarrow> dictIterator \<Rightarrow> ('k, 'v) dict option" where
  "dictReleaseIterator addr0 addr1 d it =
     (if \<not> (index it = -1 \<and> \<not> second it)
      then if safe it then Some (d\<lparr>iterators := iterators d - 1\<rparr>)
           else if fingerprint it = dictFingerprint addr0 addr1 d then Some d
           else None
      else Some d)"

subsection \<open>Random keys\<close>









subsection \<open>Iterators visit every entry once\<close>

definition after :: "('k, 'v) dict \<Rightarrow> bool \<Rightarrow> nat \<Rightarrow> ('k \<times> 'v) list" where
  "after d t i = concat (drop i (table (ht_of d t))) @
     (if \<not> t \<and> dictIsRehashing d then concat (table (ht1 d)) else [])"

text \<open>The entries an iterator has still to return.\<close>

definition remaining :: "('k, 'v) dict \<Rightarrow> dictIterator \<Rightarrow> ('k \<times> 'v) list" where
  "remaining d it = (case entry it of
      None \<Rightarrow> after d (second it) (nat (index it + 1))
    | Some (t, i, j) \<Rightarrow> drop (j + 1) (table (ht_of d t) ! i) @ after d t (i + 1))"

definition iter_ok :: "('k, 'v) dict \<Rightarrow> dictIterator \<Rightarrow> bool" where
  "iter_ok d it \<longleftrightarrow> (case entry it of
      None \<Rightarrow> -1 \<le> index it
    | Some (t, i, j) \<Rightarrow> t = second it \<and> int i = index it \<and> i < length (table (ht_of d t)) \<and>
        j < length (table (ht_of d t) ! i) \<and>
        nextEntry it = (if j + 1 < length (table (ht_of d t) ! i) then Some (t, i, j + 1) else None))"

definition iter_frame :: "dictIterator \<Rightarrow> dictIterator \<Rightarrow> bool" where
  "iter_frame it it' \<longleftrightarrow> safe it' = safe it \<and> fingerprint it' = fingerprint it \<and>
     (index it' \<noteq> -1 \<or> second it')"

lemma chain_ref_Some:
  "i < length (table (ht_of d t)) \<Longrightarrow>
   chain_ref d (t, i, j) = Some (if j < length (table (ht_of d t) ! i) then Some (t, i, j) else None)"
  by (simp add: chain_ref_def bucket_Some)

lemma after_Cons:
  "i < length (table (ht_of d t)) \<Longrightarrow> after d t i = table (ht_of d t) ! i @ after d t (Suc i)"
  by (simp add: after_def Cons_nth_drop_Suc [symmetric])

text \<open>Returning the entry at a position: the tail of the loop body.\<close>

lemma next_return:
  assumes "i < length (table (ht_of d t))" "j < length (table (ht_of d t) ! i)"
    and "next_pass d it = Some (it1, True)" "entry it1 = Some (t, i, j)" "second it1 = t" "index it1 = int i"
    and "safe it1 = safe it" "fingerprint it1 = fingerprint it"
  shows "\<exists>it'. next_loop d it = Some (it', Some (t, i, j)) \<and> iter_ok d it' \<and> iter_frame it it' \<and>
    entry_at d (t, i, j) = Some (table (ht_of d t) ! i ! j) \<and>
    remaining d it' = drop (j + 1) (table (ht_of d t) ! i) @ after d t (i + 1)"
  using assms
  by (auto simp: next_loop.simps [of d it] chain_ref_Some iter_ok_def iter_frame_def remaining_def
      entry_at_def bucket_Some)

lemma next_loop_None:
  assumes inv: "dict_invar hash d"
  shows "entry it = None \<Longrightarrow> iter_ok d it \<Longrightarrow>
    (case remaining d it of
       [] \<Rightarrow> \<exists>it'. next_loop d it = Some (it', None) \<and> iter_frame it it'
     | e # es \<Rightarrow> \<exists>it' r. next_loop d it = Some (it', Some r) \<and> iter_ok d it' \<and> iter_frame it it' \<and>
         entry_at d r = Some e \<and> remaining d it' = es)"
proof (induction "(if second it then 0 else Suc (size_ht (ht1 d))) +
    (size_ht (ht_of d (second it)) - nat (index it + 1))" arbitrary: it rule: less_induct)
  case less
  note ht = dict_invar_ht [OF inv]
  define t i where "t = second it" and "i = nat (index it + 1)"
  have idx: "index it + 1 = int i" using less.prems by (simp add: i_def iter_ok_def)
  have len: "length (table (ht_of d b)) = size_ht (ht_of d b)" for b
    using ht_okD(3) [OF ht(3)] .
  have rem: "remaining d it = after d t i" using less.prems by (simp add: remaining_def t_def i_def)
  have visit: ?case
    if b: "b < length (table (ht_of d u))" and r: "after d t i = after d u b"
      and pass: "next_pass d it = Some (it\<lparr>index := int b, second := u,
        entry := if table (ht_of d u) ! b = [] then None else Some (u, b, 0)\<rparr>, True)"
      and dec: "(if u then 0 else Suc (size_ht (ht1 d))) + (size_ht (ht_of d u) - Suc b)
        < (if t then 0 else Suc (size_ht (ht1 d))) + (size_ht (ht_of d t) - i)" for u b
  proof (cases "table (ht_of d u) ! b")
    case Nil
    define it1 where "it1 = it\<lparr>index := int b, second := u, entry := None\<rparr>"
    have loop: "next_loop d it = next_loop d it1"
      using pass Nil by (simp add: next_loop.simps [of d it] it1_def)
    have rem1: "remaining d it = remaining d it1"
      using rem r after_Cons [OF b] Nil by (simp add: remaining_def it1_def nat_add_distrib)
    have frame: "iter_frame it = iter_frame it1" by (simp add: iter_frame_def it1_def fun_eq_iff)
    have "iter_ok d it1" "entry it1 = None" by (simp_all add: it1_def iter_ok_def)
    moreover have "(if second it1 then 0 else Suc (size_ht (ht1 d))) +
        (size_ht (ht_of d (second it1)) - nat (index it1 + 1))
        < (if second it then 0 else Suc (size_ht (ht1 d))) +
          (size_ht (ht_of d (second it)) - nat (index it + 1))"
      using dec by (simp add: it1_def nat_add_distrib t_def i_def)
    ultimately show ?thesis using less.hyps [of it1] unfolding loop rem1 frame by blast
  next
    case (Cons e es)
    then have "remaining d it = e # drop 1 (table (ht_of d u) ! b) @ after d u (b + 1)"
      using rem r after_Cons [OF b] by simp
    with next_return [OF b _ pass] Cons show ?thesis by fastforce
  qed
  show ?case
  proof (cases "i < size_ht (ht_of d t)")
    case True
    then show ?thesis
      using len chain_ref_Some [of i d t 0] less.prems idx
      by (intro visit [of i t]) (auto simp: next_pass_def t_def Let_def)
  next
    case False
    show ?thesis
    proof (cases "dictIsRehashing d \<and> \<not> t")
      case True
      then have ne: "0 < length (table (ht_of d True))" using ht(4) by (simp add: ht_of_def)
      have "drop i (table (ht0 d)) = []" using False True len [of False] by (simp add: ht_of_def)
      then show ?thesis
        using ne False True chain_ref_Some [of 0 d True 0] less.prems idx
        by (intro visit [of 0 True]) (auto simp: next_pass_def t_def Let_def after_def ht_of_def)
    next
      case over: False
      have "remaining d it = []"
        unfolding rem using False over len by (auto simp: after_def)
      moreover have "next_loop d it = Some (it\<lparr>index := int i\<rparr>, None)"
        using False over less.prems idx
        by (auto simp: next_loop.simps [of d it] next_pass_def t_def Let_def)
      ultimately show ?thesis using idx by (simp add: iter_frame_def)
    qed
  qed
qed

lemma next_loop_ok:
  assumes inv: "dict_invar hash d" and ok: "iter_ok d it"
  shows "case remaining d it of
       [] \<Rightarrow> \<exists>it'. next_loop d it = Some (it', None) \<and> iter_frame it it'
     | e # es \<Rightarrow> \<exists>it' r. next_loop d it = Some (it', Some r) \<and> iter_ok d it' \<and> iter_frame it it' \<and>
         entry_at d r = Some e \<and> remaining d it' = es"
proof (cases "entry it")
  case None
  with next_loop_None [OF inv this ok] show ?thesis by simp
next
  case (Some r)
  then obtain t i j where e: "entry it = Some (t, i, j)" by (cases r) auto
  define c where "c = table (ht_of d t) ! i"
  have it: "second it = t" "index it = int i" "i < length (table (ht_of d t))" "j < length c"
    "nextEntry it = (if j + 1 < length c then Some (t, i, j + 1) else None)"
    using ok e by (auto simp: iter_ok_def c_def)
  have rem: "remaining d it = drop (j + 1) c @ after d t (i + 1)" using e by (simp add: remaining_def c_def)
  have pass: "next_pass d it = Some (it\<lparr>entry := nextEntry it\<rparr>, True)" using e by (simp add: next_pass_def)
  show ?thesis
  proof (cases "j + 1 < length c")
    case True
    then have "remaining d it = c ! (j + 1) # drop (j + 2) c @ after d t (i + 1)"
      using rem Cons_nth_drop_Suc [OF True] by simp
    moreover have "\<exists>it'. next_loop d it = Some (it', Some (t, i, j + 1)) \<and> iter_ok d it' \<and> iter_frame it it' \<and>
        entry_at d (t, i, j + 1) = Some (c ! (j + 1)) \<and>
        remaining d it' = drop (j + 1 + 1) c @ after d t (i + 1)"
      unfolding c_def using True it by (intro next_return [OF _ _ pass]) (auto simp: c_def)
    ultimately show ?thesis by auto
  next
    case False
    define it1 where "it1 = it\<lparr>entry := None\<rparr>"
    have loop: "next_loop d it = next_loop d it1"
      using pass it False by (simp add: next_loop.simps [of d it] it1_def)
    have rem1: "remaining d it = remaining d it1"
      using rem False it by (simp add: remaining_def it1_def nat_add_distrib)
    have frame: "iter_frame it = iter_frame it1" by (simp add: iter_frame_def it1_def fun_eq_iff)
    have "entry it1 = None" "iter_ok d it1" using it by (simp_all add: it1_def iter_ok_def)
    from next_loop_None [OF inv this] show ?thesis unfolding loop rem1 frame .
  qed
qed

text \<open>A client that calls \<open>dictNext\<close> until it returns \<open>NULL\<close>, at most \<open>n\<close> times.\<close>

fun iterate :: "nat \<Rightarrow> u64 \<Rightarrow> u64 \<Rightarrow> ('k, 'v) dict \<Rightarrow> dictIterator \<Rightarrow>
    (('k, 'v) dict \<times> dictIterator \<times> ('k \<times> 'v) list) option" where
  "iterate 0 a0 a1 d it = None"
| "iterate (Suc n) a0 a1 d it = do {
     (d1, it1, r) \<leftarrow> dictNext a0 a1 d it;
     case r of
       None \<Rightarrow> Some (d1, it1, [])
     | Some ref \<Rightarrow> do {
         e \<leftarrow> entry_at d1 ref;
         (d2, it2, es) \<leftarrow> iterate n a0 a1 d1 it1;
         Some (d2, it2, e # es)
       }
   }"

lemma iterate_running:
  assumes "dict_invar hash d" "iter_ok d it" "\<not> (index it = -1 \<and> \<not> second it)"
  shows "\<exists>it'. iterate (Suc (length (remaining d it))) a0 a1 d it = Some (d, it', remaining d it) \<and>
    iter_frame it it'"
  using assms(2,3)
proof (induction "remaining d it" arbitrary: it)
  case Nil
  with next_loop_ok [OF assms(1) Nil.prems(1)] show ?case
    by (auto simp: dictNext_def iter_start_def simp flip: Nil.hyps)
next
  case (Cons e es)
  from next_loop_ok [OF assms(1) Cons.prems(1)] obtain it1 r where
    n: "next_loop d it = Some (it1, Some r)" "iter_ok d it1" "iter_frame it it1" "entry_at d r = Some e"
      "remaining d it1 = es"
    by (auto simp flip: Cons.hyps(2))
  have "\<not> (index it1 = -1 \<and> \<not> second it1)" using n(3) by (auto simp: iter_frame_def)
  from Cons.hyps(1) [OF n(5) [symmetric] n(2) this] obtain it' where
    it': "iterate (Suc (length es)) a0 a1 d it1 = Some (d, it', es)" "iter_frame it1 it'"
    using n(5) by auto
  have "dictNext a0 a1 d it = Some (d, it1, Some r)"
    using n(1) Cons.prems(2) by (auto simp: dictNext_def iter_start_def)
  with it' n show ?case
    by (auto simp: iter_frame_def simp del: iterate.simps simp add: iterate.simps(2) [of "Suc (length es)"] simp flip: Cons.hyps(2))
qed

lemma iterators_irrelevant [simp]:
  "dict_entries (d\<lparr>iterators := n\<rparr>) = dict_entries d"
  "dict_invar hash (d\<lparr>iterators := n\<rparr>) = dict_invar hash d"
  "dictFingerprint a0 a1 (d\<lparr>iterators := n\<rparr>) = dictFingerprint a0 a1 d"
  by (simp_all add: dict_entries_def dict_invar_def dictIsRehashing_def rehash_inv_def dictFingerprint_def)

lemma remaining_start:
  assumes "dict_invar hash d" "entry it = None" "index it = -1" "\<not> second it"
  shows "remaining d it = dict_entries d"
  using assms dict_invar_ht(5) [OF assms(1)]
  by (cases "dictIsRehashing d") (auto simp: remaining_def after_def ht_of_def dict_entries_def dictReset_def)

lemma iterate_fresh:
  assumes inv: "dict_invar hash d" and it: "entry it = None" "index it = -1" "\<not> second it"
    and start: "iter_start a0 a1 d it = (d1, it1)"
  shows "\<exists>it'. iterate (Suc (length (dict_entries d))) a0 a1 d it = Some (d1, it', dict_entries d) \<and>
    iter_frame it1 it'"
proof -
  have d1: "dict_invar hash d1" "dict_entries d1 = dict_entries d" "entry it1 = None" "index it1 = -1" "\<not> second it1"
    using start it inv by (auto simp: iter_start_def split: if_splits)
  note rem = remaining_start [OF d1(1,3-5)]
  have "iter_ok d1 it1" using d1 by (simp add: iter_ok_def)
  note nl = next_loop_ok [OF d1(1) this, unfolded rem d1(2)]
  show ?thesis
  proof (cases "dict_entries d")
    case Nil
    with nl start show ?thesis by (auto simp: dictNext_def)
  next
    case (Cons e es)
    with nl obtain it2 r where
      n: "next_loop d1 it1 = Some (it2, Some r)" "iter_ok d1 it2" "iter_frame it1 it2"
        "entry_at d1 r = Some e" "remaining d1 it2 = es" by auto
    have "\<not> (index it2 = -1 \<and> \<not> second it2)" using n(3) by (auto simp: iter_frame_def)
    from iterate_running [OF d1(1) n(2) this, of a0 a1] n(5) obtain it' where
      it': "iterate (Suc (length es)) a0 a1 d1 it2 = Some (d1, it', es)" "iter_frame it2 it'" by auto
    have "dictNext a0 a1 d it = Some (d1, it2, Some r)" using n(1) start by (simp add: dictNext_def)
    with it' n Cons show ?thesis
      by (auto simp: iter_frame_def simp del: iterate.simps simp add: iterate.simps(2) [of "Suc (length es)"])
  qed
qed

text \<open>
  C28: iterating over a dictionary that is not modified, with a safe iterator or not and in the
  middle of a rehashing or not, visits every entry exactly once and stays inside the tables;
  releasing the iterator passes its fingerprint assertion and restores the dictionary; and
  while a safe iterator is active no lookup moves entries between the tables.
\<close>

theorem dict_iterator_correct:
  assumes "dict_invar hash d" "it = dictGetIterator junk \<or> it = dictGetSafeIterator junk"
  shows "\<exists>d1 it'. iterate (Suc (length (dict_entries d))) a0 a1 d it = Some (d1, it', dict_entries d) \<and>
    dictReleaseIterator a0 a1 d1 it' = Some d \<and>
    (safe it \<longrightarrow> rehash_if_needed hash d1 = Some d1)"
proof -
  have it: "entry it = None" "index it = -1" "\<not> second it"
    using assms(2) by (auto simp: dictGetIterator_def dictGetSafeIterator_def)
  obtain d1 it1 where st: "iter_start a0 a1 d it = (d1, it1)" by (cases "iter_start a0 a1 d it")
  from iterate_fresh [OF assms(1) it st] obtain it' where
    it': "iterate (Suc (length (dict_entries d))) a0 a1 d it = Some (d1, it', dict_entries d)"
      "iter_frame it1 it'" by blast
  moreover have "dictReleaseIterator a0 a1 d1 it' = Some d"
    using st it it'(2) by (auto simp: iter_start_def dictReleaseIterator_def iter_frame_def split: if_splits)
  moreover have "safe it \<longrightarrow> rehash_if_needed hash d1 = Some d1"
    using st it by (auto simp: iter_start_def rehash_if_needed_def dictRehashStep_def)
  ultimately show ?thesis by blast
qed

theorem dict_iterator_correct_witness:
  "\<exists>d1 it'. iterate 3 0 0 rehashing_dict (dictGetSafeIterator 0) = Some (d1, it', [(0, 5), (1, 6)]) \<and>
    dictReleaseIterator 0 0 d1 it' = Some rehashing_dict"
proof -
  have "dict_entries rehashing_dict = [(0, 5), (1, 6)]"
    by (simp add: rehashing_dict_def dict_entries_def)
  then show ?thesis
    using dict_iterator_correct [OF rehashing_dict_invar, of "dictGetSafeIterator 0" 0 0 0]
    by (simp add: numeral_3_eq_3 del: iterate.simps) blast
qed

subsection \<open>Sampling\<close>



















end
