(* ===== verification/Lzf.thy ===== *)
theory Lzf
  imports Redis_Prelude
begin

unbundle bit_operations_syntax

text \<open>
  The LZF compressor (\<open>lzf_c.c\<close>) and decompressor (\<open>lzf_d.c\<close>), with the settings of
  \<open>lzfP.h\<close>: \<open>HLOG\<close> is 16, \<open>VERY_FAST\<close> is on, the hash table holds offsets and is not
  initialised, input is checked.  Pointers into the input and output are offsets; every access
  is checked and \<^term>\<open>None\<close> is an access outside of a buffer.
\<close>

subsection \<open>Compression\<close>

definition MAX_LIT :: nat where "MAX_LIT = 32"
definition MAX_OFF :: u64 where "MAX_OFF = 8192"
definition MAX_REF :: nat where "MAX_REF = 264"

definition FRST :: "bytes \<Rightarrow> nat \<Rightarrow> u32 option" where
  "FRST inp p = do { a \<leftarrow> get_byte inp (int p); b \<leftarrow> get_byte inp (int p + 1);
     Some (push_bit 8 (ucast a) OR ucast b) }"

definition NEXT :: "u32 \<Rightarrow> bytes \<Rightarrow> nat \<Rightarrow> u32 option" where
  "NEXT v inp p = do { c \<leftarrow> get_byte inp (int p + 2); Some (push_bit 8 v OR ucast c) }"

definition IDX :: "u32 \<Rightarrow> nat" where
  "IDX h = unat ((drop_bit 8 h - h * 5) AND 0xFFFF)"

record lzf_state =
  ip :: nat
  op :: nat
  lit :: nat
  hval :: u32
  htab :: "nat \<Rightarrow> u32"
  out :: bytes

text \<open>
  The comparison loop: sixteen unrolled steps while enough input is left, \<open>True\<close> when one of
  them found a difference, then a \<open>do\<close>-\<open>while\<close> loop.
\<close>

fun lzf_unrolled :: "nat \<Rightarrow> bytes \<Rightarrow> nat \<Rightarrow> nat \<Rightarrow> nat \<Rightarrow> (nat \<times> bool) option" where
  "lzf_unrolled 0 inp p ref len = Some (len, False)"
| "lzf_unrolled (Suc n) inp p ref len = do {
     a \<leftarrow> get_byte inp (int (ref + (len + 1)));
     b \<leftarrow> get_byte inp (int (p + (len + 1)));
     if a \<noteq> b then Some (len + 1, True) else lzf_unrolled n inp p ref (len + 1)
   }"

function lzf_extend :: "bytes \<Rightarrow> nat \<Rightarrow> nat \<Rightarrow> nat \<Rightarrow> nat \<Rightarrow> nat option" where
  "lzf_extend inp p ref maxlen len =
     (if len + 1 < maxlen then do {
        a \<leftarrow> get_byte inp (int (ref + (len + 1)));
        b \<leftarrow> get_byte inp (int (p + (len + 1)));
        if a = b then lzf_extend inp p ref maxlen (len + 1) else Some (len + 1)
      }
      else Some (len + 1))"
  by pat_completeness auto
termination by (relation "measure (\<lambda>(_, _, _, maxlen, len). maxlen - len)") auto

declare lzf_extend.simps [simp del]

definition match_length :: "bytes \<Rightarrow> nat \<Rightarrow> nat \<Rightarrow> nat \<Rightarrow> nat option" where
  "match_length inp p ref maxlen = do {
     (len, differs) \<leftarrow> (if maxlen > 16 then lzf_unrolled 16 inp p ref 2 else Some (2, False));
     if differs then Some len else lzf_extend inp p ref maxlen len
   }"

text \<open>The result of one pass of the main loop: return 0, go on, or leave the loop.\<close>

datatype lzf_outcome = Fail | Continue lzf_state | Break lzf_state

definition stop_run :: "lzf_state \<Rightarrow> bytes option" where
  "stop_run s = put_byte (out s) (int (op s) - int (lit s) - 1) (of_int (int (lit s) - 1))"

definition write_ref :: "bytes \<Rightarrow> nat \<Rightarrow> nat \<Rightarrow> nat \<Rightarrow> (bytes \<times> nat) option" where
  "write_ref o1 p1 off len = do {
     (o2, p2) \<leftarrow>
       (if len < 7 then do {
          b \<leftarrow> put_byte o1 (int p1) (of_nat (off div 256 + len * 32));
          Some (b, p1 + 1)
        }
        else do {
          a \<leftarrow> put_byte o1 (int p1) (of_nat (off div 256 + 7 * 32));
          b \<leftarrow> put_byte a (int p1 + 1) (of_nat (len - 7));
          Some (b, p1 + 2)
        });
     o3 \<leftarrow> put_byte o2 (int p2) (of_nat off);
     Some (o3, p2 + 1)
   }"

text \<open>A match at \<open>ref\<close>, at distance \<open>off + 1\<close>.\<close>

definition lzf_match :: "bytes \<Rightarrow> nat \<Rightarrow> nat \<Rightarrow> nat \<Rightarrow> lzf_state \<Rightarrow> lzf_outcome option" where
  "lzf_match inp out_end ref off s =
     (let in_end = length inp;
          nolit = (if lit s = 0 then 1 else 0);
          maxlen = min (in_end - ip s - 2) MAX_REF
      in if op s + 3 + 1 \<ge> out_end \<and> op s - nolit + 3 + 1 \<ge> out_end then Some Fail
         else do {
           o1 \<leftarrow> stop_run s;
           let p1 = op s - nolit;
           len0 \<leftarrow> match_length inp (ip s) ref maxlen;
           let len = len0 - 2;
           (o2, p2) \<leftarrow> write_ref o1 p1 off len;
           let s1 = s\<lparr>out := o2, op := p2 + 1, lit := 0, ip := ip s + 1 + (len + 1)\<rparr>;
           if ip s1 + 2 \<ge> in_end then Some (Break s1)
           else do {
             let q = ip s1 - 2;
             h0 \<leftarrow> FRST inp q;
             h1 \<leftarrow> NEXT h0 inp q;
             h2 \<leftarrow> NEXT h1 inp (q + 1);
             Some (Continue (s1\<lparr>hval := h2,
               htab := (htab s1)(IDX h1 := of_nat q, IDX h2 := of_nat (q + 1))\<rparr>))
           }
         })"

definition lzf_literal :: "bytes \<Rightarrow> lzf_state \<Rightarrow> lzf_state option" where
  "lzf_literal inp s = do {
     c \<leftarrow> get_byte inp (int (ip s));
     b \<leftarrow> put_byte (out s) (int (op s)) c;
     let s1 = s\<lparr>out := b, op := op s + 1, ip := ip s + 1, lit := lit s + 1\<rparr>;
     if lit s1 = MAX_LIT then do {
       b1 \<leftarrow> stop_run s1;
       Some (s1\<lparr>out := b1, lit := 0, op := op s1 + 1\<rparr>)
     }
     else Some s1
   }"

text \<open>
  \<open>off\<close> is an \<open>unsigned long\<close>, so that a slot at or behind the input pointer gives a huge
  distance; a slot that was never written holds any value.
\<close>

definition lzf_probe :: "bytes \<Rightarrow> nat \<Rightarrow> nat \<Rightarrow> bool option" where
  "lzf_probe inp p ref = do {
     r0 \<leftarrow> get_byte inp (int ref); r1 \<leftarrow> get_byte inp (int ref + 1); r2 \<leftarrow> get_byte inp (int ref + 2);
     i0 \<leftarrow> get_byte inp (int p); i1 \<leftarrow> get_byte inp (int p + 1); i2 \<leftarrow> get_byte inp (int p + 2);
     Some (r2 = i2 \<and> r0 = i0 \<and> r1 = i1)
   }"

definition lzf_step :: "bytes \<Rightarrow> nat \<Rightarrow> lzf_state \<Rightarrow> lzf_outcome option" where
  "lzf_step inp out_end s = do {
     h \<leftarrow> NEXT (hval s) inp (ip s);
     let ref = unat (htab s (IDX h));
     let s1 = s\<lparr>hval := h, htab := (htab s)(IDX h := of_nat (ip s))\<rparr>;
     let off = (of_nat (ip s) - of_nat ref - 1 :: u64);
     found \<leftarrow> (if off < MAX_OFF \<and> ref > 0 then lzf_probe inp (ip s) ref else Some False);
     if found then lzf_match inp out_end ref (unat off) s1
     else if op s1 \<ge> out_end then Some Fail
     else map_option Continue (lzf_literal inp s1)
   }"

partial_function (option) lzf_loop :: "bytes \<Rightarrow> nat \<Rightarrow> lzf_state \<Rightarrow> lzf_state option option" where
  "lzf_loop inp out_end s =
     (if ip s + 2 < length inp then do {
        r \<leftarrow> lzf_step inp out_end s;
        case r of
          Fail \<Rightarrow> Some None
        | Continue s' \<Rightarrow> lzf_loop inp out_end s'
        | Break s' \<Rightarrow> Some (Some s')
      }
      else Some (Some s))"

fun lzf_tail :: "nat \<Rightarrow> bytes \<Rightarrow> lzf_state \<Rightarrow> lzf_state option" where
  "lzf_tail 0 inp s = Some s"
| "lzf_tail (Suc n) inp s = do { s' \<leftarrow> lzf_literal inp s; lzf_tail n inp s' }"

text \<open>The number of bytes written and the output buffer; \<^term>\<open>None\<close> inside is the return value 0.\<close>

definition lzf_compress :: "(nat \<Rightarrow> u32) \<Rightarrow> bytes \<Rightarrow> bytes \<Rightarrow> nat \<Rightarrow> (nat \<times> bytes) option option" where
  "lzf_compress tab inp outbuf out_len =
     (if length inp = 0 \<or> out_len = 0 then Some None
      else do {
        h \<leftarrow> FRST inp 0;
        r \<leftarrow> lzf_loop inp out_len \<lparr>ip = 0, op = 1, lit = 0, hval = h, htab = tab, out = outbuf\<rparr>;
        case r of
          None \<Rightarrow> Some None
        | Some s \<Rightarrow>
            if op s + 3 > out_len then Some None
            else do {
              s1 \<leftarrow> lzf_tail (length inp - ip s) inp s;
              b \<leftarrow> stop_run s1;
              Some (Some (op s1 - (if lit s1 = 0 then 1 else 0), b))
            }
      })"

subsection \<open>Decompression\<close>

datatype lzf_error = E2BIG | EINVAL

text \<open>Copying \<open>n\<close> octets one by one inside the output buffer.\<close>

fun copy_octets :: "nat \<Rightarrow> bytes \<Rightarrow> nat \<Rightarrow> nat \<Rightarrow> bytes option" where
  "copy_octets 0 b p ref = Some b"
| "copy_octets (Suc n) b p ref = do {
     x \<leftarrow> get_byte b (int ref);
     b1 \<leftarrow> put_byte b (int p) x;
     copy_octets n b1 (p + 1) (ref + 1)
   }"

definition copy_ref :: "nat \<Rightarrow> bytes \<Rightarrow> nat \<Rightarrow> nat \<Rightarrow> bytes option" where
  "copy_ref len b p ref =
     (if len > 9
      then if p \<ge> ref + (len + 2)
           then do { d \<leftarrow> buf_read b ref (len + 2); buf_write b p d }
           else copy_octets (len + 2) b p ref
      else copy_octets (len + 2) b p ref)"

text \<open>A back reference of \<open>len + 2\<close> bytes whose distance has the high part \<open>hi\<close> and the low part \<open>lo\<close>.\<close>

definition lzf_backref :: "nat \<Rightarrow> nat \<Rightarrow> nat \<Rightarrow> nat \<Rightarrow> nat \<Rightarrow> nat \<Rightarrow> bytes \<Rightarrow>
    (lzf_error + nat \<times> nat \<times> bytes) option" where
  "lzf_backref out_end hi lo len i p b =
     (let ref = int p - int (hi * 256) - 1 - int lo
      in if p + len + 2 > out_end then Some (Inl E2BIG)
         else if ref < 0 then Some (Inl EINVAL)
         else do {
           b1 \<leftarrow> copy_ref len b p (nat ref);
           Some (Inr (i, p + (len + 2), b1))
         })"

text \<open>One pass of the loop: the new offsets and buffer, or an error.\<close>

definition lzf_token :: "bytes \<Rightarrow> nat \<Rightarrow> nat \<times> nat \<times> bytes \<Rightarrow>
    (lzf_error + nat \<times> nat \<times> bytes) option" where
  "lzf_token inp out_end st = (case st of (i, p, b) \<Rightarrow> do {
     c \<leftarrow> get_byte inp (int i);
     let ctrl = unat c;
     let i1 = i + 1;
     if ctrl < 32 then
       (let n = ctrl + 1 in
        if p + n > out_end then Some (Inl E2BIG)
        else if i1 + n > length inp then Some (Inl EINVAL)
        else do {
          d \<leftarrow> buf_read inp i1 n;
          b1 \<leftarrow> buf_write b p d;
          Some (Inr (i1 + n, p + n, b1))
        })
     else
       (if i1 \<ge> length inp then Some (Inl EINVAL)
        else do {
          let len0 = ctrl div 32;
          r \<leftarrow> (if len0 = 7 then do {
                 x \<leftarrow> get_byte inp (int i1);
                 if i1 + 1 \<ge> length inp then Some None else Some (Some (len0 + unat x, i1 + 1))
               } else Some (Some (len0, i1)));
          case r of
            None \<Rightarrow> Some (Inl EINVAL)
          | Some (len, i2) \<Rightarrow> do {
              y \<leftarrow> get_byte inp (int i2);
              lzf_backref out_end (ctrl mod 32) (unat y) len (i2 + 1) p b
            }
        })
   })"

partial_function (option) decompress_loop :: "bytes \<Rightarrow> nat \<Rightarrow> nat \<times> nat \<times> bytes \<Rightarrow>
    (lzf_error + nat \<times> bytes) option" where
  "decompress_loop inp out_end st = do {
     r \<leftarrow> lzf_token inp out_end st;
     case r of
       Inl e \<Rightarrow> Some (Inl e)
     | Inr (i, p, b) \<Rightarrow>
         if i < length inp then decompress_loop inp out_end (i, p, b) else Some (Inr (p, b))
   }"

definition lzf_decompress :: "bytes \<Rightarrow> bytes \<Rightarrow> nat \<Rightarrow> (lzf_error + nat \<times> bytes) option" where
  "lzf_decompress inp outbuf out_len = decompress_loop inp out_len (0, 0, outbuf)"

subsection \<open>The decompressor is memory safe\<close>

lemma get_byte_Some: "0 \<le> i \<Longrightarrow> i < int (length b) \<Longrightarrow> get_byte b i = Some (b ! nat i)"
  by (simp add: get_byte_def nat_less_iff)

lemma put_byte_Some: "0 \<le> i \<Longrightarrow> i < int (length b) \<Longrightarrow> put_byte b i x = Some (b[nat i := x])"
  by (simp add: put_byte_def nat_less_iff)

text \<open>What copying octet by octet computes: the output grows by what is \<open>off + 1\<close> before its end.\<close>

fun grow :: "nat \<Rightarrow> nat \<Rightarrow> bytes \<Rightarrow> bytes" where
  "grow 0 off xs = xs"
| "grow (Suc n) off xs = grow n off (xs @ [xs ! (length xs - Suc off)])"

lemma length_grow [simp]: "length (grow n off xs) = length xs + n"
  by (induction n off xs rule: grow.induct) auto

declare grow.simps(2) [simp del]

lemma copy_octets_ok:
  assumes "ref < p" "p + n \<le> length b" "off = p - ref - 1"
  shows "copy_octets n b p ref = Some (grow n off (take p b) @ drop (p + n) b)"
  using assms
proof (induction n arbitrary: b p ref)
  case (Suc n)
  define b1 where "b1 = b[p := b ! ref]"
  have "take (Suc p) b1 = take p b @ [take p b ! (length (take p b) - Suc off)]"
    using Suc.prems by (simp add: b1_def take_Suc_conv_app_nth)
  moreover have "drop (Suc (p + n)) b1 = drop (Suc (p + n)) b" by (simp add: b1_def)
  moreover have "copy_octets n b1 (p + 1) (ref + 1) =
      Some (grow n off (take (p + 1) b1) @ drop (p + 1 + n) b1)"
    using Suc.prems by (intro Suc.IH) (auto simp: b1_def)
  ultimately show ?case
    using Suc.prems by (simp add: get_byte_nat put_byte_Some b1_def grow.simps(2))
qed simp

lemma grow_far:
  assumes "n \<le> Suc off" "off < length xs"
  shows "grow n off xs = xs @ take n (drop (length xs - Suc off) xs)"
  using assms
proof (induction n off xs rule: grow.induct)
  case (2 n off xs)
  define k where "k = length xs - Suc off"
  have k: "k < length xs" "k + n < length xs" using "2.prems" by (auto simp: k_def)
  have "grow (Suc n) off xs = (xs @ [xs ! k]) @ take n (drop (Suc k) (xs @ [xs ! k]))"
    using "2.IH" "2.prems" by (simp add: k_def Suc_diff_Suc Suc_diff_le grow.simps(2))
  also have "\<dots> = xs @ take (Suc n) (drop k xs)"
    using k by (simp add: Cons_nth_drop_Suc [symmetric])
  finally show ?case by (simp add: k_def)
qed simp

text \<open>The bulk copy for disjoint areas and the copy by octets agree.\<close>

lemma copy_ref_ok:
  assumes "ref < p" "p + (len + 2) \<le> length b"
  shows "copy_ref len b p ref = Some (grow (len + 2) (p - ref - 1) (take p b) @ drop (p + (len + 2)) b)"
proof (cases "len > 9 \<and> p \<ge> ref + (len + 2)")
  case True
  define n where "n = len + 2"
  have n: "ref + n \<le> p" "p + n \<le> length b" using True assms by (simp_all add: n_def)
  then have min: "min n (p - ref) = n" "min (length b - ref) n = n" by linarith+
  have "grow n (p - ref - 1) (take p b) = take p b @ take n (drop ref (take p b))"
    using n assms(1) by (subst grow_far) auto
  also have "take n (drop ref (take p b)) = take n (drop ref b)"
    using min(1) by (simp only: drop_take take_take)
  finally have g: "grow n (p - ref - 1) (take p b) = take p b @ take n (drop ref b)" .
  have "copy_ref len b p ref = do { d \<leftarrow> buf_read b ref n; buf_write b p d }"
    using True unfolding n_def by (simp add: copy_ref_def)
  then show ?thesis
    unfolding n_def [symmetric] g using n min(2) by (simp add: buf_read_def buf_write_def)
next
  case False
  then have "copy_ref len b p ref = copy_octets (len + 2) b p ref" by (auto simp: copy_ref_def)
  with copy_octets_ok [OF assms refl] show ?thesis by simp
qed

lemma prefix_splice:
  assumes "length xs = k" "k \<le> e" "e \<le> length b"
  shows "length (xs @ drop k b) = length b" "drop e (xs @ drop k b) = drop e b"
  using assms by auto

lemma backref_safe:
  assumes p: "p \<le> out_end" "out_end \<le> length b"
  shows "\<exists>r. lzf_backref out_end hi lo len i p b = Some r \<and>
    (case r of Inl e \<Rightarrow> True
     | Inr (i', p', b') \<Rightarrow> i' = i \<and> p' \<le> out_end \<and> length b' = length b \<and> drop out_end b' = drop out_end b)"
proof -
  define ref where "ref = int p - int (hi * 256) - 1 - int lo"
  show ?thesis
  proof (cases "p + len + 2 > out_end \<or> ref < 0")
    case True
    then show ?thesis by (auto simp: lzf_backref_def Let_def ref_def)
  next
    case False
    have "ref < int p" unfolding ref_def by linarith
    with False have "nat ref < p" by linarith
    then have cp: "copy_ref len b p (nat ref) =
        Some (grow (len + 2) (p - nat ref - 1) (take p b) @ drop (p + (len + 2)) b)"
      using False p by (intro copy_ref_ok) auto
    have "lzf_backref out_end hi lo len i p b =
        Some (Inr (i, p + (len + 2), grow (len + 2) (p - nat ref - 1) (take p b) @ drop (p + (len + 2)) b))"
      using False cp unfolding lzf_backref_def Let_def ref_def [symmetric] by simp
    then show ?thesis
      using False p prefix_splice [of "grow (len + 2) (p - nat ref - 1) (take p b)" "p + (len + 2)" out_end b]
      by simp
  qed
qed

lemma lzf_token_safe:
  assumes i: "i < length inp" and p: "p \<le> out_end" "out_end \<le> length b"
  shows "\<exists>r. lzf_token inp out_end (i, p, b) = Some r \<and>
    (case r of Inl e \<Rightarrow> True
     | Inr (i', p', b') \<Rightarrow> i < i' \<and> p' \<le> out_end \<and> length b' = length b \<and>
         drop out_end b' = drop out_end b)"
proof -
  define ctrl where "ctrl = unat (inp ! i)"
  have c: "get_byte inp (int i) = Some (inp ! i)" using i by (simp add: get_byte_nat)
  show ?thesis
  proof (cases "ctrl < 32")
    case True
    define n where "n = ctrl + 1"
    have n: "p + n \<le> out_end \<Longrightarrow> i + 1 + n \<le> length inp \<Longrightarrow>
        lzf_token inp out_end (i, p, b) =
          Some (Inr (i + 1 + n, p + n, (take p b @ take n (drop (i + 1) inp)) @ drop (p + n) b))"
      using True p c by (simp add: lzf_token_def Let_def ctrl_def n_def buf_read_def buf_write_def)
    show ?thesis
    proof (cases "p + n \<le> out_end \<and> i + 1 + n \<le> length inp")
      case True
      then show ?thesis
        using n p prefix_splice [of "take p b @ take n (drop (i + 1) inp)" "p + n" out_end b] by auto
    next
      case False
      then have "\<exists>e. lzf_token inp out_end (i, p, b) = Some (Inl e)"
        using True c by (auto simp: lzf_token_def Let_def ctrl_def n_def)
      then show ?thesis by auto
    qed
  next
    case False
    define r where "r = (if ctrl div 32 = 7 then
        (if i + 2 \<ge> length inp then None else Some (7 + unat (inp ! (i + 1)), i + 2)) else Some (ctrl div 32, i + 1))"
    show ?thesis
    proof (cases "i + 1 \<ge> length inp \<or> r = None")
      case True
      then have "lzf_token inp out_end (i, p, b) = Some (Inl EINVAL)"
        using False c by (auto simp: lzf_token_def Let_def ctrl_def r_def get_byte_Some nat_add_distrib split: if_splits)
      then show ?thesis by auto
    next
      case ok: False
      then obtain len i2 where r: "r = Some (len, i2)" by auto
      then have i2: "i < i2" "i2 < length inp" using ok by (auto simp: r_def split: if_splits)
      have "lzf_token inp out_end (i, p, b) = lzf_backref out_end (ctrl mod 32) (unat (inp ! i2)) len (i2 + 1) p b"
        using False ok c r i2
        by (auto simp: lzf_token_def Let_def ctrl_def r_def get_byte_Some nat_add_distrib split: if_splits)
      with backref_safe [OF p, of "ctrl mod 32" "unat (inp ! i2)" len "i2 + 1"] i2 show ?thesis
        by (auto split: sum.splits)
    qed
  qed
qed

lemma decompress_loop_safe:
  assumes "i < length inp" "p \<le> out_end" "out_end \<le> length b"
  shows "\<exists>r. decompress_loop inp out_end (i, p, b) = Some r \<and>
    (case r of Inl e \<Rightarrow> True
     | Inr (n, b') \<Rightarrow> n \<le> out_end \<and> length b' = length b \<and> drop out_end b' = drop out_end b)"
  using assms
proof (induction "length inp - i" arbitrary: i p b rule: less_induct)
  case less
  from lzf_token_safe [OF less.prems] obtain r where
    r: "lzf_token inp out_end (i, p, b) = Some r" "case r of Inl e \<Rightarrow> True
     | Inr (i', p', b') \<Rightarrow> i < i' \<and> p' \<le> out_end \<and> length b' = length b \<and>
         drop out_end b' = drop out_end b" by blast
  note unf = decompress_loop.simps [of inp out_end "(i, p, b)"] r(1)
  show ?case
  proof (cases r)
    case (Inl e)
    then show ?thesis by (simp add: unf)
  next
    case (Inr t)
    obtain i' p' b' where t: "t = (i', p', b')" by (cases t)
    with Inr r(2) have s: "i < i'" "p' \<le> out_end" "length b' = length b" "drop out_end b' = drop out_end b" by auto
    show ?thesis
    proof (cases "i' < length inp")
      case True
      with s(1) have "length inp - i' < length inp - i" by simp
      moreover have "out_end \<le> length b'" using s(3) less.prems by simp
      ultimately show ?thesis
        using less.hyps [OF _ True s(2), of b', unfolded s(3,4)] Inr t True s(3) by (simp add: unf)
    next
      case False
      then show ?thesis using s Inr t by (simp add: unf)
    qed
  qed
qed

text \<open>
  C18: decompressing any non-empty byte string, corrupt or not, into any buffer terminates and
  never reads outside of the input nor touches memory outside of the output area; it either
  reports an error or returns a length within the area.
\<close>

theorem lzf_decompress_safe:
  assumes "inp \<noteq> []" "out_len \<le> length outbuf"
  shows "\<exists>r. lzf_decompress inp outbuf out_len = Some r \<and>
    (case r of Inl e \<Rightarrow> True
     | Inr (n, b) \<Rightarrow> n \<le> out_len \<and> length b = length outbuf \<and> drop out_len b = drop out_len outbuf)"
  unfolding lzf_decompress_def using assms by (intro decompress_loop_safe) auto

theorem lzf_decompress_safe_witness: "lzf_decompress [0xE0, 0xFF] [1, 2, 3] 2 \<noteq> None"
  using lzf_decompress_safe [of "[0xE0, 0xFF]" 2 "[1, 2, 3]"] by auto

subsection \<open>The format\<close>

text \<open>A run of literals, or a reference to the bytes \<open>off + 1\<close> back of length \<open>len + 2\<close>.\<close>

datatype lzf_tok = Lits bytes | Ref nat nat

fun tok_ok :: "lzf_tok \<Rightarrow> bool" where
  "tok_ok (Lits bs) \<longleftrightarrow> bs \<noteq> [] \<and> length bs \<le> 32"
| "tok_ok (Ref off len) \<longleftrightarrow> off < 8192 \<and> 1 \<le> len \<and> len \<le> 262"

fun tok_bytes :: "lzf_tok \<Rightarrow> bytes" where
  "tok_bytes (Lits bs) = of_nat (length bs - 1) # bs"
| "tok_bytes (Ref off len) =
     (if len < 7 then [of_nat (off div 256 + len * 32), of_nat off]
      else [of_nat (off div 256 + 224), of_nat (len - 7), of_nat off])"

fun decode :: "lzf_tok list \<Rightarrow> bytes \<Rightarrow> bytes option" where
  "decode [] xs = Some xs"
| "decode (Lits bs # ts) xs = decode ts (xs @ bs)"
| "decode (Ref off len # ts) xs = (if off < length xs then decode ts (grow (len + 2) off xs) else None)"

abbreviation stream :: "lzf_tok list \<Rightarrow> bytes" where
  "stream ts \<equiv> concat (map tok_bytes ts)"

lemma tok_bytes_nonempty [simp]: "tok_bytes t \<noteq> []"
  by (cases t) auto

lemma decode_append: "decode (ts @ us) xs = Option.bind (decode ts xs) (decode us)"
  by (induction ts xs rule: decode.induct) auto

lemma decode_length: "decode ts xs = Some ys \<Longrightarrow> length xs \<le> length ys"
  by (induction ts xs rule: decode.induct) (auto split: if_splits)

lemma lits_step:
  assumes t: "tok_ok (Lits bs)" and inp: "inp = pre @ tok_bytes (Lits bs) @ post"
    and fit: "length xs + length bs \<le> out_end" "out_end \<le> length b" and b: "take (length xs) b = xs"
  shows "lzf_token inp out_end (length pre, length xs, b) =
    Some (Inr (length pre + length (tok_bytes (Lits bs)), length (xs @ bs),
      (xs @ bs) @ drop (length (xs @ bs)) b))"
proof -
  have c: "get_byte inp (int (length pre)) = Some (of_nat (length bs - 1))"
    using inp by (simp add: get_byte_mid)
  have u: "unat (of_nat (length bs - 1) :: byte) = length bs - 1"
    using t by (intro unat_of_nat_no_wrap) auto
  have n: "length bs - 1 + 1 = length bs" "length bs - 1 < 32" using t by (cases bs, auto)+
  have rd: "buf_read inp (length pre + 1) (length bs) = Some bs"
    using buf_read_mid [of "length pre + 1" "pre @ [of_nat (length bs - 1)]" "length bs" bs post] inp by simp
  have "lzf_token inp out_end (length pre, length xs, b) =
      do { b1 \<leftarrow> buf_write b (length xs) bs; Some (Inr (length pre + 1 + length bs, length xs + length bs, b1)) }"
    using c u n rd fit inp by (simp add: lzf_token_def Let_def)
  then show ?thesis using fit b by (simp add: buf_write_def)
qed

lemma ref_step:
  assumes t: "tok_ok (Ref off len)" and inp: "inp = pre @ tok_bytes (Ref off len) @ post"
    and fit: "length xs + (len + 2) \<le> out_end" "out_end \<le> length b" and b: "take (length xs) b = xs"
    and off: "off < length xs"
  shows "lzf_token inp out_end (length pre, length xs, b) =
    Some (Inr (length pre + length (tok_bytes (Ref off len)), length (grow (len + 2) off xs),
      grow (len + 2) off xs @ drop (length (grow (len + 2) off xs)) b))"
proof -
  have off_div: "off div 256 < 32" using t less_mult_imp_div_less [of off 32 256] by simp
  have "int (length xs) - int (off div 256 * 256) - 1 - int (off mod 256) = int (length xs - off - 1)"
    using off div_mult_mod_eq [of off 256] by linarith
  moreover have "copy_ref len b (length xs) (length xs - off - 1) =
      Some (grow (len + 2) off xs @ drop (length xs + (len + 2)) b)"
    using copy_ref_ok [of "length xs - off - 1" "length xs" len b] fit b off by simp
  ultimately have tail: "lzf_backref out_end (off div 256) (off mod 256) len i (length xs) b =
      Some (Inr (i, length xs + (len + 2), grow (len + 2) off xs @ drop (length xs + (len + 2)) b))" for i
    using fit by (simp add: lzf_backref_def Let_def)
  have lo: "unat (of_nat off :: byte) = off mod 256" by (simp add: unat_of_nat)
  show ?thesis
  proof (cases "len < 7")
    case True
    have hi: "unat (of_nat (off div 256 + len * 32) :: byte) = off div 256 + len * 32"
      using True off_div by (intro unat_of_nat_no_wrap) auto
    have "(off div 256 + len * 32) div 32 = len" "(off div 256 + len * 32) mod 32 = off div 256"
      using off_div by auto
    then show ?thesis
      using True t inp hi lo tail [of "Suc (Suc (length pre))"]
      by (simp add: lzf_token_def Let_def get_byte_def nth_append nat_add_distrib)
  next
    case False
    have hi: "unat (of_nat (off div 256 + 224) :: byte) = off div 256 + 224"
      using off_div by (intro unat_of_nat_no_wrap) auto
    have l: "unat (of_nat (len - 7) :: byte) = len - 7"
      using t by (intro unat_of_nat_no_wrap) auto
    have "(d + 224) div 32 = 7 \<and> (d + 224) mod 32 = d" if "d < 32" for d :: nat
      using that div_mult_self3 [of 32 7 d] mod_mult_self3 [of 7 32 d] by (simp add: add.commute)
    then have "(off div 256 + 224) div 32 = 7" "(off div 256 + 224) mod 32 = off div 256"
      using off_div by blast+
    then show ?thesis
      using False t inp hi lo l tail [of "Suc (Suc (Suc (length pre)))"]
      by (simp add: lzf_token_def Let_def get_byte_def nth_append nat_add_distrib)
  qed
qed

lemma decompress_stream:
  assumes "decode ts xs = Some ys" "\<forall>t \<in> set ts. tok_ok t" "ts \<noteq> []"
    and "length ys \<le> out_end" "out_end \<le> length b" "take (length xs) b = xs"
  shows "decompress_loop (pre @ stream ts) out_end (length pre, length xs, b) =
    Some (Inr (length ys, ys @ drop (length ys) b))"
  using assms
proof (induction ts arbitrary: pre xs b)
  case (Cons t ts)
  define inp where "inp = pre @ stream (t # ts)"
  obtain zs where z: "decode [t] xs = Some zs" "decode ts zs = Some ys"
    using Cons.prems(1) decode_append [of "[t]" ts xs] by (cases "decode [t] xs") auto
  have zy: "length zs \<le> length ys" using decode_length z(2) .
  have step: "lzf_token inp out_end (length pre, length xs, b) =
      Some (Inr (length (pre @ tok_bytes t), length zs, zs @ drop (length zs) b))"
  proof (cases t)
    case (Lits bs)
    then show ?thesis
      using lits_step [of bs inp pre "stream ts" xs out_end b] Cons.prems z zy by (auto simp: inp_def)
  next
    case (Ref off len)
    then show ?thesis
      using ref_step [of off len inp pre "stream ts" xs out_end b] Cons.prems z zy
      by (auto simp: inp_def split: if_splits)
  qed
  define b1 where "b1 = zs @ drop (length zs) b"
  have b1: "length b1 = length b" "take (length zs) b1 = zs"
    using zy Cons.prems by (simp_all add: b1_def)
  have unf: "decompress_loop inp out_end (length pre, length xs, b) =
      (if length (pre @ tok_bytes t) < length inp
       then decompress_loop inp out_end (length (pre @ tok_bytes t), length zs, b1)
       else Some (Inr (length zs, b1)))"
    by (simp add: decompress_loop.simps [of inp out_end "(length pre, length xs, b)"] step b1_def)
  show ?case
  proof (cases ts)
    case Nil
    then show ?thesis using unf z by (simp add: inp_def b1_def)
  next
    case (Cons u us)
    have "decompress_loop ((pre @ tok_bytes t) @ stream ts) out_end (length (pre @ tok_bytes t), length zs, b1) =
        Some (Inr (length ys, ys @ drop (length ys) b1))"
      using Cons.prems Cons z b1 by (intro Cons.IH) auto
    moreover have "drop (length ys) b1 = drop (length ys) b" using zy by (simp add: b1_def)
    moreover have "length (pre @ tok_bytes t) < length inp" using Cons by (simp add: inp_def)
    ultimately show ?thesis using unf by (simp add: inp_def)
  qed
qed simp

subsection \<open>The compressor\<close>

definition same_at :: "bytes \<Rightarrow> nat \<Rightarrow> nat \<Rightarrow> nat \<Rightarrow> bool" where
  "same_at inp ref p k \<longleftrightarrow> inp ! (ref + k) = inp ! (p + k)"

lemma lzf_unrolled_ok:
  assumes "ref < p" "p + len + n < length inp"
  shows "\<exists>len' d. lzf_unrolled n inp p ref len = Some (len', d) \<and> len \<le> len' \<and> len' \<le> len + n \<and>
    (\<forall>k. len < k \<and> k < len' \<longrightarrow> same_at inp ref p k) \<and> (d \<longrightarrow> len < len') \<and>
    (\<not> d \<longrightarrow> len' = len + n \<and> (len < len' \<longrightarrow> same_at inp ref p len'))"
  using assms
proof (induction n arbitrary: len)
  case (Suc n)
  have g: "get_byte inp (int (ref + (len + 1))) = Some (inp ! (ref + (len + 1)))"
    "get_byte inp (int (p + (len + 1))) = Some (inp ! (p + (len + 1)))"
    using Suc.prems by (simp_all add: get_byte_def nat_add_distrib)
  show ?case
  proof (cases "same_at inp ref p (len + 1)")
    case True
    from Suc.IH [of "len + 1"] Suc.prems obtain len' d where
      IH: "lzf_unrolled n inp p ref (len + 1) = Some (len', d)" "len + 1 \<le> len'" "len' \<le> len + 1 + n"
      "\<forall>k. len + 1 < k \<and> k < len' \<longrightarrow> same_at inp ref p k"
      "\<not> d \<longrightarrow> len' = len + 1 + n \<and> (len + 1 < len' \<longrightarrow> same_at inp ref p len')" by auto
    have "same_at inp ref p k" if "len < k" "k < len'" for k
      using IH(4) True that by (cases "k = len + 1") auto
    moreover have "\<not> d \<longrightarrow> same_at inp ref p len'"
      using IH(2,5) True by (cases "len' = len + 1") auto
    moreover have "lzf_unrolled (Suc n) inp p ref len = Some (len', d)" using IH(1) True g by (simp add: same_at_def)
    ultimately show ?thesis
      using IH(2,3,5) by (intro exI [of _ len'] exI [of _ d]) auto
  next
    case False
    then have "lzf_unrolled (Suc n) inp p ref len = Some (len + 1, True)" using g by (simp add: same_at_def)
    then show ?thesis by (intro exI [of _ "len + 1"] exI [of _ True]) auto
  qed
next
  case 0
  show ?case by (intro exI [of _ len] exI [of _ False]) auto
qed

lemma lzf_extend_ok:
  assumes "ref < p" "maxlen \<le> length inp - p"
  shows "\<exists>len'. lzf_extend inp p ref maxlen len = Some len' \<and> len < len' \<and> len' \<le> max maxlen (len + 1) \<and>
    (\<forall>k. len < k \<and> k < len' \<longrightarrow> same_at inp ref p k)"
  using assms
proof (induction inp p ref maxlen len rule: lzf_extend.induct)
  case (1 inp p ref maxlen len)
  note unf = lzf_extend.simps [of inp p ref maxlen len]
  show ?case
  proof (cases "len + 1 < maxlen")
    case True
    have g: "get_byte inp (int (ref + (len + 1))) = Some (inp ! (ref + (len + 1)))"
      "get_byte inp (int (p + (len + 1))) = Some (inp ! (p + (len + 1)))"
      using "1.prems" True by (simp_all add: get_byte_def nat_add_distrib)
    show ?thesis
    proof (cases "same_at inp ref p (len + 1)")
      case eq: True
      from "1.IH" [OF True g eq [unfolded same_at_def] "1.prems"] obtain len' where
        IH: "lzf_extend inp p ref maxlen (len + 1) = Some len'" "len + 1 < len'" "len' \<le> max maxlen (len + 1 + 1)"
        "\<forall>k. len + 1 < k \<and> k < len' \<longrightarrow> same_at inp ref p k" by auto
      have "same_at inp ref p k" if "len < k" "k < len'" for k
        using IH(4) eq that by (cases "k = len + 1") auto
      moreover have "lzf_extend inp p ref maxlen len = Some len'" using IH(1) True eq g by (simp add: unf same_at_def)
      ultimately show ?thesis using IH(2,3) True by (intro exI [of _ len']) auto
    next
      case False
      then have "lzf_extend inp p ref maxlen len = Some (len + 1)" using True g by (simp add: unf same_at_def)
      then show ?thesis using True by auto
    qed
  next
    case False
    then show ?thesis by (auto simp: unf)
  qed
qed

lemma match_length_ok:
  assumes "ref < p" "p + 2 < length inp" "\<forall>k < 3. same_at inp ref p k"
    and "maxlen = min (length inp - p - 2) 264"
  shows "\<exists>len. match_length inp p ref maxlen = Some len \<and> 3 \<le> len \<and> len \<le> 264 \<and> p + len \<le> length inp \<and>
    (\<forall>k < len. same_at inp ref p k)"
proof -
  have max: "maxlen \<le> length inp - p" using assms(4) by simp
  have ext: "\<exists>len. lzf_extend inp p ref maxlen l = Some len \<and> 3 \<le> len \<and> len \<le> 264 \<and> p + len \<le> length inp \<and>
      (\<forall>k < len. same_at inp ref p k)"
    if l: "2 \<le> l" "l + 1 \<le> max maxlen 3 \<or> l = 18 \<and> 17 \<le> maxlen" "\<forall>k \<le> l. same_at inp ref p k" for l
  proof -
    obtain len where len: "lzf_extend inp p ref maxlen l = Some len" "l < len" "len \<le> max maxlen (l + 1)"
      "\<forall>k. l < k \<and> k < len \<longrightarrow> same_at inp ref p k"
      using lzf_extend_ok [OF assms(1) max, of l] by auto
    have "same_at inp ref p k" if "k < len" for k
      using len(4) l(3) that by (cases "k \<le> l") auto
    moreover have "len \<le> 264 \<and> p + len \<le> length inp"
      using len(3) l(2) assms(2,4) by (auto simp: max_def min_def split: if_splits)
    ultimately show ?thesis using len l(1) by auto
  qed
  show ?thesis
  proof (cases "maxlen > 16")
    case True
    then have "p + 2 + 16 < length inp" using assms(4) by simp
    then obtain len d where u: "lzf_unrolled 16 inp p ref 2 = Some (len, d)" "2 \<le> len" "len \<le> 18"
      "\<forall>k. 2 < k \<and> k < len \<longrightarrow> same_at inp ref p k" "d \<longrightarrow> 2 < len"
      "\<not> d \<longrightarrow> len = 18 \<and> same_at inp ref p len"
      using lzf_unrolled_ok [OF assms(1), of 2 16 inp] by auto
    have low: "same_at inp ref p k" if "k < len" for k
      using u(4) assms(3) that by (cases "k < 3") auto
    show ?thesis
    proof (cases d)
      case True
      then have "match_length inp p ref maxlen = Some len"
        using \<open>maxlen > 16\<close> u(1) by (simp add: match_length_def)
      then show ?thesis using u True low \<open>maxlen > 16\<close> assms(4) by (intro exI [of _ len]) auto
    next
      case False
      then have m: "match_length inp p ref maxlen = lzf_extend inp p ref maxlen 18"
        using \<open>maxlen > 16\<close> u(1,6) by (simp add: match_length_def)
      have "\<forall>k \<le> 18. same_at inp ref p k" using low u(6) False by (auto simp: le_less)
      then show ?thesis unfolding m using ext [of 18] \<open>maxlen > 16\<close> by simp
    qed
  next
    case False
    then have m: "match_length inp p ref maxlen = lzf_extend inp p ref maxlen 2"
      by (simp add: match_length_def)
    have "\<forall>k \<le> 2. same_at inp ref p k" using assms(3) by auto
    then show ?thesis unfolding m using ext [of 2] by simp
  qed
qed

lemma grow_match:
  assumes "off < p" "p + n \<le> length inp" "\<forall>k < n. same_at inp (p - Suc off) p k"
  shows "grow n off (take p inp) = take (p + n) inp"
  using assms
proof (induction n arbitrary: p)
  case (Suc n)
  have "inp ! (p - Suc off) = inp ! p" using Suc.prems(3) by (auto simp: same_at_def)
  then have "take p inp @ [take p inp ! (length (take p inp) - Suc off)] = take (Suc p) inp"
    using Suc.prems by (simp add: take_Suc_conv_app_nth)
  moreover have "same_at inp (Suc p - Suc off) (Suc p) k" if "k < n" for k
    using Suc.prems(1,3) that by (auto simp: same_at_def Suc_diff_Suc dest: spec [of _ "Suc k"])
  ultimately show ?case using Suc.IH [of "Suc p"] Suc.prems(1,2) by (simp add: grow.simps(2))
qed simp

subsection \<open>What the compressor has written\<close>

text \<open>
  The output starts with complete tokens \<open>ts\<close> that decode to the input up to the pending
  literals; a pending run has a byte reserved for its length.
\<close>

definition pending :: "bytes \<Rightarrow> lzf_state \<Rightarrow> bytes" where
  "pending inp s = take (lit s) (drop (ip s - lit s) inp)"

definition lzf_rep :: "bytes \<Rightarrow> lzf_state \<Rightarrow> lzf_tok list \<Rightarrow> bytes \<Rightarrow> bool" where
  "lzf_rep inp s ts rest \<longleftrightarrow>
     (\<exists>x. out s = stream ts @ (if lit s = 0 then [] else x # pending inp s) @ rest) \<and>
     op s = length (stream ts) + 1 + lit s \<and> (\<forall>t \<in> set ts. tok_ok t) \<and>
     decode ts [] = Some (take (ip s - lit s) inp) \<and> lit s \<le> ip s \<and> ip s \<le> length inp \<and> lit s \<le> 32"

lemma length_pending: "lit s \<le> ip s \<Longrightarrow> ip s \<le> length inp \<Longrightarrow> length (pending inp s) = lit s"
  by (simp add: pending_def)

lemma take_pending:
  "lit s \<le> ip s \<Longrightarrow> ip s \<le> length inp \<Longrightarrow> take (ip s - lit s) inp @ pending inp s = take (ip s) inp"
  using take_add [of "ip s - lit s" "lit s" inp] by (simp add: pending_def)

lemma stop_run_ok:
  assumes rep: "lzf_rep inp s ts rest" and room: "op s \<le> length (out s)"
  shows "\<exists>ts' rest'. stop_run s = Some (stream ts' @ rest') \<and> (\<forall>t \<in> set ts'. tok_ok t) \<and>
    length (stream ts' @ rest') = length (out s) \<and>
    decode ts' [] = Some (take (ip s) inp) \<and> length (stream ts') = op s - (if lit s = 0 then 1 else 0)"
proof (cases "lit s = 0")
  case True
  then have o: "out s = stream ts @ rest" "op s = length (stream ts) + 1" using rep by (auto simp: lzf_rep_def)
  with room obtain y rest1 where r: "rest = y # rest1" by (cases rest) auto
  have "stop_run s = Some (stream ts @ of_int (-1) # rest1)"
    using o r True by (simp add: stop_run_def put_byte_mid)
  then show ?thesis
    using o r rep True by (intro exI [of _ ts] exI [of _ "of_int (-1) # rest1"]) (simp add: lzf_rep_def)
next
  case False
  then obtain x where o: "out s = stream ts @ x # pending inp s @ rest" "op s = length (stream ts) + 1 + lit s"
    using rep by (auto simp: lzf_rep_def)
  have l: "lit s \<le> ip s" "ip s \<le> length inp" "lit s \<le> 32" using rep by (auto simp: lzf_rep_def)
  note len = length_pending [OF l(1,2)]
  have lit: "of_int (int (lit s) - 1) = (of_nat (length (pending inp s) - 1) :: byte)"
    using False len by (cases "lit s") auto
  have "stop_run s = Some (stream ts @ of_nat (length (pending inp s) - 1) # pending inp s @ rest)"
    using o unfolding lit [symmetric] by (simp add: stop_run_def put_byte_mid)
  moreover have "decode (ts @ [Lits (pending inp s)]) [] = Some (take (ip s) inp)"
    using rep take_pending [OF l(1,2)] by (simp add: lzf_rep_def decode_append)
  ultimately show ?thesis
    using o False rep l len
    by (intro exI [of _ "ts @ [Lits (pending inp s)]"] exI [of _ rest]) (auto simp: lzf_rep_def)
qed

lemma pending_Suc:
  assumes "lit s \<le> ip s" "ip s < length inp" "ip s' = ip s + 1" "lit s' = lit s + 1"
  shows "pending inp s' = pending inp s @ [inp ! ip s]"
proof -
  define xs where "xs = drop (ip s - lit s) inp"
  have "lit s < length xs" "xs ! lit s = inp ! ip s" using assms by (auto simp: xs_def)
  then show ?thesis using assms by (simp add: pending_def take_Suc_conv_app_nth flip: xs_def)
qed

lemma lzf_literal_ok:
  assumes rep: "lzf_rep inp s ts rest" and lit: "lit s < 32" and room: "op s < length (out s)"
    and more: "ip s < length inp"
  shows "\<exists>s' ts' rest'. lzf_literal inp s = Some s' \<and> lzf_rep inp s' ts' rest' \<and> ip s' = ip s + 1 \<and>
    length (out s') = length (out s) \<and>
    (lit s' = lit s + 1 \<and> lit s' < 32 \<and> op s' = op s + 1 \<or> lit s = 31 \<and> lit s' = 0 \<and> op s' = op s + 2)"
proof -
  have l: "lit s \<le> ip s" "ip s \<le> length inp" "op s = length (stream ts) + 1 + lit s"
    using rep by (auto simp: lzf_rep_def)
  note len = length_pending [OF l(1,2)]
  have "\<exists>x y rest1. out s = stream ts @ x # pending inp s @ y # rest1"
  proof (cases "lit s = 0")
    case True
    then have "out s = stream ts @ rest" using rep by (auto simp: lzf_rep_def)
    moreover from this obtain x y rest1 where "rest = x # y # rest1"
      using room l True by (cases rest; cases "tl rest") auto
    ultimately show ?thesis using True by (simp add: pending_def)
  next
    case False
    then obtain x where "out s = stream ts @ x # pending inp s @ rest" using rep by (auto simp: lzf_rep_def)
    moreover from this obtain y rest1 where "rest = y # rest1" using room l len by (cases rest) auto
    ultimately show ?thesis by auto
  qed
  then obtain x y rest1 where o: "out s = stream ts @ x # pending inp s @ y # rest1" by blast
  define s1 where "s1 = s\<lparr>out := stream ts @ x # pending inp s @ inp ! ip s # rest1,
    op := op s + 1, ip := ip s + 1, lit := lit s + 1\<rparr>"
  have put: "put_byte (out s) (int (op s)) (inp ! ip s) = Some (out s1)"
    using put_byte_mid [of "int (op s)" "stream ts @ x # pending inp s"] o l len by (simp add: s1_def)
  have lit_eq: "lzf_literal inp s = (if lit s1 = MAX_LIT then do { b1 \<leftarrow> stop_run s1; Some (s1\<lparr>out := b1, lit := 0, op := op s1 + 1\<rparr>) } else Some s1)"
    using more put by (simp add: lzf_literal_def get_byte_nat s1_def)
  have "pending inp s1 = pending inp s @ [inp ! ip s]"
    using l more by (intro pending_Suc) (auto simp: s1_def)
  then have rep1: "lzf_rep inp s1 ts rest1" and len1: "length (out s1) = length (out s)"
    using rep l more lit o by (auto simp: lzf_rep_def s1_def)
  show ?thesis
  proof (cases "lit s1 = MAX_LIT")
    case False
    then show ?thesis
      using lit_eq rep1 len1 lit by (intro exI [of _ s1] exI [of _ ts] exI [of _ rest1]) (auto simp: s1_def MAX_LIT_def)
  next
    case True
    have "op s1 \<le> length (out s1)" using room len1 by (simp add: s1_def)
    from stop_run_ok [OF rep1 this] obtain ts' rest' where
      st: "stop_run s1 = Some (stream ts' @ rest')" "\<forall>t \<in> set ts'. tok_ok t"
      "length (stream ts' @ rest') = length (out s1)" "decode ts' [] = Some (take (ip s1) inp)"
      "length (stream ts') = op s1" using True by (auto simp: MAX_LIT_def)
    define s2 where "s2 = s1\<lparr>out := stream ts' @ rest', lit := 0, op := op s1 + 1\<rparr>"
    have "lzf_rep inp s2 ts' rest'"
      using st rep1 by (simp add: lzf_rep_def s2_def)
    moreover have "lzf_literal inp s = Some s2" using lit_eq True st(1) by (simp add: s2_def)
    ultimately show ?thesis
      using st(3) len1 True
      by (intro exI [of _ s2] exI [of _ ts'] exI [of _ rest']) (simp add: s2_def s1_def MAX_LIT_def)
  qed
qed

lemma write_ref_ok:
  assumes "b = xs @ r0 # r1 # r2 # rest"
  shows "\<exists>rest'. write_ref b (length xs) off len =
      Some (xs @ tok_bytes (Ref off len) @ rest', length xs + length (tok_bytes (Ref off len))) \<and>
    length (xs @ tok_bytes (Ref off len) @ rest') = length b"
proof -
  have put2: "put_byte (xs @ y # z # zs) k v = Some (xs @ y # v # zs)" if "k = int (length xs) + 1" for k y z v zs
    using that put_byte_mid [of "int (length xs) + 1" "xs @ [y]" z zs v] by simp
  have put3: "put_byte (xs @ y # z # w # zs) k v = Some (xs @ y # z # v # zs)" if "k = int (length xs) + 2" for k y z w v zs
    using that put_byte_mid [of "int (length xs) + 2" "xs @ [y, z]" w zs v] by simp
  show ?thesis
    using assms
    by (cases "len < 7")
       (auto simp: write_ref_def put_byte_mid put2 put3)
qed

lemma FRST_NEXT_Some:
  "p + 1 < length inp \<Longrightarrow> \<exists>h. FRST inp p = Some h"
  "p + 2 < length inp \<Longrightarrow> \<exists>h'. NEXT h inp p = Some h'"
  by (simp_all add: FRST_def NEXT_def get_byte_def nat_add_distrib)

lemma pending_cong [simp]: "pending inp (s\<lparr>hval := h, htab := t\<rparr>) = pending inp s"
  by (simp add: pending_def)

lemma lzf_rep_cong:
  "lzf_rep inp s ts rest \<Longrightarrow> lzf_rep inp (s\<lparr>hval := h, htab := t\<rparr>) ts rest"
  by (auto simp: lzf_rep_def)

lemma lzf_match_ok:
  assumes rep: "lzf_rep inp s ts rest" and room: "out_end \<le> length (out s)" and lit: "lit s < 32"
    and more: "ip s + 2 < length inp" and ref: "ref < ip s" "off = ip s - ref - 1" "off < 8192"
    and same: "\<forall>k < 3. same_at inp ref (ip s) k"
  shows "lzf_match inp out_end ref off s = Some Fail \<or>
    (\<exists>s' ts' rest' r. lzf_match inp out_end ref off s = Some r \<and> lzf_rep inp s' ts' rest' \<and>
      (r = Continue s' \<or> r = Break s' \<and> length inp \<le> ip s' + 2) \<and>
      ip s < ip s' \<and> length (out s') = length (out s) \<and> lit s' = 0 \<and> op s' \<le> out_end)"
proof -
  define nolit where "nolit = (if lit s = 0 then 1 else 0 :: nat)"
  define maxlen where "maxlen = min (length inp - ip s - 2) 264"
  show ?thesis
  proof (cases "op s + 3 + 1 \<ge> out_end \<and> op s - nolit + 3 + 1 \<ge> out_end")
    case True
    then show ?thesis by (simp add: lzf_match_def nolit_def Let_def)
  next
    case False
    have op: "1 \<le> op s" "nolit \<le> 1" using rep by (auto simp: lzf_rep_def nolit_def)
    then have fits: "op s - nolit + 4 < out_end" using False by auto
    then have "op s \<le> length (out s)" using room op by linarith
    from stop_run_ok [OF rep this] obtain ts1 rest1 where
      st: "stop_run s = Some (stream ts1 @ rest1)" "\<forall>t \<in> set ts1. tok_ok t"
      "length (stream ts1 @ rest1) = length (out s)" "decode ts1 [] = Some (take (ip s) inp)"
      "length (stream ts1) = op s - nolit" by (auto simp: nolit_def)
    obtain len0 where len0: "match_length inp (ip s) ref maxlen = Some len0" "3 \<le> len0" "len0 \<le> 264"
      "ip s + len0 \<le> length inp" "\<forall>k < len0. same_at inp ref (ip s) k"
      using match_length_ok [OF ref(1) more same maxlen_def] by blast
    define len tok where "len = len0 - 2" and "tok = Ref off len"
    have len: "1 \<le> len" "len \<le> 262" "len + 2 = len0" using len0(2,3) by (auto simp: len_def)
    have "3 \<le> length rest1" using st(3,5) fits room by simp
    then obtain r0 r1 r2 rest2 where "rest1 = r0 # r1 # r2 # rest2"
      by (auto simp: numeral_3_eq_3 Suc_le_length_iff)
    then obtain rest' where w: "write_ref (stream ts1 @ rest1) (op s - nolit) off len =
        Some (stream (ts1 @ [tok]) @ rest', length (stream (ts1 @ [tok])))"
      "length (stream (ts1 @ [tok]) @ rest') = length (out s)"
      using write_ref_ok [of "stream ts1 @ rest1" "stream ts1" r0 r1 r2 rest2 off len] st(3,5)
      by (auto simp: tok_def)
    define s1 where "s1 = s\<lparr>out := stream (ts1 @ [tok]) @ rest', op := length (stream (ts1 @ [tok])) + 1,
      lit := 0, ip := ip s + 1 + (len + 1)\<rparr>"
    have "ip s - Suc off = ref" using ref by simp
    then have "grow len0 off (take (ip s) inp) = take (ip s + len0) inp"
      using ref len0(4,5) by (intro grow_match) auto
    moreover have "ip s1 = ip s + len0" using len by (simp add: s1_def)
    ultimately have "decode (ts1 @ [tok]) [] = Some (take (ip s1) inp)"
      using st(4) ref len more by (simp add: decode_append tok_def)
    then have rep1: "lzf_rep inp s1 (ts1 @ [tok]) rest'"
      using st(2) len ref(3) len0(4) by (simp add: lzf_rep_def s1_def) (simp add: tok_def)
    have "length (tok_bytes tok) \<le> 3" by (simp add: tok_def)
    then have s1: "ip s < ip s1" "length (out s1) = length (out s)" "lit s1 = 0" "op s1 \<le> out_end"
      using w(2) st(5) fits by (auto simp: s1_def)
    have m: "lzf_match inp out_end ref off s =
        (if ip s1 + 2 \<ge> length inp then Some (Break s1)
         else do {
           h0 \<leftarrow> FRST inp (ip s1 - 2); h1 \<leftarrow> NEXT h0 inp (ip s1 - 2); h2 \<leftarrow> NEXT h1 inp (ip s1 - 2 + 1);
           Some (Continue (s1\<lparr>hval := h2, htab := (htab s1)(IDX h1 := of_nat (ip s1 - 2), IDX h2 := of_nat (ip s1 - 2 + 1))\<rparr>))
         })"
      unfolding lzf_match_def Let_def nolit_def [symmetric] MAX_REF_def maxlen_def [symmetric]
        Eq_FalseI [OF False] if_False st(1) len0(1) bind.bind_lunit len_def [symmetric] w(1) prod.case
      by (simp add: s1_def)
    show ?thesis
    proof (cases "ip s1 + 2 \<ge> length inp")
      case True
      then show ?thesis using m rep1 s1 by auto
    next
      case False
      define q where "q = ip s1 - 2"
      have q: "q + 1 < length inp" "q + 2 < length inp" "q + 1 + 2 < length inp"
        using False s1(1) more by (auto simp: q_def s1_def)
      obtain h0 where h0: "FRST inp q = Some h0" using FRST_NEXT_Some(1) [OF q(1)] by blast
      obtain h1 where h1: "NEXT h0 inp q = Some h1" using FRST_NEXT_Some(2) [OF q(2)] by blast
      obtain h2 where h2: "NEXT h1 inp (q + 1) = Some h2" using FRST_NEXT_Some(2) [OF q(3)] by blast
      define s2 where "s2 = s1\<lparr>hval := h2, htab := (htab s1)(IDX h1 := of_nat q, IDX h2 := of_nat (q + 1))\<rparr>"
      have "lzf_match inp out_end ref off s = Some (Continue s2)"
        using m False h0 h1 h2 by (simp add: s2_def flip: q_def)
      moreover have "lzf_rep inp s2 (ts1 @ [tok]) rest'" unfolding s2_def by (rule lzf_rep_cong [OF rep1])
      ultimately show ?thesis using s1 by (intro disjI2 exI [of _ s2]) (auto simp: s2_def)
    qed
  qed
qed

lemma slot_distance:
  fixes p ref :: nat
  assumes "p < 2 ^ 32" "ref < 2 ^ 32" "(of_nat p - of_nat ref - 1 :: u64) < 8192"
  shows "ref < p" "unat (of_nat p - of_nat ref - 1 :: u64) = p - ref - 1"
proof -
  define off :: u64 where "off = of_nat p - of_nat ref - 1"
  have off: "unat off < 8192" using assms(3) by (simp add: off_def word_less_nat_alt)
  show less: "ref < p"
  proof (rule ccontr)
    assume "\<not> ref < p"
    define k where "k = ref - p + 1"
    have "off + of_nat k = 0" using \<open>\<not> ref < p\<close> by (simp add: off_def k_def of_nat_diff)
    moreover have "unat (off + of_nat k) = unat off + k"
      using off assms(1,2) by (simp add: unat_word_ariths unat_of_nat k_def)
    ultimately show False by (simp add: k_def)
  qed
  have "off = of_nat (p - ref - 1)" using less by (simp add: off_def of_nat_diff)
  then show "unat (of_nat p - of_nat ref - 1 :: u64) = p - ref - 1"
    using assms(1) unfolding off_def [symmetric] by (simp add: unat_of_nat)
qed

lemma lzf_step_ok:
  assumes rep: "lzf_rep inp s ts rest" and room: "out_end \<le> length (out s)" and lit: "lit s < 32"
    and more: "ip s + 2 < length inp" and small: "length inp < 2 ^ 32"
  shows "lzf_step inp out_end s = Some Fail \<or>
    (\<exists>s' ts' rest' r. lzf_step inp out_end s = Some r \<and> lzf_rep inp s' ts' rest' \<and>
      (r = Continue s' \<or> r = Break s' \<and> length inp \<le> ip s' + 2) \<and>
      ip s < ip s' \<and> length (out s') = length (out s) \<and> lit s' < 32)"
proof -
  obtain h where h: "NEXT (hval s) inp (ip s) = Some h" using FRST_NEXT_Some(2) [OF more] by blast
  define ref where "ref = unat (htab s (IDX h))"
  define off :: u64 where "off = of_nat (ip s) - of_nat ref - 1"
  define s1 where "s1 = s\<lparr>hval := h, htab := (htab s)(IDX h := of_nat (ip s))\<rparr>"
  have s1: "ip s1 = ip s" "op s1 = op s" "lit s1 = lit s" "out s1 = out s" by (simp_all add: s1_def)
  have rep1: "lzf_rep inp s1 ts rest" unfolding s1_def by (rule lzf_rep_cong [OF rep])
  define cand where "cand \<longleftrightarrow> off < MAX_OFF \<and> ref > 0"
  have refb: "ref < 2 ^ 32" using unsigned_less [of "htab s (IDX h)"] by (simp add: ref_def)
  have dist: "ref < ip s \<and> unat off = ip s - ref - 1" if cand
    using slot_distance [of "ip s" ref] that refb more small by (simp add: cand_def off_def MAX_OFF_def)
  define found where "found \<longleftrightarrow> cand \<and> (\<forall>k < 3. same_at inp ref (ip s) k)"
  have "(if cand then lzf_probe inp (ip s) ref else Some False) = Some found"
    using dist more
    by (auto simp: found_def lzf_probe_def get_byte_def nat_add_distrib same_at_def numeral_3_eq_3 less_Suc_eq)
  then have st: "lzf_step inp out_end s =
      (if found then lzf_match inp out_end ref (unat off) s1
       else if op s1 \<ge> out_end then Some Fail else map_option Continue (lzf_literal inp s1))"
    unfolding lzf_step_def h Let_def bind.bind_lunit ref_def [symmetric] off_def [symmetric] s1_def [symmetric]
      cand_def [symmetric] by simp
  show ?thesis
  proof (cases found)
    case True
    then have c: cand "\<forall>k < 3. same_at inp ref (ip s1) k" by (auto simp: found_def s1)
    have "unat off < 8192" using c(1) by (simp add: cand_def MAX_OFF_def word_less_nat_alt)
    then show ?thesis
      using lzf_match_ok [OF rep1, of out_end ref "unat off"] dist [OF c(1)] c(2) room lit more True st s1 by auto
  next
    case False
    then show ?thesis
    proof (cases "op s \<ge> out_end")
      case True
      with False st s1 show ?thesis by simp
    next
      case room2: False
      have "op s1 < length (out s1)" using room2 room s1 by simp
      then obtain s' ts' rest' where "lzf_literal inp s1 = Some s'" "lzf_rep inp s' ts' rest'" "ip s' = ip s + 1"
        "length (out s') = length (out s)" "lit s' < 32"
        using lzf_literal_ok [OF rep1] lit more s1 by auto
      with False room2 st s1 show ?thesis by auto
    qed
  qed
qed

lemma lzf_loop_ok:
  assumes "lzf_rep inp s ts rest" "out_end \<le> length (out s)" "lit s < 32" "length inp < 2 ^ 32"
  shows "lzf_loop inp out_end s = Some None \<or>
    (\<exists>s' ts' rest'. lzf_loop inp out_end s = Some (Some s') \<and> lzf_rep inp s' ts' rest' \<and>
      length inp \<le> ip s' + 2 \<and> length (out s') = length (out s) \<and> lit s' < 32)"
  using assms
proof (induction "length inp - ip s" arbitrary: s ts rest rule: less_induct)
  case less
  note unf = lzf_loop.simps [of inp out_end s]
  show ?case
  proof (cases "ip s + 2 < length inp")
    case True
    from lzf_step_ok [OF less.prems(1-3) True less.prems(4)] show ?thesis
    proof (elim disjE exE conjE)
      assume "lzf_step inp out_end s = Some Fail"
      then show ?thesis using True by (simp add: unf)
    next
      fix s' ts' rest' r
      assume s': "lzf_step inp out_end s = Some r" "lzf_rep inp s' ts' rest'" "ip s < ip s'"
        "length (out s') = length (out s)" "lit s' < 32" and r: "r = Continue s'"
      have "lzf_loop inp out_end s = lzf_loop inp out_end s'" using True s'(1) r by (simp add: unf)
      then show ?thesis
        using less.hyps [of s' ts' rest'] s' True less.prems by auto
    next
      fix s' ts' rest' r
      assume "lzf_step inp out_end s = Some r" "lzf_rep inp s' ts' rest'"
        "length (out s') = length (out s)" "lit s' < 32" "r = Break s'" "length inp \<le> ip s' + 2"
      then show ?thesis using True by (simp add: unf) blast
    qed
  next
    case False
    then show ?thesis using less.prems by (auto simp: unf)
  qed
qed

lemma lzf_tail_ok:
  assumes "lzf_rep inp s ts rest" "lit s < 32" "ip s + n = length inp" "n \<le> 2" "op s + 3 \<le> length (out s)"
  shows "\<exists>s' ts' rest'. lzf_tail n inp s = Some s' \<and> lzf_rep inp s' ts' rest' \<and> ip s' = length inp \<and>
    length (out s') = length (out s) \<and> op s' \<le> op s + 3"
proof -
  consider "n = 0" | "n = 1" | "n = 2" using assms(4) by linarith
  then show ?thesis
  proof cases
    case 1
    with assms show ?thesis by auto
  next
    case 2
    then obtain s' ts' rest' where "lzf_literal inp s = Some s'" "lzf_rep inp s' ts' rest'" "ip s' = ip s + 1"
      "length (out s') = length (out s)" "op s' \<le> op s + 2"
      using lzf_literal_ok [OF assms(1,2)] assms(3,5) by fastforce
    with 2 assms(3) show ?thesis by (auto simp: numeral_eq_Suc)
  next
    case 3
    then obtain s1 ts1 rest1 where s1: "lzf_literal inp s = Some s1" "lzf_rep inp s1 ts1 rest1" "ip s1 = ip s + 1"
      "length (out s1) = length (out s)"
      "lit s1 = lit s + 1 \<and> lit s1 < 32 \<and> op s1 = op s + 1 \<or> lit s = 31 \<and> lit s1 = 0 \<and> op s1 = op s + 2"
      using lzf_literal_ok [OF assms(1,2)] assms(3,5) by fastforce
    then have room: "lit s1 < 32" "op s1 < length (out s1)" "ip s1 < length inp" using assms 3 by auto
    obtain s2 ts2 rest2 where s2: "lzf_literal inp s1 = Some s2" "lzf_rep inp s2 ts2 rest2" "ip s2 = ip s1 + 1"
      "length (out s2) = length (out s1)"
      "lit s2 = lit s1 + 1 \<and> lit s2 < 32 \<and> op s2 = op s1 + 1 \<or> lit s1 = 31 \<and> lit s2 = 0 \<and> op s2 = op s1 + 2"
      using lzf_literal_ok [OF s1(2) room] by blast
    have "op s2 \<le> op s + 3" using s1(5) s2(5) by linarith
    then show ?thesis using s1(1,3,4) s2(1-4) 3 assms(3)
      by (intro exI [of _ s2] exI [of _ ts2] exI [of _ rest2]) (simp add: numeral_2_eq_2)
  qed
qed

lemma lzf_compress_one_byte: "0 < out_len \<Longrightarrow> lzf_compress tab [x] outbuf out_len = None"
  by (simp add: lzf_compress_def FRST_def get_byte_def)

lemma lzf_compress_decompress:
  assumes "2 \<le> length inp" "length inp < 2 ^ 32" "out_len \<le> length outbuf"
  shows "\<exists>r. lzf_compress tab inp outbuf out_len = Some r \<and>
    (\<forall>n b. r = Some (n, b) \<longrightarrow> 0 < n \<and> n \<le> out_len \<and> length b = length outbuf \<and>
      (\<forall>buf m. length inp \<le> m \<and> m \<le> length buf \<longrightarrow>
        lzf_decompress (take n b) buf m = Some (Inr (length inp, inp @ drop (length inp) buf))))"
proof (cases "out_len = 0")
  case False
  obtain h where h: "FRST inp 0 = Some h" using FRST_NEXT_Some(1) [of 0 inp] assms(1) by auto
  define s0 where "s0 = \<lparr>ip = 0, op = 1, lit = 0, hval = h, htab = tab, out = outbuf\<rparr>"
  have rep: "lzf_rep inp s0 [] outbuf" by (simp add: lzf_rep_def s0_def)
  have unf: "lzf_compress tab inp outbuf out_len = (lzf_loop inp out_len s0 \<bind>
      case_option (Some None) (\<lambda>s. if op s + 3 > out_len then Some None
        else do { s1 \<leftarrow> lzf_tail (length inp - ip s) inp s; b \<leftarrow> stop_run s1;
                  Some (Some (op s1 - (if lit s1 = 0 then 1 else 0), b)) }))"
    using False assms(1) h by (auto simp: lzf_compress_def s0_def)
  have "lzf_loop inp out_len s0 = Some None \<or>
    (\<exists>s' ts' rest'. lzf_loop inp out_len s0 = Some (Some s') \<and> lzf_rep inp s' ts' rest' \<and>
      length inp \<le> ip s' + 2 \<and> length (out s') = length (out s0) \<and> lit s' < 32)"
    by (rule lzf_loop_ok [OF rep]) (use assms in \<open>simp_all add: s0_def\<close>)
  then show ?thesis
  proof (elim disjE exE conjE)
    fix s ts rest
    assume s: "lzf_loop inp out_len s0 = Some (Some s)" "lzf_rep inp s ts rest" "length inp \<le> ip s + 2"
      "length (out s) = length (out s0)" "lit s < 32"
    show ?thesis
    proof (cases "op s + 3 > out_len")
      case True
      with s(1) show ?thesis by (simp add: unf)
    next
      case room: False
      have le: "ip s \<le> length inp" using s(2) by (simp add: lzf_rep_def)
      have len: "length (out s) = length outbuf" using s(4) by (simp add: s0_def)
      obtain s1 ts1 rest1 where s1: "lzf_tail (length inp - ip s) inp s = Some s1" "lzf_rep inp s1 ts1 rest1"
        "ip s1 = length inp" "length (out s1) = length outbuf" "op s1 \<le> out_len"
        using lzf_tail_ok [OF s(2,5), of "length inp - ip s"] le len s(3) room assms(3) by fastforce
      obtain ts2 rest2 where b: "stop_run s1 = Some (stream ts2 @ rest2)" "\<forall>t \<in> set ts2. tok_ok t"
        "length (stream ts2 @ rest2) = length outbuf" "decode ts2 [] = Some inp"
        "length (stream ts2) = op s1 - (if lit s1 = 0 then 1 else 0)"
        using stop_run_ok [OF s1(2)] s1 assms(3) by auto
      have ne: "ts2 \<noteq> []" using b(4) assms(1) by auto
      then have "0 < length (stream ts2)" by (cases ts2; cases "hd ts2") auto
      moreover have "lzf_decompress (stream ts2) buf m = Some (Inr (length inp, inp @ drop (length inp) buf))"
        if "length inp \<le> m" "m \<le> length buf" for buf m
        using decompress_stream [of ts2 "[]" inp m buf "[]"] that ne b by (simp add: lzf_decompress_def)
      ultimately show ?thesis using s(1) room s1 b by (simp add: unf)
    qed
  qed (simp add: unf)
qed (simp add: lzf_compress_def)

text \<open>
  C11: compressing any input of at least two bytes, with any contents of the uninitialised hash
  table, terminates without touching memory outside of the input and the output area, and when
  it does not give up (return value 0) the bytes it produced fit in the area and decompress, into
  any buffer with room for them, to exactly the input.
\<close>

theorem lzf_roundtrip:
  assumes "2 \<le> length inp" "length inp < 2 ^ 32" "out_len \<le> length outbuf"
  shows "\<exists>r. lzf_compress tab inp outbuf out_len = Some r \<and>
    (\<forall>n b. r = Some (n, b) \<longrightarrow> 0 < n \<and> n \<le> out_len \<and> length b = length outbuf \<and>
      (\<forall>buf m. length inp \<le> m \<and> m \<le> length buf \<longrightarrow>
        lzf_decompress (take n b) buf m = Some (Inr (length inp, inp @ drop (length inp) buf))))"
  by (rule lzf_compress_decompress [OF assms])

theorem lzf_roundtrip_witness:
  "lzf_compress (\<lambda>_. 0) [7, 7, 7, 7, 7, 7, 7, 7] (replicate 8 0) 7 \<noteq> None"
  using lzf_roundtrip [of "[7, 7, 7, 7, 7, 7, 7, 7]" 7 "replicate 8 0" "\<lambda>_. 0"] by auto

end
