(* ===== verification/Crc.thy ===== *)
theory Crc
  imports Redis_Prelude
begin

unbundle bit_operations_syntax

text \<open>
  The 64-bit checksum of dump files and serialised values: the bit by bit function of
  \<open>crc64.c\<close> and the table driven, eight bytes at a time routine of \<open>crcspeed.c\<close> whose tables
  are computed with the former when the server starts.  The byte order of the host is the
  argument \<open>le\<close>, as the code has both variants and selects one when it runs.
\<close>

subsection \<open>Bit by bit\<close>

definition POLY :: u64 where "POLY = 0xad93d23594c935a9"

fun crc_reflect_loop :: "nat \<Rightarrow> u64 \<Rightarrow> u64 \<Rightarrow> u64" where
  "crc_reflect_loop 0 data ret = ret"
| "crc_reflect_loop (Suc n) data ret =
     (let data1 = drop_bit 1 data in crc_reflect_loop n data1 (push_bit 1 ret OR (data1 AND 1)))"

definition crc_reflect :: "u64 \<Rightarrow> nat \<Rightarrow> u64" where
  "crc_reflect data data_len = crc_reflect_loop (data_len - 1) data (data AND 1)"

definition crc_bit :: "byte \<Rightarrow> u64 \<Rightarrow> byte \<Rightarrow> u64" where
  "crc_bit c crc i =
     (let b = (crc AND 0x8000000000000000 \<noteq> 0);
          b1 = (if c AND i \<noteq> 0 then \<not> b else b);
          crc1 = push_bit 1 crc
      in if b1 then crc1 XOR POLY else crc1)"

definition crc_byte :: "u64 \<Rightarrow> byte \<Rightarrow> u64" where
  "crc_byte crc c = foldl (crc_bit c) crc [0x01, 0x02, 0x04, 0x08, 0x10, 0x20, 0x40, 0x80] AND 0xffffffffffffffff"

text \<open>The function \<open>_crc64\<close>.\<close>

definition crc64_bits :: "u64 \<Rightarrow> bytes \<Rightarrow> u64" where
  "crc64_bits crc data = crc_reflect (foldl crc_byte crc data AND 0xffffffffffffffff) 64 XOR 0"

subsection \<open>Tables\<close>

text \<open>The byte at the address of an \<open>int\<close> below 256.\<close>

definition int_first_byte :: "bool \<Rightarrow> nat \<Rightarrow> byte" where
  "int_first_byte le n = (if le then of_nat n else of_nat (n div 2 ^ 24))"

fun nest_crc :: "u64 list \<Rightarrow> nat \<Rightarrow> u64 \<Rightarrow> u64" where
  "nest_crc t0 0 crc = crc"
| "nest_crc t0 (Suc k) crc =
     (let c = nest_crc t0 k crc in (t0 ! unat (c AND 0xff)) XOR drop_bit 8 c)"

definition crcspeed64little_init :: "bool \<Rightarrow> (u64 \<Rightarrow> bytes \<Rightarrow> u64) \<Rightarrow> u64 list list" where
  "crcspeed64little_init le crcfn =
     (let t0 = map (\<lambda>n. crcfn 0 [int_first_byte le n]) [0..<256]
      in map (\<lambda>k. map (\<lambda>n. nest_crc t0 k (t0 ! n)) [0..<256]) [0..<8])"

definition rev8 :: "u64 \<Rightarrow> u64" where
  "rev8 a = word_of_int (le_uint (rev (le_bytes 8 (uint a))))"

definition crcspeed64big_init :: "bool \<Rightarrow> (u64 \<Rightarrow> bytes \<Rightarrow> u64) \<Rightarrow> u64 list list" where
  "crcspeed64big_init le fn = map (map rev8) (crcspeed64little_init le fn)"

definition crcspeed64native_init :: "bool \<Rightarrow> (u64 \<Rightarrow> bytes \<Rightarrow> u64) \<Rightarrow> u64 list list" where
  "crcspeed64native_init le fn = (if le then crcspeed64little_init le fn else crcspeed64big_init le fn)"

definition crc64_init :: "bool \<Rightarrow> u64 list list" where
  "crc64_init le = crcspeed64native_init le crc64_bits"

subsection \<open>Eight bytes at a time\<close>

definition load64 :: "bool \<Rightarrow> bytes \<Rightarrow> u64" where
  "load64 le bs = word_of_int (le_uint (if le then take 8 bs else rev (take 8 bs)))"

definition little_byte :: "u64 list list \<Rightarrow> u64 \<Rightarrow> byte \<Rightarrow> u64" where
  "little_byte t crc b = (t ! 0 ! unat ((crc XOR ucast b) AND 0xff)) XOR drop_bit 8 crc"

definition little_slice :: "u64 list list \<Rightarrow> u64 \<Rightarrow> u64 \<Rightarrow> u64" where
  "little_slice t crc0 w =
     (let crc = crc0 XOR w
      in (t ! 7 ! unat (crc AND 0xff)) XOR
         (t ! 6 ! unat (drop_bit 8 crc AND 0xff)) XOR
         (t ! 5 ! unat (drop_bit 16 crc AND 0xff)) XOR
         (t ! 4 ! unat (drop_bit 24 crc AND 0xff)) XOR
         (t ! 3 ! unat (drop_bit 32 crc AND 0xff)) XOR
         (t ! 2 ! unat (drop_bit 40 crc AND 0xff)) XOR
         (t ! 1 ! unat (drop_bit 48 crc AND 0xff)) XOR
         (t ! 0 ! unat (drop_bit 56 crc)))"

definition big_byte :: "u64 list list \<Rightarrow> u64 \<Rightarrow> byte \<Rightarrow> u64" where
  "big_byte t crc b = (t ! 0 ! unat (drop_bit 56 crc XOR ucast b)) XOR push_bit 8 crc"

definition big_slice :: "u64 list list \<Rightarrow> u64 \<Rightarrow> u64 \<Rightarrow> u64" where
  "big_slice t crc0 w =
     (let crc = crc0 XOR w
      in (t ! 0 ! unat (crc AND 0xff)) XOR
         (t ! 1 ! unat (drop_bit 8 crc AND 0xff)) XOR
         (t ! 2 ! unat (drop_bit 16 crc AND 0xff)) XOR
         (t ! 3 ! unat (drop_bit 24 crc AND 0xff)) XOR
         (t ! 4 ! unat (drop_bit 32 crc AND 0xff)) XOR
         (t ! 5 ! unat (drop_bit 40 crc AND 0xff)) XOR
         (t ! 6 ! unat (drop_bit 48 crc AND 0xff)) XOR
         (t ! 7 ! unat (drop_bit 56 crc)))"

text \<open>
  The three loops: single bytes up to an address that is a multiple of eight, then slices of
  eight bytes, then the remaining single bytes.
\<close>

fun crc_align :: "(u64 \<Rightarrow> byte \<Rightarrow> u64) \<Rightarrow> u64 \<Rightarrow> u64 \<Rightarrow> bytes \<Rightarrow> u64 \<times> bytes" where
  "crc_align byte_step next crc [] = (crc, [])"
| "crc_align byte_step next crc (b # bs) =
     (if next AND 7 \<noteq> 0 then crc_align byte_step (next + 1) (byte_step crc b) bs
      else (crc, b # bs))"

function crc_slices :: "(u64 \<Rightarrow> u64 \<Rightarrow> u64) \<Rightarrow> bool \<Rightarrow> u64 \<Rightarrow> bytes \<Rightarrow> u64 \<times> bytes" where
  "crc_slices slice_step le crc bs =
     (if length bs \<ge> 8 then crc_slices slice_step le (slice_step crc (load64 le bs)) (drop 8 bs)
      else (crc, bs))"
  by pat_completeness auto
termination by (relation "measure (\<lambda>(_, _, _, bs). length bs)") auto

declare crc_slices.simps [simp del]

definition crcspeed64little :: "bool \<Rightarrow> u64 list list \<Rightarrow> u64 \<Rightarrow> u64 \<Rightarrow> bytes \<Rightarrow> u64" where
  "crcspeed64little le t next crc buf =
     (let (crc1, buf1) = crc_align (little_byte t) next crc buf;
          (crc2, buf2) = crc_slices (little_slice t) le crc1 buf1
      in foldl (little_byte t) crc2 buf2)"

definition crcspeed64big :: "bool \<Rightarrow> u64 list list \<Rightarrow> u64 \<Rightarrow> u64 \<Rightarrow> bytes \<Rightarrow> u64" where
  "crcspeed64big le t next crc buf =
     (let (crc1, buf1) = crc_align (big_byte t) next (rev8 crc) buf;
          (crc2, buf2) = crc_slices (big_slice t) le crc1 buf1
      in rev8 (foldl (big_byte t) crc2 buf2))"

definition crcspeed64native :: "bool \<Rightarrow> u64 list list \<Rightarrow> u64 \<Rightarrow> u64 \<Rightarrow> bytes \<Rightarrow> u64" where
  "crcspeed64native le t next crc buf =
     (if le then crcspeed64little le t next crc buf else crcspeed64big le t next crc buf)"

text \<open>The argument \<open>next\<close> is the address of the data.\<close>

definition crc64 :: "bool \<Rightarrow> u64 \<Rightarrow> u64 \<Rightarrow> bytes \<Rightarrow> u64" where
  "crc64 le next crc s = crcspeed64native le (crc64_init le) next crc s"

subsection \<open>The reflected register\<close>

text \<open>
  Read in reflected bit order, one step of the bit by bit function shifts the register to the
  right.  This step is linear, which is what the tables exploit.
\<close>

abbreviation mirror :: "u64 \<Rightarrow> u64" where "mirror x \<equiv> crc_reflect x 64"

definition rstep :: "u64 \<Rightarrow> u64" where
  "rstep r = (if bit r 0 then drop_bit 1 r XOR mirror POLY else drop_bit 1 r)"

lemma bit_and_1: "bit (x AND 1 :: u64) n \<longleftrightarrow> n = 0 \<and> bit x 0"
  by (auto simp: bit_simps)

lemma bit_times_2: "bit (x * 2 :: u64) n \<longleftrightarrow> 0 < n \<and> n < 64 \<and> bit x (n - 1)"
  using bit_double_iff [of x n] by (auto simp: mult.commute)

lemma bit_mirrorect_loop:
  "n < 64 \<Longrightarrow> bit (crc_reflect_loop k data ret) n = (if n < k then bit data (k - n) else bit ret (n - k))"
proof (induction k arbitrary: data ret)
  case (Suc k)
  show ?case
  proof (cases "n < k")
    case True
    then show ?thesis using Suc by (simp add: Let_def bit_simps Suc_diff_le less_Suc_eq_le add.commute)
  next
    case False
    with Suc show ?thesis
      by (cases "n = k") (auto simp: Let_def bit_or_iff bit_and_1 bit_times_2 bit_drop_bit_eq Suc_diff_le)
  qed
qed simp

lemma bit_mirror: "n < 64 \<Longrightarrow> bit (mirror x) n = bit x (63 - n)"
  by (cases "n = 63") (auto simp: crc_reflect_def bit_mirrorect_loop bit_and_1)

lemma mirror_xor: "mirror (x XOR y) = mirror x XOR mirror y"
  by (rule bit_word_eqI) (simp add: bit_mirror bit_xor_iff)

lemma mirror_0 [simp]: "mirror 0 = 0"
  by (rule bit_word_eqI) (simp add: bit_mirror)

lemma mirror_push_bit: "mirror (push_bit 1 x) = drop_bit 1 (mirror x)"
proof (rule bit_word_eqI)
  fix n assume "n < LENGTH(64)"
  then have n: "n < 64" by simp
  show "bit (mirror (push_bit 1 x)) n = bit (drop_bit 1 (mirror x)) n"
  proof (cases "n = 63")
    case True
    moreover have "\<not> bit (mirror x) 64" by (auto dest: bit_imp_le_length)
    ultimately show ?thesis by (simp add: bit_mirror bit_times_2 bit_drop_bit_eq)
  next
    case False
    with n have s: "Suc n < 64" by simp
    moreover have "63 - n < 64" by simp
    ultimately show ?thesis using n
      by (simp add: bit_mirror [OF n] bit_mirror [OF s] bit_times_2 bit_drop_bit_eq less_imp_diff_less)
  qed
qed

lemma rstep_xor: "rstep (a XOR b) = rstep a XOR rstep b"
  by (rule bit_word_eqI) (auto simp: rstep_def bit_xor_iff bit_drop_bit_eq)

lemma rsteps_xor: "(rstep ^^ k) (a XOR b) = (rstep ^^ k) a XOR (rstep ^^ k) b"
  by (induction k arbitrary: a b) (simp_all add: rstep_xor)

lemma rsteps_push_bit: "k \<le> 64 \<Longrightarrow> take_bit (64 - k) y = y \<Longrightarrow> (rstep ^^ k) (push_bit k y) = y"
proof (induction k)
  case (Suc k)
  define m where "m = Suc k"
  have pb: "bit (push_bit j y) n \<longleftrightarrow> j \<le> n \<and> n < 64 \<and> bit y (n - j)" for j n
    by (simp add: bit_push_bit_iff)
  have "rstep (push_bit m y) = push_bit k y"
  proof (rule bit_word_eqI)
    fix n assume "n < LENGTH(64)"
    then have n: "n < 64" by simp
    have "bit (take_bit (64 - Suc k) y) (63 - k) \<longleftrightarrow> bit y (63 - k)" using Suc.prems(2) by simp
    then have z: "\<not> bit y (63 - k)" by (simp add: bit_take_bit_iff)
    have m: "0 < m" by (simp add: m_def)
    then have "\<not> bit (push_bit m y) 0" by (simp add: pb)
    with m have "bit (rstep (push_bit m y)) n = (m \<le> Suc n \<and> Suc n < 64 \<and> bit y (Suc n - m))"
      by (simp add: rstep_def bit_drop_bit_eq pb)
    then show "bit (rstep (push_bit m y)) n = bit (push_bit k y) n"
      using n z by (cases "n = 63") (auto simp: pb m_def)
  qed
  then have "rstep (push_bit (Suc k) y) = push_bit k y" unfolding m_def .
  moreover have "take_bit (64 - k) y = y"
    using Suc.prems by (metis diff_le_mono2 le_SucI le_refl min.absorb2 take_bit_take_bit)
  ultimately show ?case using Suc by (simp add: funpow_Suc_right del: funpow.simps push_bit_Suc)
qed simp

subsection \<open>The tables\<close>

lemma mirror_crc_bit: "mirror (crc_bit c crc i) = rstep (mirror crc XOR of_bool (c AND i \<noteq> 0))"
proof -
  have msb: "crc AND 0x8000000000000000 \<noteq> 0 \<longleftrightarrow> bit (mirror crc) 0"
    using bit_iff_and_push_bit_not_eq_0 [of crc 63] by (simp add: bit_mirror)
  have r: "rstep (mirror crc XOR 1) = (if bit (mirror crc) 0 then drop_bit 1 (mirror crc) else drop_bit 1 (mirror crc) XOR mirror POLY)"
    by (rule bit_word_eqI) (auto simp: rstep_def bit_simps)
  have mp: "mirror (push_bit (Suc 0) crc) = drop_bit (Suc 0) (mirror crc)"
    using mirror_push_bit [of crc] by (simp only: One_nat_def)
  show ?thesis
  proof (cases "c AND i = 0")
    case True
    then show ?thesis by (simp add: crc_bit_def msb rstep_def mirror_xor mp del: push_bit_Suc)
  next
    case False
    then show ?thesis by (simp add: crc_bit_def msb r mirror_xor mp del: push_bit_Suc)
  qed
qed

lemma take_bit_less: "unat (y :: u64) < 2 ^ k \<Longrightarrow> take_bit k y = y"
  by (simp add: word_unat_eq_iff unsigned_take_bit_eq take_bit_nat_eq_self)

lemma rstep_bits:
  "length bs \<le> 63 \<Longrightarrow>
   foldl (\<lambda>r b. rstep (r XOR of_bool b)) r bs = (rstep ^^ length bs) (r XOR horner_sum of_bool 2 bs)"
proof (induction bs arbitrary: r)
  case (Cons b bs)
  define H :: u64 where "H = horner_sum of_bool 2 bs"
  have H: "bit H n \<longleftrightarrow> n < length bs \<and> bs ! n" if "n < 64" for n
    using that by (auto simp: H_def bit_horner_sum_bit_iff)
  have tb: "take_bit 63 H = H"
    by (rule bit_word_eqI) (use H Cons.prems in \<open>auto simp: bit_take_bit_iff\<close>)
  have 1: "rstep (push_bit 1 H) = H" using rsteps_push_bit [of 1 H] tb by simp
  have h: "horner_sum of_bool 2 (b # bs) = of_bool b XOR push_bit 1 H"
    by (rule bit_word_eqI)
      (auto simp: bit_horner_sum_bit_iff nth_Cons' bit_xor_iff bit_times_2 H bit_of_bool_iff
        simp del: horner_sum_simps)
  have "foldl (\<lambda>r b. rstep (r XOR of_bool b)) r (b # bs) = (rstep ^^ length bs) (rstep (r XOR of_bool b) XOR rstep (push_bit 1 H))"
    using Cons by (simp only: 1) (simp add: H_def)
  also have "\<dots> = (rstep ^^ length (b # bs)) (r XOR horner_sum of_bool 2 (b # bs))"
    by (simp only: rstep_xor [symmetric] h xor.assoc length_Cons funpow_Suc_right o_apply)
  finally show ?case .
qed simp

lemma crc_masks:
  "map (\<lambda>i. (c :: byte) AND i \<noteq> 0) [0x01, 0x02, 0x04, 0x08, 0x10, 0x20, 0x40, 0x80] = map (bit c) [0..<8]"
proof -
  have m: "c AND push_bit n 1 \<noteq> 0 \<longleftrightarrow> bit c n" for n by (simp add: bit_iff_and_push_bit_not_eq_0)
  show ?thesis
    using m [of 0] m [of 1] m [of 2] m [of 3] m [of 4] m [of 5] m [of 6] m [of 7]
    by (simp add: upt_rec numeral_eq_Suc [of "num.Bit0 num.One"] eval_nat_numeral)
qed

lemma ones: "x AND 0xffffffffffffffff = (x :: u64)"
proof -
  have "(0xffffffffffffffff :: u64) = -1" by code_simp
  then show ?thesis by (metis and.right_neutral)
qed

definition rsteps :: "nat \<Rightarrow> u64 \<Rightarrow> u64" where
  "rsteps k v = (rstep ^^ k) v"

lemma rsteps_0 [simp]: "rsteps 0 v = v"
  by (simp add: rsteps_def)

lemma rsteps_add: "rsteps (m + n) v = rsteps m (rsteps n v)"
  by (simp add: rsteps_def funpow_add)

lemma rsteps_xor': "rsteps k (a XOR b) = rsteps k a XOR rsteps k b"
  by (simp only: rsteps_def rsteps_xor)

lemma rsteps_push_bit': "k \<le> 64 \<Longrightarrow> take_bit (64 - k) y = y \<Longrightarrow> rsteps k (push_bit k y) = y"
  by (simp only: rsteps_def rsteps_push_bit)

lemma mirror_crc_byte: "mirror (crc_byte crc c) = rsteps 8 (mirror crc XOR ucast c)"
proof -
  have fold: "mirror (foldl (crc_bit c) crc is) =
      foldl (\<lambda>r b. rstep (r XOR of_bool b)) (mirror crc) (map (\<lambda>i. c AND i \<noteq> 0) is)" for "is"
    by (induction "is" arbitrary: crc) (simp_all add: mirror_crc_bit)
  have "map (bit c) [0..<8] = map (bit (ucast c :: u64)) [0..<8]"
    by (simp add: bit_ucast_iff)
  then have "horner_sum of_bool 2 (map (bit c) [0..<8]) = take_bit 8 (ucast c :: u64)"
    by (simp only: horner_sum_bit_eq_take_bit)
  also have "\<dots> = ucast c"
    by (rule bit_word_eqI) (auto simp: bit_take_bit_iff bit_ucast_iff dest: bit_imp_le_length)
  finally show ?thesis
    unfolding crc_byte_def ones fold crc_masks by (subst rstep_bits) (simp_all add: rsteps_def)
qed

lemma low_byte_mask: "(v :: u64) AND 0xff = take_bit 8 v"
proof -
  have "(0xff :: u64) = mask 8" by (simp add: mask_eq_exp_minus_1)
  then show ?thesis by (simp add: take_bit_eq_mask)
qed

lemma split_low_byte: "(v :: u64) = take_bit 8 v XOR push_bit 8 (drop_bit 8 v)"
  by (rule bit_word_eqI) (auto simp: bit_xor_iff bit_take_bit_iff bit_push_bit_iff bit_drop_bit_eq)

lemma drop_bit_rest: "k \<le> 64 \<Longrightarrow> take_bit (64 - k) (drop_bit k (v :: u64)) = drop_bit k v"
  by (rule bit_word_eqI) (auto simp: bit_take_bit_iff bit_drop_bit_eq dest: bit_imp_le_length)

text \<open>Running over the lowest byte of the register first.\<close>

lemma rsteps_low_byte: "rsteps (8 + m) v = rsteps (8 + m) (take_bit 8 v) XOR rsteps m (drop_bit 8 v)"
proof -
  have "rsteps (8 + m) v = rsteps (8 + m) (take_bit 8 v) XOR rsteps (m + 8) (push_bit 8 (drop_bit 8 v))"
    by (subst split_low_byte) (simp only: rsteps_xor' add.commute)
  also have "rsteps (m + 8) (push_bit 8 (drop_bit 8 v)) = rsteps m (drop_bit 8 v)"
    using rsteps_push_bit' [of 8 "drop_bit 8 v"] drop_bit_rest [of 8 v] by (simp add: rsteps_add)
  finally show ?thesis .
qed

lemma rsteps_8: "rsteps 8 v = rsteps 8 (take_bit 8 v) XOR drop_bit 8 v"
  using rsteps_low_byte [of 0 v] by simp

definition byte_update :: "u64 \<Rightarrow> byte \<Rightarrow> u64" where
  "byte_update r b = rsteps 8 (r XOR ucast b)"

lemma unat_take_bit_8: "unat (take_bit 8 (v :: u64)) < 256"
  using take_bit_nat_less_exp [of 8 "unat v"] by (simp add: unsigned_take_bit_eq)

lemma crc64_bits_eq: "crc64_bits crc data = foldl byte_update (mirror crc) data"
proof -
  have "mirror (foldl crc_byte crc data) = foldl byte_update (mirror crc) data"
    by (induction data arbitrary: crc) (simp_all add: mirror_crc_byte byte_update_def)
  then show ?thesis by (simp only: crc64_bits_def ones xor.right_neutral)
qed

lemma table_0: "n < 256 \<Longrightarrow> crc64_bits 0 [int_first_byte True n] = rsteps 8 (of_nat n)"
  by (simp add: crc64_bits_eq byte_update_def int_first_byte_def unsigned_of_nat take_bit_nat_eq_self)

lemma nest_crc_eq:
  assumes "\<And>n. n < 256 \<Longrightarrow> t0 ! n = rsteps 8 (of_nat n)"
  shows "nest_crc t0 k v = rsteps (8 * k) v"
proof (induction k)
  case (Suc k)
  have "rsteps (8 * Suc k) v = rsteps 8 (rsteps (8 * k) v)"
    by (simp flip: rsteps_add)
  also have "\<dots> = rsteps 8 (take_bit 8 (nest_crc t0 k v)) XOR drop_bit 8 (nest_crc t0 k v)"
    unfolding Suc [symmetric] by (rule rsteps_8)
  finally show ?case
    using assms [OF unat_take_bit_8] by (simp add: Let_def low_byte_mask)
qed simp

lemma table_nth:
  assumes "k < 8" "n < 256"
  shows "crc64_init True ! k ! n = rsteps (8 * k + 8) (of_nat n)"
proof -
  define t0 where "t0 = map (\<lambda>n. crc64_bits 0 [int_first_byte True n]) [0..<256]"
  have t0: "t0 ! n = rsteps 8 (of_nat n)" if "n < 256" for n
    using that by (simp add: t0_def table_0)
  have "crc64_init True ! k ! n = nest_crc t0 k (t0 ! n)"
    using assms
    by (simp add: crc64_init_def crcspeed64native_init_def crcspeed64little_init_def Let_def flip: t0_def)
  then show ?thesis
    using nest_crc_eq [of t0, OF t0] t0 [OF assms(2)] by (simp add: rsteps_add)
qed

subsection \<open>The fast routine\<close>

lemma little_byte_eq: "little_byte (crc64_init True) crc b = byte_update crc b"
proof -
  define v where "v = crc XOR ucast b"
  have "drop_bit 8 v = drop_bit 8 crc"
    by (rule bit_word_eqI) (auto simp: v_def bit_drop_bit_eq bit_xor_iff bit_ucast_iff dest: bit_imp_le_length)
  moreover have "byte_update crc b = rsteps 8 (take_bit 8 v) XOR drop_bit 8 v"
    unfolding byte_update_def v_def [symmetric] by (rule rsteps_8)
  ultimately show ?thesis
    using table_nth [of 0, OF _ unat_take_bit_8 [of v]]
    by (simp add: little_byte_def low_byte_mask v_def)
qed

lemma slice_table:
  "k < 8 \<Longrightarrow> crc64_init True ! k ! unat (take_bit 8 v) = rsteps (8 * k + 8) (take_bit 8 v)"
  using table_nth [OF _ unat_take_bit_8 [of v]] by simp

lemma little_slice_eq: "little_slice (crc64_init True) crc w = rsteps 64 (crc XOR w)"
proof -
  define v where "v = crc XOR w"
  note low = rsteps_low_byte [of 56 v] rsteps_low_byte [of 48 "drop_bit 8 v"] rsteps_low_byte [of 40 "drop_bit 16 v"]
    rsteps_low_byte [of 32 "drop_bit 24 v"] rsteps_low_byte [of 24 "drop_bit 32 v"] rsteps_low_byte [of 16 "drop_bit 40 v"]
    rsteps_low_byte [of 8 "drop_bit 48 v"]
  have top: "drop_bit 56 v = take_bit 8 (drop_bit 56 v)" using drop_bit_rest [of 56 v] by simp
  have "rsteps 64 v = rsteps 64 (take_bit 8 v) XOR rsteps 56 (take_bit 8 (drop_bit 8 v)) XOR
      rsteps 48 (take_bit 8 (drop_bit 16 v)) XOR rsteps 40 (take_bit 8 (drop_bit 24 v)) XOR
      rsteps 32 (take_bit 8 (drop_bit 32 v)) XOR rsteps 24 (take_bit 8 (drop_bit 40 v)) XOR
      rsteps 16 (take_bit 8 (drop_bit 48 v)) XOR rsteps 8 (take_bit 8 (drop_bit 56 v))"
    unfolding top [symmetric] using low by (simp only: drop_bit_drop_bit xor.assoc arith_simps)
  moreover have "crc64_init True ! 0 ! unat (drop_bit 56 v) = rsteps 8 (take_bit 8 (drop_bit 56 v))"
    using slice_table [of 0 "drop_bit 56 v"] by (simp flip: top)
  ultimately show ?thesis
    unfolding little_slice_def Let_def low_byte_mask v_def [symmetric] by (simp add: slice_table)
qed

lemma bit_byte: "bit (b :: byte) n \<Longrightarrow> n < 8"
  using bit_imp_le_length [of b n] by simp

lemma fold_byte_update:
  "length bs \<le> 8 \<Longrightarrow>
   foldl byte_update r bs = rsteps (8 * length bs) (r XOR word_of_int (le_uint bs))"
proof (induction bs arbitrary: r)
  case (Cons b bs)
  define w :: u64 where "w = word_of_int (le_uint bs)"
  have "le_uint bs < 256 ^ length bs" by (rule le_uint_less)
  also have "(256 :: int) ^ length bs \<le> 256 ^ 7" using Cons.prems by (intro power_increasing) auto
  finally have small: "le_uint bs < 2 ^ 56" by simp
  have "unat w < 2 ^ 56"
    using small le_uint_nonneg [of bs]
    by (simp add: w_def unat_eq_nat_uint uint_word_of_int nat_less_iff)
  then have tw: "take_bit 56 w = w" by (rule take_bit_less)
  have "word_of_int (le_uint (b # bs)) = ucast b + push_bit 8 w"
  proof -
    have "push_bit 8 w = 256 * w" by (simp add: push_bit_eq_mult mult.commute)
    moreover have "word_of_int (uint b + 256 * le_uint bs) = word_of_int (uint b) + 256 * w"
      by (simp add: w_def)
    ultimately show ?thesis by (simp only: le_uint.simps ucast_eq)
  qed
  also have "\<dots> = ucast b XOR push_bit 8 w"
    by (rule disjunctive_xor_eq_or [THEN trans, symmetric, OF _ disjunctive_add_eq_or [symmetric]])
      (auto intro!: bit_word_eqI simp: bit_and_iff bit_push_bit_iff bit_ucast_iff dest!: bit_byte)
  finally have "rsteps 8 (r XOR word_of_int (le_uint (b # bs))) = byte_update r b XOR w"
    using rsteps_push_bit' [of 8 w] tw by (simp add: rsteps_xor' byte_update_def xor.assoc)
  then show ?case using Cons by (simp add: w_def rsteps_add add.commute [of 8])
qed simp

lemma fold_slice: "8 \<le> length bs \<Longrightarrow> little_slice (crc64_init True) crc (load64 True bs) = foldl byte_update crc (take 8 bs)"
  using fold_byte_update [of "take 8 bs" crc] by (simp add: little_slice_eq load64_def)

lemma crc_align_eq: "crc_align f p crc bs = (crc1, bs1) \<Longrightarrow> foldl f crc1 bs1 = foldl f crc bs"
  by (induction bs arbitrary: p crc) (auto split: if_splits)

lemma crc_slices_eq:
  assumes "\<And>crc bs. 8 \<le> length bs \<Longrightarrow> g crc (load64 le bs) = foldl f crc (take 8 bs)"
    and "crc_slices g le crc bs = (crc1, bs1)"
  shows "foldl f crc1 bs1 = foldl f crc bs"
  using assms(2)
proof (induction "length bs" arbitrary: crc bs rule: less_induct)
  case less
  show ?case
  proof (cases "8 \<le> length bs")
    case True
    have "foldl f crc bs = foldl f (foldl f crc (take 8 bs)) (drop 8 bs)"
      by (simp flip: foldl_append)
    then show ?thesis
      using less.hyps [of "drop 8 bs"] less.prems True assms(1) [OF True] by (simp add: crc_slices.simps [of _ _ _ bs])
  qed (use less.prems in \<open>simp add: crc_slices.simps [of _ _ _ bs]\<close>)
qed

lemma crc64_eq: "crc64 True p crc s = foldl byte_update crc s"
proof -
  obtain crc1 s1 where a: "crc_align byte_update p crc s = (crc1, s1)" by fastforce
  obtain crc2 s2 where b: "crc_slices (little_slice (crc64_init True)) True crc1 s1 = (crc2, s2)" by fastforce
  have "little_byte (crc64_init True) = byte_update" by (intro ext) (rule little_byte_eq)
  then have "crc64 True p crc s = foldl byte_update crc2 s2"
    using a b by (simp add: crc64_def crcspeed64native_def crcspeed64little_def)
  also have "\<dots> = foldl byte_update crc1 s1" by (rule crc_slices_eq [OF fold_slice b])
  also have "\<dots> = foldl byte_update crc s" by (rule crc_align_eq [OF a])
  finally show ?thesis .
qed

text \<open>
  C25: on a little endian host, the table driven checksum computed eight bytes at a time, from any
  address, equals the bit by bit checksum, and feeding a string in pieces at any addresses gives
  the checksum of the whole.
\<close>

theorem crc64_correct:
  "crc64 True p 0 s = crc64_bits 0 s \<and>
   crc64 True p' (crc64 True p crc s) t = crc64 True p'' crc (s @ t)"
  by (simp add: crc64_eq crc64_bits_eq)

subsection \<open>Big endian hosts\<close>

lemma rsteps_zero [simp]: "rsteps k 0 = 0"
  using rsteps_xor' [of k 0 0] by simp

lemma rev8_zero [simp]: "rev8 0 = 0"
  by (simp add: rev8_def numeral_eq_Suc)

lemma nest_crc_zero: "\<forall>n < 256. t0 ! n = 0 \<Longrightarrow> nest_crc t0 k 0 = 0"
proof (induction k)
  case (Suc k)
  then show ?case by (simp add: Let_def)
qed simp

lemma big_table_zero: "k < 8 \<Longrightarrow> n < 256 \<Longrightarrow> crc64_init False ! k ! n = 0"
proof -
  assume kn: "k < 8" "n < 256"
  define t0 where "t0 = map (\<lambda>n. crc64_bits 0 [int_first_byte False n]) [0..<256]"
  have "crc64_bits 0 [0] = 0" by (simp add: crc64_bits_eq byte_update_def)
  then have t0: "\<forall>n < 256. t0 ! n = 0" by (simp add: t0_def int_first_byte_def)
  have "crc64_init False ! k ! n = rev8 (nest_crc t0 k (t0 ! n))"
    using kn
    by (simp add: crc64_init_def crcspeed64native_init_def crcspeed64big_init_def crcspeed64little_init_def
        Let_def flip: t0_def)
  also have "\<dots> = 0" using t0 kn nest_crc_zero [OF t0] by simp
  finally show ?thesis .
qed

lemma big_byte_zero: "big_byte (crc64_init False) 0 b = 0"
proof -
  have "unat b < 2 ^ LENGTH(8)" by (rule unsigned_less)
  then have "unat b < 256" by simp
  then have "unat (ucast b :: u64) < 256" by (simp add: unsigned_ucast_eq take_bit_nat_eq_self)
  then show ?thesis by (simp add: big_byte_def big_table_zero)
qed

lemma big_slice_zero: "big_slice (crc64_init False) 0 w = 0"
proof -
  have "drop_bit 56 w = take_bit 8 (drop_bit 56 w)" using drop_bit_rest [of 56 w] by simp
  then have "unat (drop_bit 56 w) < 256" using unat_take_bit_8 [of "drop_bit 56 w"] by simp
  then show ?thesis
    by (simp add: big_slice_def Let_def low_byte_mask big_table_zero unat_take_bit_8)
qed

lemma crc_slices_zero: "(\<And>w. g 0 w = 0) \<Longrightarrow> fst (crc_slices g le 0 bs) = 0"
proof (induction "length bs" arbitrary: bs rule: less_induct)
  case less
  then show ?case by (simp add: crc_slices.simps [of _ _ _ bs])
qed

lemma crc_align_zero: "(\<And>b. f 0 b = 0) \<Longrightarrow> fst (crc_align f p 0 bs) = 0"
  by (induction bs arbitrary: p) auto

lemma foldl_zero: "(\<And>b. f 0 b = 0) \<Longrightarrow> foldl f 0 bs = (0 :: u64)"
  by (induction bs) auto

text \<open>
  C34: on a big endian host the tables are all zero, since the byte passed to the table
  generator is the first, most significant byte of an \<open>int\<close>; every checksum that starts from zero
  is therefore zero, which the loading code takes to mean that no checksum was computed.
\<close>

theorem crc64_big_endian_zero: "crc64 False p 0 s = 0"
proof -
  obtain crc1 s1 where a: "crc_align (big_byte (crc64_init False)) p 0 s = (crc1, s1)" by fastforce
  then have "crc1 = 0" using crc_align_zero [of "big_byte (crc64_init False)"] big_byte_zero by (metis fst_conv)
  then obtain s2 where "crc_slices (big_slice (crc64_init False)) False crc1 s1 = (0, s2)"
    using crc_slices_zero [of "big_slice (crc64_init False)" False s1] big_slice_zero by (cases "crc_slices (big_slice (crc64_init False)) False 0 s1") auto
  with a show ?thesis
    by (simp add: crc64_def crcspeed64native_def crcspeed64big_def foldl_zero [of "big_byte (crc64_init False)"] big_byte_zero)
qed

end
