(* ===== verification/Server.thy ===== *)
theory Server
  imports Util "HOL-Library.AList"
begin

unbundle bit_operations_syntax

text \<open>
  The state of the server that the command implementations work on: objects, databases, clients
  and the parts of the global \<open>server\<close> structure (\<open>server.h\<close>) that the modelled commands read
  and write.  A failed \<open>serverAssert\<close> is \<^term>\<open>None\<close>.

  Values are logical: reference counts, the sharing of small integers and the access clock of
  objects (\<open>robj.lru\<close>) concern memory management and eviction only and are left out.  Cluster
  mode is off, no module is loaded and no client uses client side caching, so that the calls into
  \<open>cluster.c\<close>, \<open>module.c\<close> and \<open>tracking.c\<close> return at once.  Hash tables are maps, or association
  lists in iteration order where the code iterates over them.
\<close>

subsection \<open>Objects\<close>

datatype otype = OBJ_STRING | OBJ_LIST | OBJ_SET | OBJ_ZSET | OBJ_HASH | OBJ_STREAM | OBJ_MODULE

text \<open>
  String objects by encoding (\<open>OBJ_ENCODING_INT\<close>, \<open>OBJ_ENCODING_EMBSTR\<close>, \<open>OBJ_ENCODING_RAW\<close>);
  the contents of an object of another type are opaque here.  A module value has the name of its
  type.
\<close>

datatype robj =
    StrInt int | StrEmb bytes | StrRaw bytes
  | ListObj nat | SetObj nat | ZsetObj nat | HashObj nat | StreamObj nat | ModuleObj string nat

fun otype_of :: "robj \<Rightarrow> otype" where
  "otype_of (StrInt v) = OBJ_STRING"
| "otype_of (StrEmb b) = OBJ_STRING"
| "otype_of (StrRaw b) = OBJ_STRING"
| "otype_of (ListObj n) = OBJ_LIST"
| "otype_of (SetObj n) = OBJ_SET"
| "otype_of (ZsetObj n) = OBJ_ZSET"
| "otype_of (HashObj n) = OBJ_HASH"
| "otype_of (StreamObj n) = OBJ_STREAM"
| "otype_of (ModuleObj t n) = OBJ_MODULE"

subsection \<open>Replies\<close>

datatype reply =
    Ok | Queued | Czero | Cone | Null | NullArray | EmptyBulk
  | Bulk bytes | LongLong int | Status bytes | ArrayLen nat
  | SyntaxErr | WrongTypeErr | NoKeyErr | OutOfRangeErr | SameObjectErr | ExecAbortErr | RoSlaveErr
  | NoReplicasErr | MasterDownErr | LoadingErr | Error bytes
  | PubArray "reply list" | PushArray "reply list"

definition is_error :: "reply \<Rightarrow> bool" where
  "is_error r \<longleftrightarrow>
     r \<in> {SyntaxErr, WrongTypeErr, NoKeyErr, OutOfRangeErr, SameObjectErr, ExecAbortErr, RoSlaveErr,
          NoReplicasErr, MasterDownErr, LoadingErr} \<or> (\<exists>m. r = Error m)"

definition is_pub :: "reply \<Rightarrow> bool" where
  "is_pub r \<longleftrightarrow> (\<exists>rs. r = PubArray rs \<or> r = PushArray rs)"

subsection \<open>Flags\<close>

definition has_flag :: "u64 \<Rightarrow> u64 \<Rightarrow> bool" where
  "has_flag f m \<longleftrightarrow> f AND m \<noteq> 0"

definition CLIENT_MASTER :: u64 where "CLIENT_MASTER = push_bit 1 1"
definition CLIENT_MULTI :: u64 where "CLIENT_MULTI = push_bit 3 1"
definition CLIENT_DIRTY_CAS :: u64 where "CLIENT_DIRTY_CAS = push_bit 5 1"
definition CLIENT_CLOSE_AFTER_REPLY :: u64 where "CLIENT_CLOSE_AFTER_REPLY = push_bit 6 1"
definition CLIENT_DIRTY_EXEC :: u64 where "CLIENT_DIRTY_EXEC = push_bit 12 1"
definition CLIENT_FORCE_AOF :: u64 where "CLIENT_FORCE_AOF = push_bit 14 1"
definition CLIENT_FORCE_REPL :: u64 where "CLIENT_FORCE_REPL = push_bit 15 1"
definition CLIENT_PUBSUB :: u64 where "CLIENT_PUBSUB = push_bit 18 1"
definition CLIENT_PREVENT_PROP :: u64 where "CLIENT_PREVENT_PROP = push_bit 19 1 OR push_bit 20 1"

definition CMD_WRITE :: u64 where "CMD_WRITE = push_bit 0 1"
definition CMD_READONLY :: u64 where "CMD_READONLY = push_bit 1 1"
definition CMD_ADMIN :: u64 where "CMD_ADMIN = push_bit 4 1"
definition CMD_LOADING :: u64 where "CMD_LOADING = push_bit 9 1"
definition CMD_STALE :: u64 where "CMD_STALE = push_bit 10 1"

lemmas client_flags = CLIENT_MASTER_def CLIENT_MULTI_def CLIENT_DIRTY_CAS_def
  CLIENT_CLOSE_AFTER_REPLY_def CLIENT_DIRTY_EXEC_def CLIENT_FORCE_AOF_def CLIENT_FORCE_REPL_def
  CLIENT_PUBSUB_def CLIENT_PREVENT_PROP_def

subsection \<open>State\<close>

text \<open>The command implementations that are modelled, and an entry of the command table.\<close>

datatype proc =
    p_getCommand | p_setCommand | p_setnxCommand | p_setexCommand | p_psetexCommand | p_appendCommand
  | p_strlenCommand | p_delCommand | p_unlinkCommand | p_existsCommand | p_setrangeCommand | p_getrangeCommand
  | p_incrCommand | p_decrCommand | p_mgetCommand | p_incrbyCommand | p_decrbyCommand | p_getsetCommand
  | p_msetCommand | p_msetnxCommand | p_selectCommand | p_moveCommand | p_renameCommand | p_renamenxCommand
  | p_expireCommand | p_expireatCommand | p_pexpireCommand | p_pexpireatCommand | p_typeCommand
  | p_multiCommand | p_execCommand | p_discardCommand | p_flushdbCommand | p_ttlCommand | p_touchCommand
  | p_pttlCommand | p_persistCommand | p_subscribeCommand | p_unsubscribeCommand | p_psubscribeCommand
  | p_punsubscribeCommand | p_publishCommand | p_watchCommand | p_unwatchCommand

record redisCommand =
  cname :: string
  proc :: proc
  arity :: int
  cflags :: u64

record multiCmd =
  mc_cmd :: redisCommand
  mc_argv :: "bytes list"

record client =
  flags :: u64
  cdb :: nat
  resp :: nat
  argv :: "bytes list"
  cmd :: redisCommand
  watched :: "(nat \<times> bytes) list"
  mcommands :: "multiCmd list"
  mcmd_flags :: u64
  sub_channels :: "bytes list"
  sub_patterns :: "bytes list"
  reply :: "reply list"

record redisDb =
  kv :: "(bytes \<times> robj) list"
  expires :: "bytes \<rightharpoonup> int"
  wkeys :: "bytes \<rightharpoonup> nat list"
  blocking_keys :: "bytes set"
  ready_keys :: "bytes set"

record server =
  db :: "nat \<Rightarrow> redisDb"
  dbnum :: nat
  clients :: "nat \<Rightarrow> client"
  client_list :: "nat list"
  current_client :: "nat option"
  masterhost :: bool
  master_link_up :: bool
  repl_slave_ro :: bool
  repl_serve_stale_data :: bool
  min_slaves_to_write :: nat
  min_slaves_max_lag :: nat
  good_slaves_count :: nat
  loading :: bool
  lazyfree_lazy_expire :: bool
  lazyfree_lazy_server_del :: bool
  lazyfree_lazy_user_del :: bool
  aof_on :: bool
  notify_keyspace_events :: u64
  mstime :: int
  clock :: int
  dirty :: int
  stat_keyspace_hits :: nat
  stat_keyspace_misses :: nat
  stat_expiredkeys :: nat
  stat_numcommands :: nat
  aof_feed :: "(nat \<times> bytes list) list"
  repl_feed :: "(nat \<times> bytes list) list"
  slave_keys :: "bytes \<rightharpoonup> u64"
  ready_list :: "(nat \<times> bytes) list"
  pubsub_channels :: "(bytes \<times> nat list) list"
  pubsub_patterns :: "(nat \<times> bytes) list"
  pubsub_patterns_dict :: "(bytes \<times> nat list) list"

text \<open>
  The field \<open>mstime\<close> is the cached time that a command works with, \<open>clock\<close> what the system
  clock shows; both in milliseconds.
\<close>

definition upd_client :: "nat \<Rightarrow> (client \<Rightarrow> client) \<Rightarrow> server \<Rightarrow> server" where
  "upd_client c f s = s\<lparr>clients := (clients s)(c := f (clients s c))\<rparr>"

definition upd_db :: "nat \<Rightarrow> (redisDb \<Rightarrow> redisDb) \<Rightarrow> server \<Rightarrow> server" where
  "upd_db i f s = s\<lparr>db := (db s)(i := f (db s i))\<rparr>"

definition addReply :: "nat \<Rightarrow> reply \<Rightarrow> server \<Rightarrow> server" where
  "addReply c r = upd_client c (\<lambda>cl. cl\<lparr>reply := reply cl @ [r]\<rparr>)"

definition set_flags :: "nat \<Rightarrow> u64 \<Rightarrow> server \<Rightarrow> server" where
  "set_flags c m = upd_client c (\<lambda>cl. cl\<lparr>flags := flags cl OR m\<rparr>)"

definition clear_flags :: "nat \<Rightarrow> u64 \<Rightarrow> server \<Rightarrow> server" where
  "clear_flags c m = upd_client c (\<lambda>cl. cl\<lparr>flags := flags cl AND NOT m\<rparr>)"

definition serverAssert :: "bool \<Rightarrow> unit option" where
  "serverAssert b = (if b then Some () else None)"

subsection \<open>C strings\<close>

text \<open>The part of a string before its first null byte; comparison without regard to case.\<close>

definition cstr :: "bytes \<Rightarrow> bytes" where
  "cstr b = takeWhile (\<lambda>x. x \<noteq> 0) b"

definition lower :: "byte \<Rightarrow> byte" where
  "lower x = (if 0x41 \<le> x \<and> x \<le> 0x5A then x + 32 else x)"

definition strcaseeq :: "bytes \<Rightarrow> string \<Rightarrow> bool" where
  "strcaseeq b lit \<longleftrightarrow> map lower (cstr b) = map lower (bstr lit)"

subsection \<open>Signed 64-bit arithmetic\<close>

text \<open>
  \<open>long long\<close> values are integers; a result that does not fit wraps around, as it does with the
  compilers the program is built with.
\<close>

definition wrap64 :: "int \<Rightarrow> int" where
  "wrap64 v = (v + 2 ^ 63) mod 2 ^ 64 - 2 ^ 63"

text \<open>The conversion of a \<open>long\<close> to \<open>int\<close>.\<close>

definition wrap32 :: "int \<Rightarrow> int" where
  "wrap32 v = (v + 2 ^ 31) mod 2 ^ 32 - 2 ^ 31"

lemma wrap64_id: "int64 v \<Longrightarrow> wrap64 v = v"
  by (simp add: wrap64_def int64_def)

lemma int64_wrap64: "int64 (wrap64 v)"
proof -
  have "0 \<le> (v + 2 ^ 63) mod 2 ^ 64" "(v + 2 ^ 63) mod 2 ^ 64 < 2 ^ 64" by simp_all
  then show ?thesis by (simp add: wrap64_def int64_def)
qed

subsection \<open>Simplification of state updates\<close>

lemma clients_upd_client [simp]: "clients (upd_client c f s) c' = (if c' = c then f (clients s c) else clients s c')"
  by (simp add: upd_client_def)

lemma db_upd_db [simp]: "db (upd_db i f s) j = (if j = i then f (db s i) else db s j)"
  by (simp add: upd_db_def)

end
