(* ===== verification/Pubsub.thy ===== *)
theory Pubsub
  imports Server
begin

unbundle bit_operations_syntax

text \<open>
  Publish/subscribe (\<open>pubsub.c\<close>) and keyspace notifications (\<open>notify.c\<close>).  The server keeps,
  for each channel and each pattern, the list of the clients that subscribed to it, and each
  client keeps the lists of its channels and patterns.
\<close>

subsection \<open>Replies\<close>

definition clientSubscriptionsCount :: "client \<Rightarrow> nat" where
  "clientSubscriptionsCount cl = length (sub_channels cl) + length (sub_patterns cl)"

definition pub_reply :: "nat \<Rightarrow> reply list \<Rightarrow> server \<Rightarrow> server" where
  "pub_reply c items s = addReply c (if resp (clients s c) = 2 then PubArray items else PushArray items) s"

definition addReplyPubsubMessage :: "nat \<Rightarrow> bytes \<Rightarrow> bytes \<Rightarrow> server \<Rightarrow> server" where
  "addReplyPubsubMessage c channel msg = pub_reply c [Bulk (bstr ''message''), Bulk channel, Bulk msg]"

definition addReplyPubsubPatMessage :: "nat \<Rightarrow> bytes \<Rightarrow> bytes \<Rightarrow> bytes \<Rightarrow> server \<Rightarrow> server" where
  "addReplyPubsubPatMessage c pat channel msg =
     pub_reply c [Bulk (bstr ''pmessage''), Bulk pat, Bulk channel, Bulk msg]"

definition bulk_or_null :: "bytes option \<Rightarrow> reply" where
  "bulk_or_null x = (case x of None \<Rightarrow> Null | Some b \<Rightarrow> Bulk b)"

definition addReplyPubsubSubscribed :: "nat \<Rightarrow> bytes \<Rightarrow> server \<Rightarrow> server" where
  "addReplyPubsubSubscribed c channel s =
     pub_reply c [Bulk (bstr ''subscribe''), Bulk channel,
       LongLong (int (clientSubscriptionsCount (clients s c)))] s"

definition addReplyPubsubUnsubscribed :: "nat \<Rightarrow> bytes option \<Rightarrow> server \<Rightarrow> server" where
  "addReplyPubsubUnsubscribed c channel s =
     pub_reply c [Bulk (bstr ''unsubscribe''), bulk_or_null channel,
       LongLong (int (clientSubscriptionsCount (clients s c)))] s"

definition addReplyPubsubPatSubscribed :: "nat \<Rightarrow> bytes \<Rightarrow> server \<Rightarrow> server" where
  "addReplyPubsubPatSubscribed c pattern s =
     pub_reply c [Bulk (bstr ''psubscribe''), Bulk pattern,
       LongLong (int (clientSubscriptionsCount (clients s c)))] s"

definition addReplyPubsubPatUnsubscribed :: "nat \<Rightarrow> bytes option \<Rightarrow> server \<Rightarrow> server" where
  "addReplyPubsubPatUnsubscribed c pattern s =
     pub_reply c [Bulk (bstr ''punsubscribe''), bulk_or_null pattern,
       LongLong (int (clientSubscriptionsCount (clients s c)))] s"

subsection \<open>Subscriptions\<close>

text \<open>Adding a client to, and removing it from, the list stored under a key of a hash table.\<close>

definition list_add :: "bytes \<Rightarrow> nat \<Rightarrow> (bytes \<times> nat list) list \<Rightarrow> (bytes \<times> nat list) list" where
  "list_add k c d = (case map_of d k of
      None \<Rightarrow> AList.update k [c] d
    | Some cs \<Rightarrow> AList.update k (cs @ [c]) d)"

definition list_del :: "bytes \<Rightarrow> nat \<Rightarrow> (bytes \<times> nat list) list \<Rightarrow> (bytes \<times> nat list) list option" where
  "list_del k c d = (case map_of d k of
      None \<Rightarrow> None
    | Some cs \<Rightarrow>
        if c \<notin> set cs then None
        else let cs' = remove1 c cs
          in Some (if cs' = [] then AList.delete k d else AList.update k cs' d))"

definition pubsubSubscribeChannel :: "nat \<Rightarrow> bytes \<Rightarrow> server \<Rightarrow> server \<times> nat" where
  "pubsubSubscribeChannel c channel s =
     (let (s1, retval) =
        (if channel \<notin> set (sub_channels (clients s c)) then
           let s0 = upd_client c (\<lambda>cl. cl\<lparr>sub_channels := sub_channels cl @ [channel]\<rparr>) s
           in (s0\<lparr>pubsub_channels := list_add channel c (pubsub_channels s0)\<rparr>, 1)
         else (s, 0))
      in (addReplyPubsubSubscribed c channel s1, retval))"

definition pubsubUnsubscribeChannel :: "nat \<Rightarrow> bytes \<Rightarrow> bool \<Rightarrow> server \<Rightarrow> (server \<times> nat) option" where
  "pubsubUnsubscribeChannel c channel notify s = do {
     (s1, retval) \<leftarrow>
       (if channel \<in> set (sub_channels (clients s c)) then do {
          let s0 = upd_client c (\<lambda>cl. cl\<lparr>sub_channels := removeAll channel (sub_channels cl)\<rparr>) s;
          d \<leftarrow> list_del channel c (pubsub_channels s0);
          Some (s0\<lparr>pubsub_channels := d\<rparr>, 1)
        }
        else Some (s, 0));
     Some (if notify then addReplyPubsubUnsubscribed c (Some channel) s1 else s1, retval)
   }"

definition pubsubSubscribePattern :: "nat \<Rightarrow> bytes \<Rightarrow> server \<Rightarrow> server \<times> nat" where
  "pubsubSubscribePattern c pattern s =
     (let (s1, retval) =
        (if pattern \<notin> set (sub_patterns (clients s c)) then
           let s0 = upd_client c (\<lambda>cl. cl\<lparr>sub_patterns := sub_patterns cl @ [pattern]\<rparr>) s
           in (s0\<lparr>pubsub_patterns := pubsub_patterns s0 @ [(c, pattern)],
                  pubsub_patterns_dict := list_add pattern c (pubsub_patterns_dict s0)\<rparr>, 1)
         else (s, 0))
      in (addReplyPubsubPatSubscribed c pattern s1, retval))"

text \<open>Removing a node that was not found from \<open>server.pubsub_patterns\<close> would be a null access.\<close>

definition pubsubUnsubscribePattern :: "nat \<Rightarrow> bytes \<Rightarrow> bool \<Rightarrow> server \<Rightarrow> (server \<times> nat) option" where
  "pubsubUnsubscribePattern c pattern notify s = do {
     (s1, retval) \<leftarrow>
       (if pattern \<in> set (sub_patterns (clients s c)) then do {
          let s0 = upd_client c (\<lambda>cl. cl\<lparr>sub_patterns := remove1 pattern (sub_patterns cl)\<rparr>) s;
          serverAssert ((c, pattern) \<in> set (pubsub_patterns s0));
          d \<leftarrow> list_del pattern c (pubsub_patterns_dict s0);
          Some (s0\<lparr>pubsub_patterns := remove1 (c, pattern) (pubsub_patterns s0), pubsub_patterns_dict := d\<rparr>, 1)
        }
        else Some (s, 0));
     Some (if notify then addReplyPubsubPatUnsubscribed c (Some pattern) s1 else s1, retval)
   }"

fun unsubscribe_channels :: "nat \<Rightarrow> bytes list \<Rightarrow> bool \<Rightarrow> server \<Rightarrow> (server \<times> nat) option" where
  "unsubscribe_channels c [] notify s = Some (s, 0)"
| "unsubscribe_channels c (ch # chs) notify s = do {
     (s1, n) \<leftarrow> pubsubUnsubscribeChannel c ch notify s;
     (s2, m) \<leftarrow> unsubscribe_channels c chs notify s1;
     Some (s2, n + m)
   }"

fun unsubscribe_patterns :: "nat \<Rightarrow> bytes list \<Rightarrow> bool \<Rightarrow> server \<Rightarrow> (server \<times> nat) option" where
  "unsubscribe_patterns c [] notify s = Some (s, 0)"
| "unsubscribe_patterns c (p # ps) notify s = do {
     (s1, n) \<leftarrow> pubsubUnsubscribePattern c p notify s;
     (s2, m) \<leftarrow> unsubscribe_patterns c ps notify s1;
     Some (s2, n + m)
   }"

definition pubsubUnsubscribeAllChannels :: "nat \<Rightarrow> bool \<Rightarrow> server \<Rightarrow> (server \<times> nat) option" where
  "pubsubUnsubscribeAllChannels c notify s = do {
     (s1, n) \<leftarrow> unsubscribe_channels c (sub_channels (clients s c)) notify s;
     Some (if notify \<and> n = 0 then addReplyPubsubUnsubscribed c None s1 else s1, n)
   }"

definition pubsubUnsubscribeAllPatterns :: "nat \<Rightarrow> bool \<Rightarrow> server \<Rightarrow> (server \<times> nat) option" where
  "pubsubUnsubscribeAllPatterns c notify s = do {
     (s1, n) \<leftarrow> unsubscribe_patterns c (sub_patterns (clients s c)) notify s;
     Some (if notify \<and> n = 0 then addReplyPubsubPatUnsubscribed c None s1 else s1, n)
   }"

subsection \<open>Publishing\<close>

fun send_message :: "nat list \<Rightarrow> bytes \<Rightarrow> bytes \<Rightarrow> server \<Rightarrow> server" where
  "send_message [] channel msg s = s"
| "send_message (c # cs) channel msg s = send_message cs channel msg (addReplyPubsubMessage c channel msg s)"

fun send_pmessage :: "nat list \<Rightarrow> bytes \<Rightarrow> bytes \<Rightarrow> bytes \<Rightarrow> server \<Rightarrow> server" where
  "send_pmessage [] pat channel msg s = s"
| "send_pmessage (c # cs) pat channel msg s =
     send_pmessage cs pat channel msg (addReplyPubsubPatMessage c pat channel msg s)"

fun publish_patterns :: "(bytes \<times> nat list) list \<Rightarrow> bytes \<Rightarrow> bytes \<Rightarrow> server \<Rightarrow> server \<times> nat" where
  "publish_patterns [] channel msg s = (s, 0)"
| "publish_patterns ((pat, cs) # ps) channel msg s =
     (if \<not> stringmatchlen pat channel False then publish_patterns ps channel msg s
      else let (s1, n) = publish_patterns ps channel msg (send_pmessage cs pat channel msg s)
        in (s1, length cs + n))"

definition pubsubPublishMessage :: "bytes \<Rightarrow> bytes \<Rightarrow> server \<Rightarrow> server \<times> nat" where
  "pubsubPublishMessage channel message s =
     (let (s1, n) = (case map_of (pubsub_channels s) channel of
            None \<Rightarrow> (s, 0)
          | Some cs \<Rightarrow> (send_message cs channel message s, length cs));
          (s2, m) = publish_patterns (pubsub_patterns_dict s1) channel message s1
      in (s2, n + m))"

subsection \<open>Commands\<close>

fun subscribe_loop :: "nat \<Rightarrow> bytes list \<Rightarrow> server \<Rightarrow> server" where
  "subscribe_loop c [] s = s"
| "subscribe_loop c (ch # chs) s = subscribe_loop c chs (fst (pubsubSubscribeChannel c ch s))"

fun psubscribe_loop :: "nat \<Rightarrow> bytes list \<Rightarrow> server \<Rightarrow> server" where
  "psubscribe_loop c [] s = s"
| "psubscribe_loop c (p # ps) s = psubscribe_loop c ps (fst (pubsubSubscribePattern c p s))"

definition subscribeCommand :: "nat \<Rightarrow> server \<Rightarrow> server" where
  "subscribeCommand c s = set_flags c CLIENT_PUBSUB (subscribe_loop c (tl (argv (clients s c))) s)"

definition psubscribeCommand :: "nat \<Rightarrow> server \<Rightarrow> server" where
  "psubscribeCommand c s = set_flags c CLIENT_PUBSUB (psubscribe_loop c (tl (argv (clients s c))) s)"

definition leave_pubsub :: "nat \<Rightarrow> server \<Rightarrow> server" where
  "leave_pubsub c s =
     (if clientSubscriptionsCount (clients s c) = 0 then clear_flags c CLIENT_PUBSUB s else s)"

definition unsubscribeCommand :: "nat \<Rightarrow> server \<Rightarrow> server option" where
  "unsubscribeCommand c s = do {
     (s1, n) \<leftarrow> (if length (argv (clients s c)) = 1 then pubsubUnsubscribeAllChannels c True s
                 else unsubscribe_channels c (tl (argv (clients s c))) True s);
     Some (leave_pubsub c s1)
   }"

definition punsubscribeCommand :: "nat \<Rightarrow> server \<Rightarrow> server option" where
  "punsubscribeCommand c s = do {
     (s1, n) \<leftarrow> (if length (argv (clients s c)) = 1 then pubsubUnsubscribeAllPatterns c True s
                 else unsubscribe_patterns c (tl (argv (clients s c))) True s);
     Some (leave_pubsub c s1)
   }"

definition publishCommand :: "nat \<Rightarrow> bytes \<Rightarrow> bytes \<Rightarrow> server \<Rightarrow> server" where
  "publishCommand c channel message s =
     (let (s1, receivers) = pubsubPublishMessage channel message s
      in addReply c (LongLong (int receivers)) (set_flags c CLIENT_FORCE_REPL s1))"

subsection \<open>Keyspace notifications\<close>

definition NOTIFY_KEYSPACE :: u64 where "NOTIFY_KEYSPACE = push_bit 0 1"
definition NOTIFY_KEYEVENT :: u64 where "NOTIFY_KEYEVENT = push_bit 1 1"
definition NOTIFY_GENERIC :: u64 where "NOTIFY_GENERIC = push_bit 2 1"
definition NOTIFY_STRING :: u64 where "NOTIFY_STRING = push_bit 3 1"
definition NOTIFY_LIST :: u64 where "NOTIFY_LIST = push_bit 4 1"
definition NOTIFY_SET :: u64 where "NOTIFY_SET = push_bit 5 1"
definition NOTIFY_HASH :: u64 where "NOTIFY_HASH = push_bit 6 1"
definition NOTIFY_ZSET :: u64 where "NOTIFY_ZSET = push_bit 7 1"
definition NOTIFY_EXPIRED :: u64 where "NOTIFY_EXPIRED = push_bit 8 1"
definition NOTIFY_EVICTED :: u64 where "NOTIFY_EVICTED = push_bit 9 1"
definition NOTIFY_STREAM :: u64 where "NOTIFY_STREAM = push_bit 10 1"
definition NOTIFY_KEY_MISS :: u64 where "NOTIFY_KEY_MISS = push_bit 11 1"

definition NOTIFY_ALL :: u64 where
  "NOTIFY_ALL = NOTIFY_GENERIC OR NOTIFY_STRING OR NOTIFY_LIST OR NOTIFY_SET OR NOTIFY_HASH OR
     NOTIFY_ZSET OR NOTIFY_EXPIRED OR NOTIFY_EVICTED OR NOTIFY_STREAM"

definition class_flag :: "byte \<Rightarrow> u64 option" where
  "class_flag c =
     (if c = of_char CHR ''A'' then Some NOTIFY_ALL
      else if c = of_char CHR ''g'' then Some NOTIFY_GENERIC
      else if c = of_char CHR ''$'' then Some NOTIFY_STRING
      else if c = of_char CHR ''l'' then Some NOTIFY_LIST
      else if c = of_char CHR ''s'' then Some NOTIFY_SET
      else if c = of_char CHR ''h'' then Some NOTIFY_HASH
      else if c = of_char CHR ''z'' then Some NOTIFY_ZSET
      else if c = of_char CHR ''x'' then Some NOTIFY_EXPIRED
      else if c = of_char CHR ''e'' then Some NOTIFY_EVICTED
      else if c = of_char CHR ''K'' then Some NOTIFY_KEYSPACE
      else if c = of_char CHR ''E'' then Some NOTIFY_KEYEVENT
      else if c = of_char CHR ''t'' then Some NOTIFY_STREAM
      else if c = of_char CHR ''m'' then Some NOTIFY_KEY_MISS
      else None)"

text \<open>The argument is the C string without its terminator; \<^term>\<open>None\<close> is the return value -1.\<close>

fun keyspaceEventsStringToFlags_loop :: "bytes \<Rightarrow> u64 \<Rightarrow> u64 option" where
  "keyspaceEventsStringToFlags_loop [] fl = Some fl"
| "keyspaceEventsStringToFlags_loop (c # cs) fl = (case class_flag c of
      None \<Rightarrow> None
    | Some f \<Rightarrow> keyspaceEventsStringToFlags_loop cs (fl OR f))"

definition keyspaceEventsStringToFlags :: "bytes \<Rightarrow> u64 option" where
  "keyspaceEventsStringToFlags classes = keyspaceEventsStringToFlags_loop classes 0"

definition class_char :: "u64 \<Rightarrow> u64 \<Rightarrow> char \<Rightarrow> bytes" where
  "class_char fl m c = (if has_flag fl m then [of_char c] else [])"

definition keyspaceEventsFlagsToString :: "u64 \<Rightarrow> bytes" where
  "keyspaceEventsFlagsToString fl =
     (if fl AND NOTIFY_ALL = NOTIFY_ALL then [of_char CHR ''A'']
      else class_char fl NOTIFY_GENERIC CHR ''g'' @ class_char fl NOTIFY_STRING CHR ''$'' @
        class_char fl NOTIFY_LIST CHR ''l'' @ class_char fl NOTIFY_SET CHR ''s'' @
        class_char fl NOTIFY_HASH CHR ''h'' @ class_char fl NOTIFY_ZSET CHR ''z'' @
        class_char fl NOTIFY_EXPIRED CHR ''x'' @ class_char fl NOTIFY_EVICTED CHR ''e'' @
        class_char fl NOTIFY_STREAM CHR ''t'') @
     class_char fl NOTIFY_KEYSPACE CHR ''K'' @ class_char fl NOTIFY_KEYEVENT CHR ''E'' @
     class_char fl NOTIFY_KEY_MISS CHR ''m''"

text \<open>The decimal form of a database number, written into a buffer of 24 bytes.\<close>

definition dbid_string :: "nat \<Rightarrow> bytes option" where
  "dbid_string i = do { (b, n) \<leftarrow> ll2string (replicate 24 0) 24 (int i); Some (take n b) }"

definition notifyKeyspaceEvent :: "u64 \<Rightarrow> string \<Rightarrow> bytes \<Rightarrow> nat \<Rightarrow> server \<Rightarrow> server option" where
  "notifyKeyspaceEvent type event key dbid s =
     (if \<not> has_flag (notify_keyspace_events s) type then Some s
      else do {
        n \<leftarrow> dbid_string dbid;
        let s1 = (if has_flag (notify_keyspace_events s) NOTIFY_KEYSPACE
                  then fst (pubsubPublishMessage (bstr ''__keyspace@'' @ n @ bstr ''__:'' @ key) (bstr event) s)
                  else s);
        Some (if has_flag (notify_keyspace_events s1) NOTIFY_KEYEVENT
              then fst (pubsubPublishMessage (bstr ''__keyevent@'' @ n @ bstr ''__:'' @ bstr event) key s1)
              else s1)
      })"

end
