(* ===== verification/Watch.thy ===== *)
theory Watch
  imports Server
begin

unbundle bit_operations_syntax

text \<open>
  WATCH (\<open>multi.c\<close>): each database maps a watched key to the list of the clients that watch it,
  and each client keeps the list of the keys it watches, with their databases.
\<close>

definition watchForKey :: "nat \<Rightarrow> bytes \<Rightarrow> server \<Rightarrow> server" where
  "watchForKey c key s =
     (let i = cdb (clients s c)
      in if (i, key) \<in> set (watched (clients s c)) then s
         else let cs = (case wkeys (db s i) key of None \<Rightarrow> [] | Some cs \<Rightarrow> cs);
                  s1 = upd_db i (\<lambda>d. d\<lparr>wkeys := (wkeys d)(key \<mapsto> cs @ [c])\<rparr>) s
              in upd_client c (\<lambda>cl. cl\<lparr>watched := watched cl @ [(i, key)]\<rparr>) s1)"

fun watch_loop :: "nat \<Rightarrow> bytes list \<Rightarrow> server \<Rightarrow> server" where
  "watch_loop c [] s = s"
| "watch_loop c (k # ks) s = watch_loop c ks (watchForKey c k s)"

text \<open>One turn of the loop of \<open>unwatchAllKeys\<close>, for the first watched key.\<close>

definition unwatch_key :: "nat \<Rightarrow> nat \<Rightarrow> bytes \<Rightarrow> server \<Rightarrow> server option" where
  "unwatch_key c i key s = do {
     cs \<leftarrow> wkeys (db s i) key;
     serverAssert (c \<in> set cs);
     let cs' = remove1 c cs;
     let s1 = upd_db i (\<lambda>d. d\<lparr>wkeys := (wkeys d)(key := if cs' = [] then None else Some cs')\<rparr>) s;
     Some (upd_client c (\<lambda>cl. cl\<lparr>watched := remove1 (i, key) (watched cl)\<rparr>) s1)
   }"

fun unwatch_loop :: "nat \<Rightarrow> (nat \<times> bytes) list \<Rightarrow> server \<Rightarrow> server option" where
  "unwatch_loop c [] s = Some s"
| "unwatch_loop c ((i, k) # ws) s = do { s1 \<leftarrow> unwatch_key c i k s; unwatch_loop c ws s1 }"

definition unwatchAllKeys :: "nat \<Rightarrow> server \<Rightarrow> server option" where
  "unwatchAllKeys c s = unwatch_loop c (watched (clients s c)) s"

fun mark_dirty :: "nat list \<Rightarrow> server \<Rightarrow> server" where
  "mark_dirty [] s = s"
| "mark_dirty (c # cs) s = mark_dirty cs (set_flags c CLIENT_DIRTY_CAS s)"

definition touchWatchedKey :: "nat \<Rightarrow> bytes \<Rightarrow> server \<Rightarrow> server" where
  "touchWatchedKey i key s = (case wkeys (db s i) key of None \<Rightarrow> s | Some cs \<Rightarrow> mark_dirty cs s)"

text \<open>The keys of one client in a flush of the database \<open>dbid\<close>, where -1 stands for all databases.\<close>

fun flush_touches :: "int \<Rightarrow> server \<Rightarrow> (nat \<times> bytes) list \<Rightarrow> bool" where
  "flush_touches dbid s [] = False"
| "flush_touches dbid s ((i, k) # ws) =
     (((dbid = -1 \<or> int i = dbid) \<and> map_of (kv (db s i)) k \<noteq> None) \<or> flush_touches dbid s ws)"

fun touch_on_flush_loop :: "nat list \<Rightarrow> int \<Rightarrow> server \<Rightarrow> server" where
  "touch_on_flush_loop [] dbid s = s"
| "touch_on_flush_loop (c # cs) dbid s =
     touch_on_flush_loop cs dbid
       (if flush_touches dbid s (watched (clients s c)) then set_flags c CLIENT_DIRTY_CAS s else s)"

definition touchWatchedKeysOnFlush :: "int \<Rightarrow> server \<Rightarrow> server" where
  "touchWatchedKeysOnFlush dbid s = touch_on_flush_loop (client_list s) dbid s"

end
