(* ===== verification/Keyspace.thy ===== *)
theory Keyspace
  imports Pubsub Watch
begin

unbundle bit_operations_syntax

text \<open>
  The keyspace (\<open>db.c\<close>) and key expiration (\<open>expire.c\<close>, \<open>lazyfree.c\<close>).  All functions run in the
  context of a command, where \<open>server.fixed_time_expire\<close> is positive and \<open>keyIsExpired\<close> looks at
  the cached time.
\<close>

subsection \<open>Propagation\<close>

text \<open>What goes to the append only file and to the replicas.\<close>

definition PROPAGATE_AOF :: u64 where "PROPAGATE_AOF = 1"
definition PROPAGATE_REPL :: u64 where "PROPAGATE_REPL = 2"

definition propagate :: "nat \<Rightarrow> bytes list \<Rightarrow> u64 \<Rightarrow> server \<Rightarrow> server" where
  "propagate dbid args fl s =
     (let s1 = (if aof_on s \<and> has_flag fl PROPAGATE_AOF then s\<lparr>aof_feed := aof_feed s @ [(dbid, args)]\<rparr> else s)
      in if has_flag fl PROPAGATE_REPL then s1\<lparr>repl_feed := repl_feed s1 @ [(dbid, args)]\<rparr> else s1)"

definition propagateExpire :: "nat \<Rightarrow> bytes \<Rightarrow> bool \<Rightarrow> server \<Rightarrow> server" where
  "propagateExpire dbid key lazy s =
     (let args = [bstr (if lazy then ''UNLINK'' else ''DEL''), key];
          s1 = (if aof_on s then s\<lparr>aof_feed := aof_feed s @ [(dbid, args)]\<rparr> else s)
      in s1\<lparr>repl_feed := repl_feed s1 @ [(dbid, args)]\<rparr>)"

definition signalModifiedKey :: "nat \<Rightarrow> bytes \<Rightarrow> server \<Rightarrow> server" where
  "signalModifiedKey i key s = touchWatchedKey i key s"

definition signalFlushedDb :: "int \<Rightarrow> server \<Rightarrow> server" where
  "signalFlushedDb dbid s = touchWatchedKeysOnFlush dbid s"

subsection \<open>Deletion and expiration\<close>

definition dbSyncDelete :: "nat \<Rightarrow> bytes \<Rightarrow> server \<Rightarrow> server \<times> bool" where
  "dbSyncDelete i key s =
     (upd_db i (\<lambda>d. d\<lparr>expires := (expires d)(key := None), kv := AList.delete key (kv d)\<rparr>) s,
      map_of (kv (db s i)) key \<noteq> None)"

text \<open>The same effect on the keyspace; the value may be released by another thread.\<close>

definition dbAsyncDelete :: "nat \<Rightarrow> bytes \<Rightarrow> server \<Rightarrow> server \<times> bool" where
  "dbAsyncDelete i key s =
     (let s1 = upd_db i (\<lambda>d. d\<lparr>expires := (expires d)(key := None)\<rparr>) s
      in case map_of (kv (db s1 i)) key of
           None \<Rightarrow> (s1, False)
         | Some val \<Rightarrow> (upd_db i (\<lambda>d. d\<lparr>kv := AList.delete key (kv d)\<rparr>) s1, True))"

text \<open>The choice between the two by a configuration flag.\<close>

definition dbGenericDelete :: "bool \<Rightarrow> nat \<Rightarrow> bytes \<Rightarrow> server \<Rightarrow> server \<times> bool" where
  "dbGenericDelete lazy i key s = (if lazy then dbAsyncDelete i key s else dbSyncDelete i key s)"

definition dbDelete :: "nat \<Rightarrow> bytes \<Rightarrow> server \<Rightarrow> server \<times> bool" where
  "dbDelete i key s = (if lazyfree_lazy_server_del s then dbAsyncDelete i key s else dbSyncDelete i key s)"

definition removeExpire :: "nat \<Rightarrow> bytes \<Rightarrow> server \<Rightarrow> (server \<times> bool) option" where
  "removeExpire i key s = do {
     serverAssert (map_of (kv (db s i)) key \<noteq> None);
     Some (upd_db i (\<lambda>d. d\<lparr>expires := (expires d)(key := None)\<rparr>) s, expires (db s i) key \<noteq> None)
   }"

definition rememberSlaveKeyWithExpire :: "nat \<Rightarrow> bytes \<Rightarrow> server \<Rightarrow> server" where
  "rememberSlaveKeyWithExpire i key s =
     (if i > 63 then s
      else let dbids = (case slave_keys s key of None \<Rightarrow> 0 | Some w \<Rightarrow> w)
        in s\<lparr>slave_keys := (slave_keys s)(key \<mapsto> dbids OR push_bit i 1)\<rparr>)"

definition setExpire :: "nat \<Rightarrow> nat \<Rightarrow> bytes \<Rightarrow> int \<Rightarrow> server \<Rightarrow> server option" where
  "setExpire c i key when s = do {
     serverAssert (map_of (kv (db s i)) key \<noteq> None);
     let s1 = upd_db i (\<lambda>d. d\<lparr>expires := (expires d)(key \<mapsto> when)\<rparr>) s;
     Some (if masterhost s \<and> \<not> repl_slave_ro s \<and> \<not> has_flag (flags (clients s c)) CLIENT_MASTER
           then rememberSlaveKeyWithExpire i key s1 else s1)
   }"

definition getExpire :: "nat \<Rightarrow> bytes \<Rightarrow> server \<Rightarrow> int option" where
  "getExpire i key s = (case expires (db s i) key of
      None \<Rightarrow> Some (-1)
    | Some e \<Rightarrow> do { serverAssert (map_of (kv (db s i)) key \<noteq> None); Some e })"

definition keyIsExpired :: "nat \<Rightarrow> bytes \<Rightarrow> server \<Rightarrow> bool option" where
  "keyIsExpired i key s = do {
     when \<leftarrow> getExpire i key s;
     if when < 0 then Some False
     else if loading s then Some False
     else Some (mstime s > when)
   }"

definition expireIfNeeded :: "nat \<Rightarrow> bytes \<Rightarrow> server \<Rightarrow> (server \<times> bool) option" where
  "expireIfNeeded i key s = do {
     e \<leftarrow> keyIsExpired i key s;
     if \<not> e then Some (s, False)
     else if masterhost s then Some (s, True)
     else do {
       let s1 = s\<lparr>stat_expiredkeys := stat_expiredkeys s + 1\<rparr>;
       let s2 = propagateExpire i key (lazyfree_lazy_expire s1) s1;
       s3 \<leftarrow> notifyKeyspaceEvent NOTIFY_EXPIRED ''expired'' key i s2;
       let (s4, retval) = dbGenericDelete (lazyfree_lazy_expire s3) i key s3;
       Some (if retval then signalModifiedKey i key s4 else s4, retval)
     }
   }"

text \<open>Expiration in the background, of a key with an expire time \<open>t\<close>.\<close>

definition activeExpireCycleTryExpire :: "nat \<Rightarrow> bytes \<Rightarrow> int \<Rightarrow> server \<Rightarrow> (server \<times> bool) option" where
  "activeExpireCycleTryExpire i key now s = do {
     t \<leftarrow> expires (db s i) key;
     if now > t then do {
       let s1 = propagateExpire i key (lazyfree_lazy_expire s) s;
       let s2 = fst (dbGenericDelete (lazyfree_lazy_expire s1) i key s1);
       s3 \<leftarrow> notifyKeyspaceEvent NOTIFY_EXPIRED ''expired'' key i s2;
       Some (s3\<lparr>stat_expiredkeys := stat_expiredkeys s3 + 1\<rparr>, True)
     }
     else Some (s, False)
   }"

subsection \<open>Lookup\<close>

definition lookupKey :: "nat \<Rightarrow> bytes \<Rightarrow> server \<Rightarrow> robj option" where
  "lookupKey i key s = map_of (kv (db s i)) key"

definition miss :: "nat \<Rightarrow> bytes \<Rightarrow> server \<Rightarrow> (server \<times> robj option) option" where
  "miss i key s = do {
     s1 \<leftarrow> notifyKeyspaceEvent NOTIFY_KEY_MISS ''keymiss'' key i
            (s\<lparr>stat_keyspace_misses := stat_keyspace_misses s + 1\<rparr>);
     Some (s1, None)
   }"

definition lookupKeyReadWithFlags :: "nat \<Rightarrow> bytes \<Rightarrow> server \<Rightarrow> (server \<times> robj option) option" where
  "lookupKeyReadWithFlags i key s = do {
     (s1, e) \<leftarrow> expireIfNeeded i key s;
     if e \<and> \<not> masterhost s1 then miss i key s1
     else if e \<and> (case current_client s1 of None \<Rightarrow> False
                   | Some c \<Rightarrow> \<not> has_flag (flags (clients s1 c)) CLIENT_MASTER \<and>
                       has_flag (cflags (cmd (clients s1 c))) CMD_READONLY) then miss i key s1
     else (case lookupKey i key s1 of
         None \<Rightarrow> miss i key s1
       | Some val \<Rightarrow> Some (s1\<lparr>stat_keyspace_hits := stat_keyspace_hits s1 + 1\<rparr>, Some val))
   }"

definition lookupKeyRead :: "nat \<Rightarrow> bytes \<Rightarrow> server \<Rightarrow> (server \<times> robj option) option" where
  "lookupKeyRead i key s = lookupKeyReadWithFlags i key s"

definition lookupKeyWrite :: "nat \<Rightarrow> bytes \<Rightarrow> server \<Rightarrow> (server \<times> robj option) option" where
  "lookupKeyWrite i key s = do {
     (s1, e) \<leftarrow> expireIfNeeded i key s;
     Some (s1, lookupKey i key s1)
   }"

definition lookupKeyReadOrReply :: "nat \<Rightarrow> bytes \<Rightarrow> reply \<Rightarrow> server \<Rightarrow> (server \<times> robj option) option" where
  "lookupKeyReadOrReply c key r s = do {
     (s1, obj) \<leftarrow> lookupKeyRead (cdb (clients s c)) key s;
     Some (if obj = None then addReply c r s1 else s1, obj)
   }"

definition lookupKeyWriteOrReply :: "nat \<Rightarrow> bytes \<Rightarrow> reply \<Rightarrow> server \<Rightarrow> (server \<times> robj option) option" where
  "lookupKeyWriteOrReply c key r s = do {
     (s1, obj) \<leftarrow> lookupKeyWrite (cdb (clients s c)) key s;
     Some (if obj = None then addReply c r s1 else s1, obj)
   }"

subsection \<open>Writing\<close>

definition signalKeyAsReady :: "nat \<Rightarrow> bytes \<Rightarrow> server \<Rightarrow> server" where
  "signalKeyAsReady i key s =
     (if key \<notin> blocking_keys (db s i) then s
      else if key \<in> ready_keys (db s i) then s
      else upd_db i (\<lambda>d. d\<lparr>ready_keys := insert key (ready_keys d)\<rparr>)
             (s\<lparr>ready_list := ready_list s @ [(i, key)]\<rparr>))"

definition dbAdd :: "nat \<Rightarrow> bytes \<Rightarrow> robj \<Rightarrow> server \<Rightarrow> server option" where
  "dbAdd i key val s = do {
     serverAssert (map_of (kv (db s i)) key = None);
     let s1 = upd_db i (\<lambda>d. d\<lparr>kv := AList.update key val (kv d)\<rparr>) s;
     Some (if otype_of val \<in> {OBJ_LIST, OBJ_ZSET, OBJ_STREAM} then signalKeyAsReady i key s1 else s1)
   }"

definition dbOverwrite :: "nat \<Rightarrow> bytes \<Rightarrow> robj \<Rightarrow> server \<Rightarrow> server option" where
  "dbOverwrite i key val s = do {
     serverAssert (map_of (kv (db s i)) key \<noteq> None);
     Some (upd_db i (\<lambda>d. d\<lparr>kv := AList.update key val (kv d)\<rparr>) s)
   }"

definition genericSetKey :: "nat \<Rightarrow> bytes \<Rightarrow> robj \<Rightarrow> bool \<Rightarrow> bool \<Rightarrow> server \<Rightarrow> server option" where
  "genericSetKey i key val keepttl signal s = do {
     (s1, old) \<leftarrow> lookupKeyWrite i key s;
     s2 \<leftarrow> (if old = None then dbAdd i key val s1 else dbOverwrite i key val s1);
     s3 \<leftarrow> (if \<not> keepttl then do { (s3, r) \<leftarrow> removeExpire i key s2; Some s3 } else Some s2);
     Some (if signal then signalModifiedKey i key s3 else s3)
   }"

definition setKey :: "nat \<Rightarrow> bytes \<Rightarrow> robj \<Rightarrow> server \<Rightarrow> server option" where
  "setKey i key val s = genericSetKey i key val False True s"

fun empty_dbs :: "nat list \<Rightarrow> server \<Rightarrow> server \<times> nat" where
  "empty_dbs [] s = (s, 0)"
| "empty_dbs (j # js) s =
     (let n = length (kv (db s j));
          (s1, m) = empty_dbs js (upd_db j (\<lambda>d. d\<lparr>kv := [], expires := Map.empty\<rparr>) s)
      in (s1, n + m))"

text \<open>The return value -1 is \<^term>\<open>None\<close> in the second component.\<close>

definition emptyDb :: "int \<Rightarrow> server \<Rightarrow> server \<times> nat option" where
  "emptyDb dbnr s =
     (if dbnr < -1 \<or> dbnr \<ge> int (dbnum s) then (s, None)
      else let s1 = signalFlushedDb dbnr s;
               (s2, removed) = empty_dbs (if dbnr = -1 then [0..<dbnum s] else [nat dbnr]) s1;
               s3 = (if dbnr = -1 then s2\<lparr>slave_keys := Map.empty\<rparr> else s2)
        in (s3, Some removed))"

definition selectDb :: "nat \<Rightarrow> int \<Rightarrow> server \<Rightarrow> server option" where
  "selectDb c n s =
     (if n < 0 \<or> n \<ge> int (dbnum s) then None
      else Some (upd_client c (\<lambda>cl. cl\<lparr>cdb := nat n\<rparr>) s))"

end
