(* ===== verification/Strings.thy ===== *)
theory Strings
  imports Keyspace
begin

unbundle bit_operations_syntax

text \<open>
  String objects (\<open>object.c\<close>), the string commands (\<open>t_string.c\<close>), the commands on keys of any
  type (\<open>db.c\<close>) and the expiration commands (\<open>expire.c\<close>).  \<open>c\<close> is the calling client; a reply is
  appended to its reply list.
\<close>

subsection \<open>String objects\<close>

definition OBJ_ENCODING_EMBSTR_SIZE_LIMIT :: nat where "OBJ_ENCODING_EMBSTR_SIZE_LIMIT = 44"

definition createStringObject :: "bytes \<Rightarrow> robj" where
  "createStringObject b = (if length b \<le> OBJ_ENCODING_EMBSTR_SIZE_LIMIT then StrEmb b else StrRaw b)"

text \<open>A shared integer and a private one are the same value.\<close>

definition createStringObjectFromLongLong :: "int \<Rightarrow> robj" where
  "createStringObjectFromLongLong v =
     (if LLONG_MIN \<le> v \<and> v \<le> LLONG_MAX then StrInt v else StrRaw (int_dec v))"

fun tryObjectEncoding :: "robj \<Rightarrow> robj option" where
  "tryObjectEncoding (StrInt v) = Some (StrInt v)"
| "tryObjectEncoding (StrEmb b) =
     (case (if length b \<le> 20 then string2l b else None) of
        Some v \<Rightarrow> Some (createStringObjectFromLongLong v)
      | None \<Rightarrow> Some (StrEmb b))"
| "tryObjectEncoding (StrRaw b) =
     (case (if length b \<le> 20 then string2l b else None) of
        Some v \<Rightarrow> Some (StrInt v)
      | None \<Rightarrow> if length b \<le> OBJ_ENCODING_EMBSTR_SIZE_LIMIT then Some (StrEmb b) else Some (StrRaw b))"
| "tryObjectEncoding _ = None"

fun getDecodedObject :: "robj \<Rightarrow> robj option" where
  "getDecodedObject (StrInt v) = do {
     (b, n) \<leftarrow> ll2string (replicate 32 0) 32 v;
     Some (createStringObject (cstr b))
   }"
| "getDecodedObject (StrEmb b) = Some (StrEmb b)"
| "getDecodedObject (StrRaw b) = Some (StrRaw b)"
| "getDecodedObject _ = None"

fun sds_of :: "robj \<Rightarrow> bytes option" where
  "sds_of (StrEmb b) = Some b"
| "sds_of (StrRaw b) = Some b"
| "sds_of _ = None"

text \<open>The bytes that \<open>addReplyBulk\<close> sends for a string object.\<close>

definition bulk_bytes :: "robj \<Rightarrow> bytes option" where
  "bulk_bytes obj = do { d \<leftarrow> getDecodedObject obj; sds_of d }"

fun stringObjectLen :: "robj \<Rightarrow> nat option" where
  "stringObjectLen (StrInt v) = Some (sdigits10 v)"
| "stringObjectLen (StrEmb b) = Some (length b)"
| "stringObjectLen (StrRaw b) = Some (length b)"
| "stringObjectLen _ = None"

text \<open>The outer \<^term>\<open>None\<close> is a failed assertion, the inner one the error code.\<close>

fun getLongLongFromObject :: "robj option \<Rightarrow> int option option" where
  "getLongLongFromObject None = Some (Some 0)"
| "getLongLongFromObject (Some (StrInt v)) = Some (Some v)"
| "getLongLongFromObject (Some (StrEmb b)) = Some (string2ll b)"
| "getLongLongFromObject (Some (StrRaw b)) = Some (string2ll b)"
| "getLongLongFromObject _ = None"

definition getLongLongFromObjectOrReply :: "nat \<Rightarrow> robj option \<Rightarrow> string option \<Rightarrow> server \<Rightarrow> (server \<times> int option) option" where
  "getLongLongFromObjectOrReply c obj msg s = do {
     v \<leftarrow> getLongLongFromObject obj;
     case v of
       None \<Rightarrow> Some (addReply c (Error (bstr (case msg of
           None \<Rightarrow> ''value is not an integer or out of range'' | Some m \<Rightarrow> m))) s, None)
     | Some n \<Rightarrow> Some (s, Some n)
   }"

text \<open>\<open>long\<close> and \<open>long long\<close> have the same range.\<close>

definition getLongFromObjectOrReply :: "nat \<Rightarrow> robj option \<Rightarrow> string option \<Rightarrow> server \<Rightarrow> (server \<times> int option) option" where
  "getLongFromObjectOrReply c obj msg s = do {
     (s1, v) \<leftarrow> getLongLongFromObjectOrReply c obj msg s;
     case v of
       None \<Rightarrow> Some (s1, None)
     | Some n \<Rightarrow>
         if n < LLONG_MIN \<or> n > LLONG_MAX
         then Some (addReply c (Error (bstr (case msg of None \<Rightarrow> ''value is out of range'' | Some m \<Rightarrow> m))) s1, None)
         else Some (s1, Some n)
   }"

text \<open>A missing object must not be passed: \<open>o->type\<close> would be a null access.\<close>

definition checkType :: "nat \<Rightarrow> robj \<Rightarrow> otype \<Rightarrow> server \<Rightarrow> server \<times> bool" where
  "checkType c obj t s = (if otype_of obj \<noteq> t then (addReply c WrongTypeErr s, True) else (s, False))"

definition dbUnshareStringValue :: "nat \<Rightarrow> bytes \<Rightarrow> robj \<Rightarrow> server \<Rightarrow> (server \<times> bytes) option" where
  "dbUnshareStringValue i key obj s = (case obj of
      StrRaw b \<Rightarrow> Some (s, b)
    | _ \<Rightarrow> do {
        b \<leftarrow> bulk_bytes obj;
        s1 \<leftarrow> dbOverwrite i key (StrRaw b) s;
        Some (s1, b)
      })"

text \<open>Writing the new contents of an unshared raw string back into the object.\<close>

definition set_raw :: "nat \<Rightarrow> bytes \<Rightarrow> bytes \<Rightarrow> server \<Rightarrow> server" where
  "set_raw i key b = upd_db i (\<lambda>d. d\<lparr>kv := AList.update key (StrRaw b) (kv d)\<rparr>)"

text \<open>An allocation of more than \<open>PTRDIFF_MAX\<close> bytes fails, and the server aborts.\<close>

definition sds_alloc :: "int \<Rightarrow> unit option" where
  "sds_alloc n = serverAssert (n mod 2 ^ 64 < 2 ^ 63)"

definition incr_dirty :: "int \<Rightarrow> server \<Rightarrow> server" where
  "incr_dirty n s = s\<lparr>dirty := dirty s + n\<rparr>"

subsection \<open>SET\<close>

definition OBJ_SET_NX :: u64 where "OBJ_SET_NX = push_bit 0 1"
definition OBJ_SET_XX :: u64 where "OBJ_SET_XX = push_bit 1 1"
definition OBJ_SET_EX :: u64 where "OBJ_SET_EX = push_bit 2 1"
definition OBJ_SET_PX :: u64 where "OBJ_SET_PX = push_bit 3 1"
definition OBJ_SET_KEEPTTL :: u64 where "OBJ_SET_KEEPTTL = push_bit 4 1"

datatype time_unit = UNIT_SECONDS | UNIT_MILLISECONDS

text \<open>The relative expire time in milliseconds; \<^term>\<open>None\<close> inside when an error was replied.\<close>

definition set_expire_arg :: "nat \<Rightarrow> bytes option \<Rightarrow> time_unit \<Rightarrow> server \<Rightarrow> (server \<times> int option) option" where
  "set_expire_arg c expire unit s = (case expire of
      None \<Rightarrow> Some (s, Some 0)
    | Some e \<Rightarrow> do {
        (s1, v) \<leftarrow> getLongLongFromObjectOrReply c (Some (createStringObject e)) None s;
        case v of
          None \<Rightarrow> Some (s1, None)
        | Some ms \<Rightarrow>
            if ms \<le> 0 then
              Some (addReply c (Error (bstr (''invalid expire time in '' @ cname (cmd (clients s1 c))))) s1, None)
            else Some (s1, Some (if unit = UNIT_SECONDS then wrap64 (ms * 1000) else ms))
      })"

text \<open>Whether the NX or XX condition fails.\<close>

definition set_denied :: "nat \<Rightarrow> u64 \<Rightarrow> bytes \<Rightarrow> server \<Rightarrow> (server \<times> bool) option" where
  "set_denied i fl key s = do {
     (s1, nx) \<leftarrow> (if has_flag fl OBJ_SET_NX
                  then do { (s1, obj) \<leftarrow> lookupKeyWrite i key s; Some (s1, obj \<noteq> None) } else Some (s, False));
     if nx then Some (s1, True)
     else if has_flag fl OBJ_SET_XX
     then do { (s2, obj) \<leftarrow> lookupKeyWrite i key s1; Some (s2, obj = None) }
     else Some (s1, False)
   }"

definition setGenericCommand ::
    "nat \<Rightarrow> u64 \<Rightarrow> bytes \<Rightarrow> robj \<Rightarrow> bytes option \<Rightarrow> time_unit \<Rightarrow> reply option \<Rightarrow> reply option \<Rightarrow> server \<Rightarrow> server option" where
  "setGenericCommand c fl key val expire unit ok_reply abort_reply s = do {
     let i = cdb (clients s c);
     (s1, ms) \<leftarrow> set_expire_arg c expire unit s;
     case ms of
       None \<Rightarrow> Some s1
     | Some milliseconds \<Rightarrow> do {
         (s2, denied) \<leftarrow> set_denied i fl key s1;
         if denied then Some (addReply c (case abort_reply of None \<Rightarrow> Null | Some r \<Rightarrow> r) s2)
         else do {
           s3 \<leftarrow> genericSetKey i key val (has_flag fl OBJ_SET_KEEPTTL) True s2;
           let s4 = incr_dirty 1 s3;
           s5 \<leftarrow> (if expire \<noteq> None then setExpire c i key (wrap64 (clock s4 + milliseconds)) s4 else Some s4);
           s6 \<leftarrow> notifyKeyspaceEvent NOTIFY_STRING ''set'' key i s5;
           s7 \<leftarrow> (if expire \<noteq> None then notifyKeyspaceEvent NOTIFY_GENERIC ''expire'' key i s6 else Some s6);
           Some (addReply c (case ok_reply of None \<Rightarrow> Ok | Some r \<Rightarrow> r) s7)
         }
       }
   }"

text \<open>The options of SET; \<^term>\<open>None\<close> is a syntax error.\<close>

fun set_options :: "bytes list \<Rightarrow> u64 \<Rightarrow> bytes option \<Rightarrow> time_unit \<Rightarrow> (u64 \<times> bytes option \<times> time_unit) option" where
  "set_options [] fl expire unit = Some (fl, expire, unit)"
| "set_options (a # rest) fl expire unit =
     (if strcaseeq a ''nx'' \<and> \<not> has_flag fl OBJ_SET_XX then set_options rest (fl OR OBJ_SET_NX) expire unit
      else if strcaseeq a ''xx'' \<and> \<not> has_flag fl OBJ_SET_NX then set_options rest (fl OR OBJ_SET_XX) expire unit
      else if strcaseeq a ''KEEPTTL'' \<and> \<not> has_flag fl OBJ_SET_EX \<and> \<not> has_flag fl OBJ_SET_PX
      then set_options rest (fl OR OBJ_SET_KEEPTTL) expire unit
      else if strcaseeq a ''ex'' \<and> \<not> has_flag fl OBJ_SET_KEEPTTL \<and> \<not> has_flag fl OBJ_SET_PX \<and> rest \<noteq> []
      then set_options (tl rest) (fl OR OBJ_SET_EX) (Some (hd rest)) UNIT_SECONDS
      else if strcaseeq a ''px'' \<and> \<not> has_flag fl OBJ_SET_KEEPTTL \<and> \<not> has_flag fl OBJ_SET_EX \<and> rest \<noteq> []
      then set_options (tl rest) (fl OR OBJ_SET_PX) (Some (hd rest)) UNIT_MILLISECONDS
      else None)"

definition setCommand :: "nat \<Rightarrow> bytes \<Rightarrow> bytes \<Rightarrow> bytes list \<Rightarrow> server \<Rightarrow> server option" where
  "setCommand c key val opts s = (case set_options opts 0 None UNIT_SECONDS of
      None \<Rightarrow> Some (addReply c SyntaxErr s)
    | Some (fl, expire, unit) \<Rightarrow> do {
        v \<leftarrow> tryObjectEncoding (createStringObject val);
        setGenericCommand c fl key v expire unit None None s
      })"

definition setnxCommand :: "nat \<Rightarrow> bytes \<Rightarrow> bytes \<Rightarrow> server \<Rightarrow> server option" where
  "setnxCommand c key val s = do {
     v \<leftarrow> tryObjectEncoding (createStringObject val);
     setGenericCommand c OBJ_SET_NX key v None UNIT_SECONDS (Some Cone) (Some Czero) s
   }"

definition setexCommand :: "nat \<Rightarrow> bytes \<Rightarrow> bytes \<Rightarrow> bytes \<Rightarrow> server \<Rightarrow> server option" where
  "setexCommand c key seconds val s = do {
     v \<leftarrow> tryObjectEncoding (createStringObject val);
     setGenericCommand c 0 key v (Some seconds) UNIT_SECONDS None None s
   }"

definition psetexCommand :: "nat \<Rightarrow> bytes \<Rightarrow> bytes \<Rightarrow> bytes \<Rightarrow> server \<Rightarrow> server option" where
  "psetexCommand c key ms val s = do {
     v \<leftarrow> tryObjectEncoding (createStringObject val);
     setGenericCommand c 0 key v (Some ms) UNIT_MILLISECONDS None None s
   }"

subsection \<open>GET and GETSET\<close>

definition addReplyBulk :: "nat \<Rightarrow> robj \<Rightarrow> server \<Rightarrow> server option" where
  "addReplyBulk c obj s = do { b \<leftarrow> bulk_bytes obj; Some (addReply c (Bulk b) s) }"

text \<open>The second component is the return value, \<open>C_OK\<close> or \<open>C_ERR\<close>.\<close>

definition getGenericCommand :: "nat \<Rightarrow> bytes \<Rightarrow> server \<Rightarrow> (server \<times> bool) option" where
  "getGenericCommand c key s = do {
     (s1, obj) \<leftarrow> lookupKeyReadOrReply c key Null s;
     case obj of
       None \<Rightarrow> Some (s1, True)
     | Some val \<Rightarrow>
         if otype_of val \<noteq> OBJ_STRING then Some (addReply c WrongTypeErr s1, False)
         else do { s2 \<leftarrow> addReplyBulk c val s1; Some (s2, True) }
   }"

definition getCommand :: "nat \<Rightarrow> bytes \<Rightarrow> server \<Rightarrow> server option" where
  "getCommand c key s = do { (s1, r) \<leftarrow> getGenericCommand c key s; Some s1 }"

definition getsetCommand :: "nat \<Rightarrow> bytes \<Rightarrow> bytes \<Rightarrow> server \<Rightarrow> server option" where
  "getsetCommand c key val s = do {
     (s1, r) \<leftarrow> getGenericCommand c key s;
     if \<not> r then Some s1
     else do {
       v \<leftarrow> tryObjectEncoding (createStringObject val);
       s2 \<leftarrow> setKey (cdb (clients s1 c)) key v s1;
       s3 \<leftarrow> notifyKeyspaceEvent NOTIFY_STRING ''set'' key (cdb (clients s2 c)) s2;
       Some (incr_dirty 1 s3)
     }
   }"

subsection \<open>SETRANGE and GETRANGE\<close>

definition checkStringLength :: "nat \<Rightarrow> int \<Rightarrow> server \<Rightarrow> server \<times> bool" where
  "checkStringLength c sz s =
     (if sz > 512 * 1024 * 1024
      then (addReply c (Error (bstr ''string exceeds maximum allowed size (512MB)'')) s, False)
      else (s, True))"

text \<open>Growing a string with zero bytes and copying \<open>value\<close> to the offset.\<close>

definition write_range :: "bytes \<Rightarrow> int \<Rightarrow> bytes \<Rightarrow> bytes option" where
  "write_range old offset val = do {
     sds_alloc (offset + int (length val));
     let n = nat offset + length val;
     let grown = old @ replicate (n - length old) 0;
     buf_write grown (nat offset) val
   }"

text \<open>The string to write to: a fresh one of zero bytes, or that of the existing object.\<close>

definition setrange_target :: "nat \<Rightarrow> bytes \<Rightarrow> int \<Rightarrow> bytes \<Rightarrow> server \<Rightarrow> (server \<times> bytes option) option" where
  "setrange_target c key offset val s = do {
     let i = cdb (clients s c);
     (s1, obj) \<leftarrow> lookupKeyWrite i key s;
     case obj of
       None \<Rightarrow>
         if val = [] then Some (addReply c Czero s1, None)
         else (let (s2, ok) = checkStringLength c (wrap64 (offset + int (length val))) s1
           in if \<not> ok then Some (s2, None)
              else do {
                sds_alloc (offset + int (length val));
                let b = replicate (nat offset + length val) 0;
                s3 \<leftarrow> dbAdd i key (StrRaw b) s2;
                Some (s3, Some b)
              })
     | Some old \<Rightarrow>
         (let (s2, wrong) = checkType c old OBJ_STRING s1
          in if wrong then Some (s2, None)
             else do {
               olen \<leftarrow> stringObjectLen old;
               if val = [] then Some (addReply c (LongLong (int olen)) s2, None)
               else (let (s3, ok) = checkStringLength c (wrap64 (offset + int (length val))) s2
                 in if \<not> ok then Some (s3, None)
                    else do { (s4, b) \<leftarrow> dbUnshareStringValue i key old s3; Some (s4, Some b) })
             })
   }"

definition setrangeCommand :: "nat \<Rightarrow> bytes \<Rightarrow> bytes \<Rightarrow> bytes \<Rightarrow> server \<Rightarrow> server option" where
  "setrangeCommand c key off val s = do {
     (s1, v) \<leftarrow> getLongFromObjectOrReply c (Some (createStringObject off)) None s;
     case v of
       None \<Rightarrow> Some s1
     | Some offset \<Rightarrow>
         if offset < 0 then Some (addReply c (Error (bstr ''offset is out of range'')) s1)
         else do {
           (s2, t) \<leftarrow> setrange_target c key offset val s1;
           case t of
             None \<Rightarrow> Some s2
           | Some b \<Rightarrow> do {
               let i = cdb (clients s2 c);
               b' \<leftarrow> write_range b offset val;
               let s3 = signalModifiedKey i key (set_raw i key b' s2);
               s4 \<leftarrow> notifyKeyspaceEvent NOTIFY_STRING ''setrange'' key i s3;
               Some (addReply c (LongLong (int (length b'))) (incr_dirty 1 s4))
             }
         }
   }"

text \<open>The part of a string that GETRANGE selects; \<open>end\<close> is compared as an unsigned number.\<close>

definition getrange_part :: "bytes \<Rightarrow> int \<Rightarrow> int \<Rightarrow> bytes" where
  "getrange_part str start0 end0 =
     (let strlen = int (length str)
      in if start0 < 0 \<and> end0 < 0 \<and> start0 > end0 then []
         else
           let start1 = (if start0 < 0 then wrap64 (strlen + start0) else start0);
               end1 = (if end0 < 0 then wrap64 (strlen + end0) else end0);
               start2 = (if start1 < 0 then 0 else start1);
               end2 = (if end1 < 0 then 0 else end1);
               end3 = (if end2 \<ge> strlen then strlen - 1 else end2)
           in if start2 > end3 \<or> strlen = 0 then []
              else take (nat (end3 - start2 + 1)) (drop (nat start2) str))"

definition getrangeCommand :: "nat \<Rightarrow> bytes \<Rightarrow> bytes \<Rightarrow> bytes \<Rightarrow> server \<Rightarrow> server option" where
  "getrangeCommand c key st en s = do {
     (s1, v1) \<leftarrow> getLongLongFromObjectOrReply c (Some (createStringObject st)) None s;
     case v1 of None \<Rightarrow> Some s1 | Some start \<Rightarrow> do {
       (s2, v2) \<leftarrow> getLongLongFromObjectOrReply c (Some (createStringObject en)) None s1;
       case v2 of None \<Rightarrow> Some s2 | Some ende \<Rightarrow> do {
         (s3, obj) \<leftarrow> lookupKeyReadOrReply c key EmptyBulk s2;
         case obj of None \<Rightarrow> Some s3 | Some val \<Rightarrow>
           (let (s4, wrong) = checkType c val OBJ_STRING s3
            in if wrong then Some s4
               else do {
                 str \<leftarrow> bulk_bytes val;
                 let part = getrange_part str start ende;
                 Some (addReply c (if part = [] then EmptyBulk else Bulk part) s4)
               })
       }
     }
   }"

subsection \<open>MGET and MSET\<close>

fun mget_loop :: "nat \<Rightarrow> bytes list \<Rightarrow> server \<Rightarrow> server option" where
  "mget_loop c [] s = Some s"
| "mget_loop c (k # ks) s = do {
     (s1, obj) \<leftarrow> lookupKeyRead (cdb (clients s c)) k s;
     s2 \<leftarrow> (case obj of
         None \<Rightarrow> Some (addReply c Null s1)
       | Some val \<Rightarrow> if otype_of val \<noteq> OBJ_STRING then Some (addReply c Null s1) else addReplyBulk c val s1);
     mget_loop c ks s2
   }"

definition mgetCommand :: "nat \<Rightarrow> bytes list \<Rightarrow> server \<Rightarrow> server option" where
  "mgetCommand c keys s = mget_loop c keys (addReply c (ArrayLen (length keys)) s)"

text \<open>Keys and values alternate in the argument list.\<close>

fun mset_exists :: "nat \<Rightarrow> bytes list \<Rightarrow> server \<Rightarrow> (server \<times> bool) option" where
  "mset_exists i (k # v # kvs) s = do {
     (s1, obj) \<leftarrow> lookupKeyWrite i k s;
     if obj \<noteq> None then Some (s1, True) else mset_exists i kvs s1
   }"
| "mset_exists i _ s = Some (s, False)"

fun mset_loop :: "nat \<Rightarrow> bytes list \<Rightarrow> server \<Rightarrow> server option" where
  "mset_loop i (k # v # kvs) s = do {
     val \<leftarrow> tryObjectEncoding (createStringObject v);
     s1 \<leftarrow> setKey i k val s;
     s2 \<leftarrow> notifyKeyspaceEvent NOTIFY_STRING ''set'' k i s1;
     mset_loop i kvs s2
   }"
| "mset_loop i _ s = Some s"

definition msetGenericCommand :: "nat \<Rightarrow> bytes list \<Rightarrow> bool \<Rightarrow> server \<Rightarrow> server option" where
  "msetGenericCommand c kvs nx s =
     (if odd (length kvs) then Some (addReply c (Error (bstr ''wrong number of arguments for MSET'')) s)
      else do {
        let i = cdb (clients s c);
        (s1, busy) \<leftarrow> (if nx then mset_exists i kvs s else Some (s, False));
        if busy then Some (addReply c Czero s1)
        else do {
          s2 \<leftarrow> mset_loop i kvs s1;
          Some (addReply c (if nx then Cone else Ok) (incr_dirty (int (length kvs div 2)) s2))
        }
      })"

subsection \<open>Counters\<close>

definition incrDecrCommand :: "nat \<Rightarrow> bytes \<Rightarrow> int \<Rightarrow> server \<Rightarrow> server option" where
  "incrDecrCommand c key incr s = do {
     let i = cdb (clients s c);
     (s1, obj) \<leftarrow> lookupKeyWrite i key s;
     let (s2, wrong) = (case obj of None \<Rightarrow> (s1, False) | Some val \<Rightarrow> checkType c val OBJ_STRING s1);
     if wrong then Some s2
     else do {
       (s3, v) \<leftarrow> getLongLongFromObjectOrReply c obj None s2;
       case v of
         None \<Rightarrow> Some s3
       | Some oldvalue \<Rightarrow>
           if (incr < 0 \<and> oldvalue < 0 \<and> incr < LLONG_MIN - oldvalue) \<or>
              (incr > 0 \<and> oldvalue > 0 \<and> incr > LLONG_MAX - oldvalue)
           then Some (addReply c (Error (bstr ''increment or decrement would overflow'')) s3)
           else do {
             let new = createStringObjectFromLongLong (wrap64 (oldvalue + incr));
             s4 \<leftarrow> (if obj = None then dbAdd i key new s3 else dbOverwrite i key new s3);
             let s5 = signalModifiedKey i key s4;
             s6 \<leftarrow> notifyKeyspaceEvent NOTIFY_STRING ''incrby'' key i s5;
             Some (addReply c (LongLong (wrap64 (oldvalue + incr))) (incr_dirty 1 s6))
           }
     }
   }"

definition incrbyCommand :: "nat \<Rightarrow> bytes \<Rightarrow> bytes \<Rightarrow> server \<Rightarrow> server option" where
  "incrbyCommand c key n s = do {
     (s1, v) \<leftarrow> getLongLongFromObjectOrReply c (Some (createStringObject n)) None s;
     case v of None \<Rightarrow> Some s1 | Some incr \<Rightarrow> incrDecrCommand c key incr s1
   }"

definition decrbyCommand :: "nat \<Rightarrow> bytes \<Rightarrow> bytes \<Rightarrow> server \<Rightarrow> server option" where
  "decrbyCommand c key n s = do {
     (s1, v) \<leftarrow> getLongLongFromObjectOrReply c (Some (createStringObject n)) None s;
     case v of None \<Rightarrow> Some s1 | Some incr \<Rightarrow> incrDecrCommand c key (wrap64 (- incr)) s1
   }"

subsection \<open>APPEND and STRLEN\<close>

definition append_finish :: "nat \<Rightarrow> nat \<Rightarrow> bytes \<Rightarrow> nat \<Rightarrow> server \<Rightarrow> server option" where
  "append_finish c i key totlen s = do {
     s1 \<leftarrow> notifyKeyspaceEvent NOTIFY_STRING ''append'' key i (signalModifiedKey i key s);
     Some (addReply c (LongLong (int totlen)) (incr_dirty 1 s1))
   }"

definition appendCommand :: "nat \<Rightarrow> bytes \<Rightarrow> bytes \<Rightarrow> server \<Rightarrow> server option" where
  "appendCommand c key app s = do {
     let i = cdb (clients s c);
     (s1, obj) \<leftarrow> lookupKeyWrite i key s;
     case obj of
       None \<Rightarrow> do {
         v \<leftarrow> tryObjectEncoding (createStringObject app);
         s2 \<leftarrow> dbAdd i key v s1;
         totlen \<leftarrow> stringObjectLen v;
         append_finish c i key totlen s2
       }
     | Some old \<Rightarrow>
         (let (s2, wrong) = checkType c old OBJ_STRING s1
          in if wrong then Some s2
             else do {
               n \<leftarrow> stringObjectLen old;
               let (s3, ok) = checkStringLength c (int (n + length app)) s2;
               if \<not> ok then Some s3
               else do {
                 (s4, b) \<leftarrow> dbUnshareStringValue i key old s3;
                 append_finish c i key (length (b @ app)) (set_raw i key (b @ app) s4)
               }
             })
   }"

definition strlenCommand :: "nat \<Rightarrow> bytes \<Rightarrow> server \<Rightarrow> server option" where
  "strlenCommand c key s = do {
     (s1, obj) \<leftarrow> lookupKeyReadOrReply c key Czero s;
     case obj of
       None \<Rightarrow> Some s1
     | Some val \<Rightarrow>
         (let (s2, wrong) = checkType c val OBJ_STRING s1
          in if wrong then Some s2
             else do { n \<leftarrow> stringObjectLen val; Some (addReply c (LongLong (int n)) s2) })
   }"

end
