(* ===== verification/Key_Commands.thy ===== *)
theory Key_Commands
  imports Strings
begin

unbundle bit_operations_syntax

text \<open>Commands on keys of any type (\<open>db.c\<close>) and the expiration commands (\<open>expire.c\<close>).\<close>

subsection \<open>Deleting and testing keys\<close>

fun del_loop :: "nat \<Rightarrow> bool \<Rightarrow> bytes list \<Rightarrow> server \<Rightarrow> (server \<times> nat) option" where
  "del_loop i lazy [] s = Some (s, 0)"
| "del_loop i lazy (k # ks) s = do {
     (s1, e) \<leftarrow> expireIfNeeded i k s;
     let (s2, deleted) = dbGenericDelete lazy i k s1;
     s3 \<leftarrow> (if deleted
            then map_option (incr_dirty 1) (notifyKeyspaceEvent NOTIFY_GENERIC ''del'' k i (signalModifiedKey i k s2))
            else Some s2);
     (s4, n) \<leftarrow> del_loop i lazy ks s3;
     Some (s4, (if deleted then 1 else 0) + n)
   }"

definition delGenericCommand :: "nat \<Rightarrow> bool \<Rightarrow> bytes list \<Rightarrow> server \<Rightarrow> server option" where
  "delGenericCommand c lazy keys s = do {
     (s1, numdel) \<leftarrow> del_loop (cdb (clients s c)) lazy keys s;
     Some (addReply c (LongLong (int numdel)) s1)
   }"

text \<open>The loop of EXISTS, which is also that of TOUCH.\<close>

fun exists_loop :: "nat \<Rightarrow> bytes list \<Rightarrow> server \<Rightarrow> (server \<times> nat) option" where
  "exists_loop i [] s = Some (s, 0)"
| "exists_loop i (k # ks) s = do {
     (s1, obj) \<leftarrow> lookupKeyRead i k s;
     (s2, n) \<leftarrow> exists_loop i ks s1;
     Some (s2, (if obj \<noteq> None then 1 else 0) + n)
   }"

definition existsCommand :: "nat \<Rightarrow> bytes list \<Rightarrow> server \<Rightarrow> server option" where
  "existsCommand c keys s = do {
     (s1, n) \<leftarrow> exists_loop (cdb (clients s c)) keys s;
     Some (addReply c (LongLong (int n)) s1)
   }"

definition touchCommand :: "nat \<Rightarrow> bytes list \<Rightarrow> server \<Rightarrow> server option" where
  "touchCommand c keys s = do {
     (s1, n) \<leftarrow> exists_loop (cdb (clients s c)) keys s;
     Some (addReply c (LongLong (int n)) s1)
   }"

fun getObjectTypeName :: "robj option \<Rightarrow> string" where
  "getObjectTypeName None = ''none''"
| "getObjectTypeName (Some (ListObj n)) = ''list''"
| "getObjectTypeName (Some (SetObj n)) = ''set''"
| "getObjectTypeName (Some (ZsetObj n)) = ''zset''"
| "getObjectTypeName (Some (HashObj n)) = ''hash''"
| "getObjectTypeName (Some (StreamObj n)) = ''stream''"
| "getObjectTypeName (Some (ModuleObj t n)) = t"
| "getObjectTypeName (Some str) = ''string''"

definition typeCommand :: "nat \<Rightarrow> bytes \<Rightarrow> server \<Rightarrow> server option" where
  "typeCommand c key s = do {
     (s1, obj) \<leftarrow> lookupKeyReadWithFlags (cdb (clients s c)) key s;
     Some (addReply c (Status (bstr (getObjectTypeName obj))) s1)
   }"

subsection \<open>Renaming and moving\<close>

definition renameGenericCommand :: "nat \<Rightarrow> bytes \<Rightarrow> bytes \<Rightarrow> bool \<Rightarrow> server \<Rightarrow> server option" where
  "renameGenericCommand c src dst nx s = do {
     let i = cdb (clients s c);
     (s1, obj) \<leftarrow> lookupKeyWriteOrReply c src NoKeyErr s;
     case obj of
       None \<Rightarrow> Some s1
     | Some val \<Rightarrow>
         if src = dst then Some (addReply c (if nx then Czero else Ok) s1)
         else do {
           expire \<leftarrow> getExpire i src s1;
           (s2, old) \<leftarrow> lookupKeyWrite i dst s1;
           if old \<noteq> None \<and> nx then Some (addReply c Czero s2)
           else do {
             let s3 = (if old \<noteq> None then fst (dbDelete i dst s2) else s2);
             s4 \<leftarrow> dbAdd i dst val s3;
             s5 \<leftarrow> (if expire \<noteq> -1 then setExpire c i dst expire s4 else Some s4);
             let s6 = fst (dbDelete i src s5);
             let s7 = signalModifiedKey i dst (signalModifiedKey i src s6);
             s8 \<leftarrow> notifyKeyspaceEvent NOTIFY_GENERIC ''rename_from'' src i s7;
             s9 \<leftarrow> notifyKeyspaceEvent NOTIFY_GENERIC ''rename_to'' dst i s8;
             Some (addReply c (if nx then Cone else Ok) (incr_dirty 1 s9))
           }
         }
   }"

definition moveCommand :: "nat \<Rightarrow> bytes \<Rightarrow> bytes \<Rightarrow> server \<Rightarrow> server option" where
  "moveCommand c key dbarg s = do {
     let src = cdb (clients s c);
     v \<leftarrow> getLongLongFromObject (Some (createStringObject dbarg));
     case (case v of None \<Rightarrow> None | Some dbid \<Rightarrow>
         if dbid < - (2 ^ 31) \<or> dbid > 2 ^ 31 - 1 then None else selectDb c dbid s) of
       None \<Rightarrow> Some (addReply c OutOfRangeErr s)
     | Some s1 \<Rightarrow> do {
         let dst = cdb (clients s1 c);
         s2 \<leftarrow> selectDb c (int src) s1;
         if src = dst then Some (addReply c SameObjectErr s2)
         else do {
           (s3, obj) \<leftarrow> lookupKeyWrite src key s2;
           case obj of
             None \<Rightarrow> Some (addReply c Czero s3)
           | Some val \<Rightarrow> do {
               expire \<leftarrow> getExpire src key s3;
               (s4, old) \<leftarrow> lookupKeyWrite dst key s3;
               if old \<noteq> None then Some (addReply c Czero s4)
               else do {
                 s5 \<leftarrow> dbAdd dst key val s4;
                 s6 \<leftarrow> (if expire \<noteq> -1 then setExpire c dst key expire s5 else Some s5);
                 let s7 = fst (dbDelete src key s6);
                 let s8 = signalModifiedKey dst key (signalModifiedKey src key s7);
                 s9 \<leftarrow> notifyKeyspaceEvent NOTIFY_GENERIC ''move_from'' key src s8;
                 s10 \<leftarrow> notifyKeyspaceEvent NOTIFY_GENERIC ''move_to'' key dst s9;
                 Some (addReply c Cone (incr_dirty 1 s10))
               }
             }
         }
       }
   }"

text \<open>\<open>selectDb\<close> takes an \<open>int\<close>, so that the \<open>long\<close> it is called with is cut.\<close>

definition selectCommand :: "nat \<Rightarrow> bytes \<Rightarrow> server \<Rightarrow> server option" where
  "selectCommand c arg s = do {
     (s1, v) \<leftarrow> getLongFromObjectOrReply c (Some (createStringObject arg)) (Some ''invalid DB index'') s;
     case v of
       None \<Rightarrow> Some s1
     | Some n \<Rightarrow> (case selectDb c (wrap32 n) s1 of
           None \<Rightarrow> Some (addReply c (Error (bstr ''DB index is out of range'')) s1)
         | Some s2 \<Rightarrow> Some (addReply c Ok s2))
   }"

text \<open>Releasing the memory at once or in the background makes no difference to the keyspace.\<close>

definition flushdbCommand :: "nat \<Rightarrow> bytes list \<Rightarrow> server \<Rightarrow> server option" where
  "flushdbCommand c args s =
     (if args \<noteq> [] \<and> (length args > 1 \<or> \<not> strcaseeq (hd args) ''async'') then Some (addReply c SyntaxErr s)
      else let (s1, removed) = emptyDb (int (cdb (clients s c))) s
        in Some (addReply c Ok (incr_dirty (case removed of None \<Rightarrow> -1 | Some n \<Rightarrow> int n) s1)))"

subsection \<open>Expire times\<close>

text \<open>
  \<open>rewriteClientCommandVector\<close>: the command that is propagated instead of the one received.  The
  entry of the new command in the command table is the last argument.
\<close>

definition rewriteClientCommandVector :: "nat \<Rightarrow> bytes list \<Rightarrow> redisCommand \<Rightarrow> server \<Rightarrow> server" where
  "rewriteClientCommandVector c args newcmd = upd_client c (\<lambda>cl. cl\<lparr>argv := args, cmd := newcmd\<rparr>)"

definition del_cmd :: redisCommand where
  "del_cmd = \<lparr>cname = ''del'', proc = p_delCommand, arity = -2, cflags = CMD_WRITE\<rparr>"

definition unlink_cmd :: redisCommand where
  "unlink_cmd = \<lparr>cname = ''unlink'', proc = p_unlinkCommand, arity = -2, cflags = CMD_WRITE\<rparr>"

definition expireGenericCommand :: "nat \<Rightarrow> bytes \<Rightarrow> bytes \<Rightarrow> int \<Rightarrow> time_unit \<Rightarrow> server \<Rightarrow> server option" where
  "expireGenericCommand c key param basetime unit s = do {
     let i = cdb (clients s c);
     (s1, v) \<leftarrow> getLongLongFromObjectOrReply c (Some (createStringObject param)) None s;
     case v of
       None \<Rightarrow> Some s1
     | Some n \<Rightarrow> do {
         let when = wrap64 (wrap64 (if unit = UNIT_SECONDS then n * 1000 else n) + basetime);
         (s2, obj) \<leftarrow> lookupKeyWrite i key s1;
         if obj = None then Some (addReply c Czero s2)
         else if when \<le> clock s2 \<and> \<not> loading s2 \<and> \<not> masterhost s2 then do {
           let lazy = lazyfree_lazy_expire s2;
           let (s3, deleted) = dbGenericDelete lazy i key s2;
           serverAssert deleted;
           let s4 = rewriteClientCommandVector c [bstr (if lazy then ''UNLINK'' else ''DEL''), key]
                      (if lazy then unlink_cmd else del_cmd) (incr_dirty 1 s3);
           s5 \<leftarrow> notifyKeyspaceEvent NOTIFY_GENERIC ''del'' key i (signalModifiedKey i key s4);
           Some (addReply c Cone s5)
         }
         else do {
           s3 \<leftarrow> setExpire c i key when s2;
           let s4 = signalModifiedKey i key (addReply c Cone s3);
           s5 \<leftarrow> notifyKeyspaceEvent NOTIFY_GENERIC ''expire'' key i s4;
           Some (incr_dirty 1 s5)
         }
       }
   }"

text \<open>Division of a \<open>long long\<close> that is not negative.\<close>

definition ttlGenericCommand :: "nat \<Rightarrow> bytes \<Rightarrow> bool \<Rightarrow> server \<Rightarrow> server option" where
  "ttlGenericCommand c key output_ms s = do {
     let i = cdb (clients s c);
     (s1, obj) \<leftarrow> lookupKeyReadWithFlags i key s;
     if obj = None then Some (addReply c (LongLong (-2)) s1)
     else do {
       expire \<leftarrow> getExpire i key s1;
       let ttl = (if expire \<noteq> -1 then let t = wrap64 (expire - clock s1) in if t < 0 then 0 else t else -1);
       if ttl = -1 then Some (addReply c (LongLong (-1)) s1)
       else Some (addReply c (LongLong (if output_ms then ttl else wrap64 (ttl + 500) div 1000)) s1)
     }
   }"

definition persistCommand :: "nat \<Rightarrow> bytes \<Rightarrow> server \<Rightarrow> server option" where
  "persistCommand c key s = do {
     let i = cdb (clients s c);
     (s1, obj) \<leftarrow> lookupKeyWrite i key s;
     if obj \<noteq> None then do {
       (s2, removed) \<leftarrow> removeExpire i key s1;
       if removed then do {
         s3 \<leftarrow> notifyKeyspaceEvent NOTIFY_GENERIC ''persist'' key i s2;
         Some (incr_dirty 1 (addReply c Cone s3))
       }
       else Some (addReply c Czero s2)
     }
     else Some (addReply c Czero s1)
   }"

end
