(* ===== verification/Multi.thy ===== *)
theory Multi
  imports Key_Commands
begin

unbundle bit_operations_syntax

text \<open>
  Transactions (\<open>multi.c\<close>) and the execution of commands (\<open>call\<close> and \<open>processCommand\<close> in
  \<open>server.c\<close>), for the commands of the table below.
\<close>

subsection \<open>The command table\<close>

definition command :: "string \<Rightarrow> proc \<Rightarrow> int \<Rightarrow> u64 \<Rightarrow> redisCommand" where
  "command n p a f = \<lparr>cname = n, proc = p, arity = a, cflags = f\<rparr>"

definition table_strings :: "redisCommand list" where
  "table_strings =
     [command ''get'' p_getCommand 2 CMD_READONLY,
      command ''set'' p_setCommand (-3) CMD_WRITE,
      command ''setnx'' p_setnxCommand 3 CMD_WRITE,
      command ''setex'' p_setexCommand 4 CMD_WRITE,
      command ''psetex'' p_psetexCommand 4 CMD_WRITE,
      command ''append'' p_appendCommand 3 CMD_WRITE,
      command ''strlen'' p_strlenCommand 2 CMD_READONLY,
      command ''del'' p_delCommand (-2) CMD_WRITE,
      command ''unlink'' p_unlinkCommand (-2) CMD_WRITE,
      command ''exists'' p_existsCommand (-2) CMD_READONLY]"

definition table_ranges :: "redisCommand list" where
  "table_ranges =
     [command ''setrange'' p_setrangeCommand 4 CMD_WRITE,
      command ''getrange'' p_getrangeCommand 4 CMD_READONLY,
      command ''substr'' p_getrangeCommand 4 CMD_READONLY,
      command ''incr'' p_incrCommand 2 CMD_WRITE,
      command ''decr'' p_decrCommand 2 CMD_WRITE,
      command ''mget'' p_mgetCommand (-2) CMD_READONLY]"

definition table_incrby :: "redisCommand list" where
  "table_incrby =
     [command ''incrby'' p_incrbyCommand 3 CMD_WRITE,
      command ''decrby'' p_decrbyCommand 3 CMD_WRITE]"

definition table_mset :: "redisCommand list" where
  "table_mset =
     [command ''getset'' p_getsetCommand 3 CMD_WRITE,
      command ''mset'' p_msetCommand (-3) CMD_WRITE,
      command ''msetnx'' p_msetnxCommand (-3) CMD_WRITE]"

definition table_select :: "redisCommand list" where
  "table_select = [command ''select'' p_selectCommand 2 (CMD_LOADING OR CMD_STALE)]"

definition table_keys :: "redisCommand list" where
  "table_keys =
     [command ''move'' p_moveCommand 3 CMD_WRITE,
      command ''rename'' p_renameCommand 3 CMD_WRITE,
      command ''renamenx'' p_renamenxCommand 3 CMD_WRITE,
      command ''expire'' p_expireCommand 3 CMD_WRITE,
      command ''expireat'' p_expireatCommand 3 CMD_WRITE,
      command ''pexpire'' p_pexpireCommand 3 CMD_WRITE,
      command ''pexpireat'' p_pexpireatCommand 3 CMD_WRITE]"

definition table_multi :: "redisCommand list" where
  "table_multi =
     [command ''type'' p_typeCommand 2 CMD_READONLY,
      command ''multi'' p_multiCommand 1 (CMD_LOADING OR CMD_STALE),
      command ''exec'' p_execCommand 1 (CMD_LOADING OR CMD_STALE),
      command ''discard'' p_discardCommand 1 (CMD_LOADING OR CMD_STALE)]"

definition table_flush :: "redisCommand list" where
  "table_flush = [command ''flushdb'' p_flushdbCommand (-1) CMD_WRITE]"

definition table_ttl :: "redisCommand list" where
  "table_ttl =
     [command ''ttl'' p_ttlCommand 2 CMD_READONLY,
      command ''touch'' p_touchCommand (-2) CMD_READONLY,
      command ''pttl'' p_pttlCommand 2 CMD_READONLY,
      command ''persist'' p_persistCommand 2 CMD_WRITE]"

definition table_pubsub :: "redisCommand list" where
  "table_pubsub =
     [command ''subscribe'' p_subscribeCommand (-2) (CMD_LOADING OR CMD_STALE),
      command ''unsubscribe'' p_unsubscribeCommand (-1) (CMD_LOADING OR CMD_STALE),
      command ''psubscribe'' p_psubscribeCommand (-2) (CMD_LOADING OR CMD_STALE),
      command ''punsubscribe'' p_punsubscribeCommand (-1) (CMD_LOADING OR CMD_STALE),
      command ''publish'' p_publishCommand 3 (CMD_LOADING OR CMD_STALE)]"

definition table_watch :: "redisCommand list" where
  "table_watch =
     [command ''watch'' p_watchCommand (-2) 0,
      command ''unwatch'' p_unwatchCommand 1 0]"

definition redisCommandTable :: "redisCommand list" where
  "redisCommandTable = table_strings @ table_ranges @ table_incrby @ table_mset @ table_select @ table_keys @
     table_multi @ table_flush @ table_ttl @ table_pubsub @ table_watch"

text \<open>The hash table of commands compares names without regard to case.\<close>

definition lookupCommand :: "bytes \<Rightarrow> redisCommand option" where
  "lookupCommand name = List.find (\<lambda>cm. map lower name = map lower (bstr (cname cm))) redisCommandTable"

subsection \<open>Transactions\<close>

definition initClientMultiState :: "client \<Rightarrow> client" where
  "initClientMultiState cl = cl\<lparr>mcommands := [], mcmd_flags := 0\<rparr>"

definition queueMultiCommand :: "nat \<Rightarrow> server \<Rightarrow> server" where
  "queueMultiCommand c = upd_client c (\<lambda>cl. cl\<lparr>
     mcommands := mcommands cl @ [\<lparr>mc_cmd = cmd cl, mc_argv = argv cl\<rparr>],
     mcmd_flags := mcmd_flags cl OR cflags (cmd cl)\<rparr>)"

definition discardTransaction :: "nat \<Rightarrow> server \<Rightarrow> server option" where
  "discardTransaction c s =
     unwatchAllKeys c (clear_flags c (CLIENT_MULTI OR CLIENT_DIRTY_CAS OR CLIENT_DIRTY_EXEC)
       (upd_client c initClientMultiState s))"

definition flagTransaction :: "nat \<Rightarrow> server \<Rightarrow> server" where
  "flagTransaction c s =
     (if has_flag (flags (clients s c)) CLIENT_MULTI then set_flags c CLIENT_DIRTY_EXEC s else s)"

definition multiCommand :: "nat \<Rightarrow> server \<Rightarrow> server" where
  "multiCommand c s =
     (if has_flag (flags (clients s c)) CLIENT_MULTI
      then addReply c (Error (bstr ''MULTI calls can not be nested'')) s
      else addReply c Ok (set_flags c CLIENT_MULTI s))"

definition discardCommand :: "nat \<Rightarrow> server \<Rightarrow> server option" where
  "discardCommand c s =
     (if \<not> has_flag (flags (clients s c)) CLIENT_MULTI
      then Some (addReply c (Error (bstr ''DISCARD without MULTI'')) s)
      else map_option (addReply c Ok) (discardTransaction c s))"

definition watchCommand :: "nat \<Rightarrow> bytes list \<Rightarrow> server \<Rightarrow> server" where
  "watchCommand c keys s =
     (if has_flag (flags (clients s c)) CLIENT_MULTI
      then addReply c (Error (bstr ''WATCH inside MULTI is not allowed'')) s
      else addReply c Ok (watch_loop c keys s))"

definition unwatchCommand :: "nat \<Rightarrow> server \<Rightarrow> server option" where
  "unwatchCommand c s = map_option (\<lambda>s1. addReply c Ok (clear_flags c CLIENT_DIRTY_CAS s1)) (unwatchAllKeys c s)"

subsection \<open>Calling a command\<close>

text \<open>
  The implementation of a command that is not EXEC, on the arguments of the client.  The arity
  check of \<open>processCommand\<close> makes the patterns match.
\<close>

definition basic_proc :: "nat \<Rightarrow> server \<Rightarrow> server option" where
  "basic_proc c s = (case (proc (cmd (clients s c)), tl (argv (clients s c))) of
      (p_getCommand, [k]) \<Rightarrow> getCommand c k s
    | (p_setCommand, k # v # opts) \<Rightarrow> setCommand c k v opts s
    | (p_setnxCommand, [k, v]) \<Rightarrow> setnxCommand c k v s
    | (p_setexCommand, [k, t, v]) \<Rightarrow> setexCommand c k t v s
    | (p_psetexCommand, [k, t, v]) \<Rightarrow> psetexCommand c k t v s
    | (p_appendCommand, [k, v]) \<Rightarrow> appendCommand c k v s
    | (p_strlenCommand, [k]) \<Rightarrow> strlenCommand c k s
    | (p_delCommand, ks) \<Rightarrow> delGenericCommand c (lazyfree_lazy_user_del s) ks s
    | (p_unlinkCommand, ks) \<Rightarrow> delGenericCommand c True ks s
    | (p_existsCommand, ks) \<Rightarrow> existsCommand c ks s
    | (p_setrangeCommand, [k, n, v]) \<Rightarrow> setrangeCommand c k n v s
    | (p_getrangeCommand, [k, a, b]) \<Rightarrow> getrangeCommand c k a b s
    | (p_incrCommand, [k]) \<Rightarrow> incrDecrCommand c k 1 s
    | (p_decrCommand, [k]) \<Rightarrow> incrDecrCommand c k (-1) s
    | (p_mgetCommand, ks) \<Rightarrow> mgetCommand c ks s
    | (p_incrbyCommand, [k, n]) \<Rightarrow> incrbyCommand c k n s
    | (p_decrbyCommand, [k, n]) \<Rightarrow> decrbyCommand c k n s
    | (p_getsetCommand, [k, v]) \<Rightarrow> getsetCommand c k v s
    | (p_msetCommand, kvs) \<Rightarrow> msetGenericCommand c kvs False s
    | (p_msetnxCommand, kvs) \<Rightarrow> msetGenericCommand c kvs True s
    | (p_selectCommand, [n]) \<Rightarrow> selectCommand c n s
    | (p_moveCommand, [k, n]) \<Rightarrow> moveCommand c k n s
    | (p_renameCommand, [a, b]) \<Rightarrow> renameGenericCommand c a b False s
    | (p_renamenxCommand, [a, b]) \<Rightarrow> renameGenericCommand c a b True s
    | (p_expireCommand, [k, t]) \<Rightarrow> expireGenericCommand c k t (clock s) UNIT_SECONDS s
    | (p_expireatCommand, [k, t]) \<Rightarrow> expireGenericCommand c k t 0 UNIT_SECONDS s
    | (p_pexpireCommand, [k, t]) \<Rightarrow> expireGenericCommand c k t (clock s) UNIT_MILLISECONDS s
    | (p_pexpireatCommand, [k, t]) \<Rightarrow> expireGenericCommand c k t 0 UNIT_MILLISECONDS s
    | (p_typeCommand, [k]) \<Rightarrow> typeCommand c k s
    | (p_multiCommand, _) \<Rightarrow> Some (multiCommand c s)
    | (p_discardCommand, _) \<Rightarrow> discardCommand c s
    | (p_flushdbCommand, args) \<Rightarrow> flushdbCommand c args s
    | (p_ttlCommand, [k]) \<Rightarrow> ttlGenericCommand c k False s
    | (p_touchCommand, ks) \<Rightarrow> touchCommand c ks s
    | (p_pttlCommand, [k]) \<Rightarrow> ttlGenericCommand c k True s
    | (p_persistCommand, [k]) \<Rightarrow> persistCommand c k s
    | (p_subscribeCommand, _) \<Rightarrow> Some (subscribeCommand c s)
    | (p_unsubscribeCommand, _) \<Rightarrow> unsubscribeCommand c s
    | (p_psubscribeCommand, _) \<Rightarrow> Some (psubscribeCommand c s)
    | (p_punsubscribeCommand, _) \<Rightarrow> punsubscribeCommand c s
    | (p_publishCommand, [ch, m]) \<Rightarrow> Some (publishCommand c ch m s)
    | (p_watchCommand, ks) \<Rightarrow> Some (watchCommand c ks s)
    | (p_unwatchCommand, _) \<Rightarrow> unwatchCommand c s
    | _ \<Rightarrow> None)"

definition propagation_flags :: u64 where
  "propagation_flags = CLIENT_FORCE_AOF OR CLIENT_FORCE_REPL OR CLIENT_PREVENT_PROP"

text \<open>
  \<open>call\<close> with the implementation of the command as an argument; \<open>full\<close> is whether it may
  propagate (\<open>CMD_CALL_FULL\<close> or \<open>CMD_CALL_NONE\<close>).  Monitors, the slow log and the statistics of
  commands are left out, and no modelled command uses \<open>alsoPropagate\<close> or prevents propagation.
\<close>

definition call_with :: "(nat \<Rightarrow> server \<Rightarrow> server option) \<Rightarrow> nat \<Rightarrow> bool \<Rightarrow> server \<Rightarrow> server option" where
  "call_with run c full s = do {
     let old = flags (clients s c);
     let s1 = (clear_flags c propagation_flags s)\<lparr>mstime := clock s\<rparr>;
     s2 \<leftarrow> run c s1;
     let cl = clients s2 c;
     let fl = (if dirty s2 - dirty s1 > 0 then PROPAGATE_AOF OR PROPAGATE_REPL else 0) OR
              (if has_flag (flags cl) CLIENT_FORCE_REPL then PROPAGATE_REPL else 0) OR
              (if has_flag (flags cl) CLIENT_FORCE_AOF then PROPAGATE_AOF else 0);
     let s3 = (if full then propagate (cdb cl) (argv cl) fl s2 else s2);
     let s4 = set_flags c (old AND propagation_flags) (clear_flags c propagation_flags s3);
     Some (s4\<lparr>stat_numcommands := stat_numcommands s4 + 1\<rparr>)
   }"

text \<open>The queued commands in order; the argument \<open>must\<close> is whether MULTI was propagated already.\<close>

fun exec_loop :: "nat \<Rightarrow> multiCmd list \<Rightarrow> bool \<Rightarrow> server \<Rightarrow> (server \<times> bool) option" where
  "exec_loop c [] must s = Some (s, must)"
| "exec_loop c (m # ms) must s = do {
     let s1 = upd_client c (\<lambda>cl. cl\<lparr>argv := mc_argv m, cmd := mc_cmd m\<rparr>) s;
     let now = \<not> must \<and> \<not> has_flag (cflags (mc_cmd m)) (CMD_READONLY OR CMD_ADMIN);
     let s2 = (if now then propagate (cdb (clients s1 c)) [bstr ''MULTI''] (PROPAGATE_AOF OR PROPAGATE_REPL) s1 else s1);
     s3 \<leftarrow> call_with basic_proc c (\<not> loading s2) s2;
     exec_loop c ms (must \<or> now) s3
   }"

definition execCommand :: "nat \<Rightarrow> server \<Rightarrow> server option" where
  "execCommand c s =
     (let cl = clients s c
      in if \<not> has_flag (flags cl) CLIENT_MULTI
         then Some (addReply c (Error (bstr ''EXEC without MULTI'')) s)
         else if has_flag (flags cl) (CLIENT_DIRTY_CAS OR CLIENT_DIRTY_EXEC)
         then discardTransaction c
           (addReply c (if has_flag (flags cl) CLIENT_DIRTY_EXEC then ExecAbortErr else NullArray) s)
         else if \<not> loading s \<and> masterhost s \<and> repl_slave_ro s \<and> \<not> has_flag (flags cl) CLIENT_MASTER \<and>
              has_flag (mcmd_flags cl) CMD_WRITE
         then discardTransaction c (addReply c (Error (bstr (
           ''Transaction contains write commands but instance is now a read-only replica. EXEC aborted.''))) s)
         else do {
           s1 \<leftarrow> unwatchAllKeys c s;
           let s2 = addReply c (ArrayLen (length (mcommands cl))) s1;
           (s3, must) \<leftarrow> exec_loop c (mcommands cl) False s2;
           let s4 = upd_client c (\<lambda>x. x\<lparr>argv := argv cl, cmd := cmd cl\<rparr>) s3;
           s5 \<leftarrow> discardTransaction c s4;
           Some (if must then incr_dirty 1 s5 else s5)
         })"

definition command_proc :: "nat \<Rightarrow> server \<Rightarrow> server option" where
  "command_proc c s = (if proc (cmd (clients s c)) = p_execCommand then execCommand c s else basic_proc c s)"

definition call :: "nat \<Rightarrow> bool \<Rightarrow> server \<Rightarrow> server option" where
  "call c full s = call_with command_proc c full s"

subsection \<open>Processing a request\<close>

text \<open>
  The checks of \<open>processCommand\<close> in order: the name and the arity of the command, writes without
  enough good replicas, writes to a read-only replica, stale data and loading; a reply here ends
  the processing.  The second component is whether the transaction is flagged.
\<close>

definition arity_error :: "redisCommand \<Rightarrow> nat \<Rightarrow> bool" where
  "arity_error cm argc \<longleftrightarrow> (arity cm > 0 \<and> arity cm \<noteq> int argc) \<or> int argc < - arity cm"

definition write_denied :: "nat \<Rightarrow> redisCommand \<Rightarrow> server \<Rightarrow> (reply \<times> bool) option" where
  "write_denied c cm s =
     (if \<not> masterhost s \<and> min_slaves_to_write s \<noteq> 0 \<and> min_slaves_max_lag s \<noteq> 0 \<and>
         has_flag (cflags cm) CMD_WRITE \<and> good_slaves_count s < min_slaves_to_write s
      then Some (NoReplicasErr, True)
      else if masterhost s \<and> repl_slave_ro s \<and> \<not> has_flag (flags (clients s c)) CLIENT_MASTER \<and>
         has_flag (cflags cm) CMD_WRITE
      then Some (RoSlaveErr, True)
      else None)"

definition pubsub_denied :: "nat \<Rightarrow> redisCommand \<Rightarrow> server \<Rightarrow> (reply \<times> bool) option" where
  "pubsub_denied c cm s =
     (if has_flag (flags (clients s c)) CLIENT_PUBSUB \<and> resp (clients s c) = 2 \<and>
         proc cm \<notin> {p_subscribeCommand, p_unsubscribeCommand, p_psubscribeCommand, p_punsubscribeCommand}
      then Some (Error (bstr (''Can't execute '' @ [CHR 0x27] @ cname cm @ [CHR 0x27] @
        '': only (P)SUBSCRIBE / (P)UNSUBSCRIBE / PING / QUIT are allowed in this context'')), False)
      else None)"

definition state_denied :: "redisCommand \<Rightarrow> server \<Rightarrow> (reply \<times> bool) option" where
  "state_denied cm s =
     (if masterhost s \<and> \<not> master_link_up s \<and> \<not> repl_serve_stale_data s \<and> \<not> has_flag (cflags cm) CMD_STALE
      then Some (MasterDownErr, True)
      else if loading s \<and> \<not> has_flag (cflags cm) CMD_LOADING then Some (LoadingErr, False)
      else None)"

definition denied :: "nat \<Rightarrow> redisCommand \<Rightarrow> server \<Rightarrow> (reply \<times> bool) option" where
  "denied c cm s = (case write_denied c cm s of
      Some r \<Rightarrow> Some r
    | None \<Rightarrow> (case pubsub_denied c cm s of Some r \<Rightarrow> Some r | None \<Rightarrow> state_denied cm s))"

definition reject :: "nat \<Rightarrow> reply \<times> bool \<Rightarrow> server \<Rightarrow> server" where
  "reject c r s = addReply c (fst r) (if snd r then flagTransaction c s else s)"

definition queue_or_call :: "nat \<Rightarrow> redisCommand \<Rightarrow> server \<Rightarrow> server option" where
  "queue_or_call c cm s =
     (if has_flag (flags (clients s c)) CLIENT_MULTI \<and>
         proc cm \<notin> {p_execCommand, p_discardCommand, p_multiCommand, p_watchCommand}
      then Some (addReply c Queued (queueMultiCommand c s))
      else call c True s)"

fun quote_args :: "bytes list \<Rightarrow> bytes \<Rightarrow> bytes" where
  "quote_args [] acc = acc"
| "quote_args (a # as) acc =
     (if length acc < 128
      then quote_args as (acc @ bstr ''`'' @ take (128 - length acc) (cstr a) @ bstr ''`, '') else acc)"

definition unknown_command :: "bytes list \<Rightarrow> reply" where
  "unknown_command args = Error (bstr ''unknown command `'' @ cstr (hd args) @
     bstr ''`, with args beginning with: '' @ quote_args (tl args) [])"

definition arity_reply :: "redisCommand \<Rightarrow> reply" where
  "arity_reply cm = Error (bstr (''wrong number of arguments for '' @ [CHR 0x27] @ cname cm @ [CHR 0x27] @ '' command''))"

text \<open>
  A request of the client \<open>c\<close> with a non-empty argument list.  Authentication, access control,
  cluster redirection, the memory limit and disk errors are left out: the default user may do
  everything and there is neither a limit nor an error.
\<close>

definition processCommand :: "nat \<Rightarrow> bytes list \<Rightarrow> server \<Rightarrow> server option" where
  "processCommand c args s0 =
     (let s = (upd_client c (\<lambda>cl. cl\<lparr>argv := args\<rparr>) s0)\<lparr>current_client := Some c\<rparr>
      in if strcaseeq (hd args) ''quit'' then
           Some (set_flags c CLIENT_CLOSE_AFTER_REPLY (addReply c Ok s))
         else case lookupCommand (hd args) of
             None \<Rightarrow> Some (reject c (unknown_command args, True) s)
           | Some cm \<Rightarrow>
               let s1 = upd_client c (\<lambda>cl. cl\<lparr>cmd := cm\<rparr>) s
               in if arity_error cm (length args)
                  then Some (reject c (arity_reply cm, True) s1)
                  else (case denied c cm s1 of
                      Some r \<Rightarrow> Some (reject c r s1)
                    | None \<Rightarrow> queue_or_call c cm s1))"

end
