(* ===== verification/Server_Frame.thy ===== *)
theory Server_Frame
  imports Multi
begin

unbundle bit_operations_syntax

text \<open>
  Invariants of the server state, and that no command fails an assertion.  The commands on the
  keyspace are analysed with the relation \<open>step\<close> between the state before and after: it says
  which parts of the state stay as they are and that a watched key is never changed without
  marking the clients that watch it.
\<close>

subsection \<open>Weakest preconditions of fallible functions\<close>

definition wp :: "'a option \<Rightarrow> ('a \<Rightarrow> bool) \<Rightarrow> bool" where
  "wp m Q \<longleftrightarrow> (case m of None \<Rightarrow> False | Some x \<Rightarrow> Q x)"

lemma wp_simps [simp]:
  "wp (Some x) Q \<longleftrightarrow> Q x" "\<not> wp None Q" "wp (serverAssert b) P \<longleftrightarrow> b \<and> P ()"
  by (simp_all add: wp_def serverAssert_def)

lemma wp_iff: "wp m Q \<longleftrightarrow> (\<exists>x. m = Some x \<and> Q x)"
  by (cases m) simp_all

lemma wp_bind [simp]: "wp (m \<bind> f) Q \<longleftrightarrow> wp m (\<lambda>x. wp (f x) Q)"
  by (cases m) simp_all

lemma wp_map [simp]: "wp (map_option f m) Q \<longleftrightarrow> wp m (\<lambda>x. Q (f x))"
  by (cases m) simp_all

lemma wp_mono: "wp m P \<Longrightarrow> (\<And>x. P x \<Longrightarrow> Q x) \<Longrightarrow> wp m Q"
  by (cases m) simp_all

subsection \<open>Flags\<close>

lemma bit_u64: "bit (f :: u64) n \<Longrightarrow> n < 64"
  using bit_imp_le_length [of f n] by simp

lemma has_flag_iff: "has_flag f m \<longleftrightarrow> (\<exists>n. bit f n \<and> bit m n)"
  by (auto simp: has_flag_def bit_eq_iff bit_and_iff intro: bit_u64)

lemma has_flag_or [simp]:
  "has_flag f (m OR m') \<longleftrightarrow> has_flag f m \<or> has_flag f m'"
  "has_flag (f OR g) m \<longleftrightarrow> has_flag f m \<or> has_flag g m"
  by (auto simp: has_flag_iff bit_or_iff)

lemma has_flag_0 [simp]: "\<not> has_flag 0 m" "\<not> has_flag f 0"
  by (simp_all add: has_flag_iff)

lemma has_flag_clear: "has_flag (f AND NOT m) m' \<longleftrightarrow> (\<exists>n. bit f n \<and> \<not> bit m n \<and> bit m' n)"
  by (auto simp: has_flag_iff bit_and_iff bit_not_iff intro: bit_u64)

lemma bit_push_1: "bit (push_bit k 1 :: u64) n \<longleftrightarrow> n = k \<and> k < 64"
  by (auto simp: bit_exp_iff)

lemmas flag_simps = has_flag_iff bit_push_1 bit_or_iff bit_and_iff bit_not_iff client_flags

lemma flags_distinct [simp]:
  "\<not> has_flag CLIENT_DIRTY_CAS CLIENT_MULTI" "\<not> has_flag CLIENT_DIRTY_CAS CLIENT_DIRTY_EXEC"
  "\<not> has_flag CLIENT_DIRTY_CAS CLIENT_MASTER" "\<not> has_flag CLIENT_DIRTY_CAS CLIENT_PUBSUB"
  "\<not> has_flag CLIENT_DIRTY_EXEC CLIENT_DIRTY_CAS" "\<not> has_flag CLIENT_MULTI CLIENT_DIRTY_CAS"
  "has_flag CLIENT_DIRTY_CAS CLIENT_DIRTY_CAS"
  unfolding flag_simps by auto

subsection \<open>The frame of the commands on the keyspace\<close>

text \<open>What such a command leaves alone in a client, and in the server.\<close>

definition client_part :: "client \<Rightarrow> nat \<times> nat \<times> (nat \<times> bytes) list \<times> multiCmd list \<times> u64 \<times> bytes list \<times> bytes list" where
  "client_part cl = (cdb cl, resp cl, watched cl, mcommands cl, mcmd_flags cl, sub_channels cl, sub_patterns cl)"

definition server_part :: "server \<Rightarrow> nat \<times> nat list \<times> nat option \<times> bool \<times> bool \<times> int \<times> int \<times> u64 \<times> (bytes \<times> nat list) list \<times> (nat \<times> bytes) list \<times> (bytes \<times> nat list) list" where
  "server_part s = (dbnum s, client_list s, current_client s, masterhost s, loading s, mstime s, clock s,
     notify_keyspace_events s, pubsub_channels s, pubsub_patterns s, pubsub_patterns_dict s)"

definition entry :: "server \<Rightarrow> nat \<Rightarrow> bytes \<Rightarrow> robj option \<times> int option" where
  "entry s i k = (map_of (kv (db s i)) k, expires (db s i) k)"

abbreviation dirty_cas :: "client \<Rightarrow> bool" where
  "dirty_cas cl \<equiv> has_flag (flags cl) CLIENT_DIRTY_CAS"

definition watchers :: "server \<Rightarrow> nat \<Rightarrow> bytes \<Rightarrow> nat set" where
  "watchers s i k = (case wkeys (db s i) k of None \<Rightarrow> {} | Some cs \<Rightarrow> set cs)"

text \<open>The keys in \<open>K\<close> may have been changed without notice so far.\<close>

definition step :: "(nat \<times> bytes) set \<Rightarrow> server \<Rightarrow> server \<Rightarrow> bool" where
  "step K s s' \<longleftrightarrow> server_part s' = server_part s \<and>
     (\<forall>i. wkeys (db s' i) = wkeys (db s i)) \<and>
     (\<forall>c. client_part (clients s' c) = client_part (clients s c)) \<and>
     (\<forall>c. flags (clients s' c) \<in> {flags (clients s c), flags (clients s c) OR CLIENT_DIRTY_CAS}) \<and>
     (\<forall>i k c. (i, k) \<notin> K \<longrightarrow> entry s' i k \<noteq> entry s i k \<longrightarrow> c \<in> watchers s i k \<longrightarrow> dirty_cas (clients s' c))"

lemma step_refl [simp]: "step K s s"
  by (simp add: step_def)

lemma step_dirty:
  "step K s s' \<Longrightarrow> (i, k) \<notin> K \<Longrightarrow> entry s' i k \<noteq> entry s i k \<Longrightarrow> c \<in> watchers s i k \<Longrightarrow> dirty_cas (clients s' c)"
  unfolding step_def by blast

lemma or_dirty_twice: "(x OR CLIENT_DIRTY_CAS) OR CLIENT_DIRTY_CAS = x OR CLIENT_DIRTY_CAS" for x :: u64
  by (simp add: or.assoc)

lemma step_trans:
  assumes "step K s s'" "step K' s' s''"
  shows "step (K \<union> K') s s''"
proof -
  have fl: "flags (clients s'' c) \<in> {flags (clients s c), flags (clients s c) OR CLIENT_DIRTY_CAS}" for c
    using assms by (simp add: step_def) (metis or_dirty_twice)
  have mono: "dirty_cas (clients s' c) \<Longrightarrow> dirty_cas (clients s'' c)" for c
    using assms(2) by (simp add: step_def) (metis has_flag_or(2))
  have w: "watchers s' i k = watchers s i k" for i k
    using assms(1) by (simp add: step_def watchers_def)
  have "dirty_cas (clients s'' c)"
    if "(i, k) \<notin> K \<union> K'" "entry s'' i k \<noteq> entry s i k" "c \<in> watchers s i k" for i k c
  proof (cases "entry s' i k = entry s i k")
    case True
    then show ?thesis using that step_dirty [OF assms(2), of i k c] w by simp
  next
    case False
    then show ?thesis using that step_dirty [OF assms(1), of i k c] mono by simp
  qed
  then show ?thesis using assms fl by (simp add: step_def)
qed

text \<open>
  Well-formed databases: hash tables have distinct keys, only existing keys have an expire time, and
  an integer encoding holds a \<open>long\<close>.
\<close>

fun obj_ok :: "robj \<Rightarrow> bool" where
  "obj_ok (StrInt v) = int64 v"
| "obj_ok _ = True"

definition ent_ok :: "robj option \<times> int option \<Rightarrow> bool" where
  "ent_ok e \<longleftrightarrow> (snd e \<noteq> None \<longrightarrow> fst e \<noteq> None) \<and> (\<forall>v. fst e = Some v \<longrightarrow> obj_ok v)"

definition db_ok :: "server \<Rightarrow> bool" where
  "db_ok s \<longleftrightarrow> (\<forall>i. distinct (map fst (kv (db s i)))) \<and> (\<forall>i k. ent_ok (entry s i k))"

lemma db_ok_ent: "db_ok s \<Longrightarrow> ent_ok (entry s i k)"
  by (simp add: db_ok_def)

text \<open>A step that leaves all databases and all replies but those of subscriptions alone.\<close>

definition np :: "server \<Rightarrow> nat \<Rightarrow> reply list" where
  "np s c = filter (\<lambda>r. \<not> is_pub r) (reply (clients s c))"

definition quiet :: "server \<Rightarrow> server \<Rightarrow> bool" where
  "quiet s s' \<longleftrightarrow> step {} s s' \<and> db s' = db s \<and> np s' = np s \<and> dirty s' = dirty s"

lemma quiet_refl [simp]: "quiet s s"
  by (simp add: quiet_def)

lemma quiet_trans: "quiet s s' \<Longrightarrow> quiet s' s'' \<Longrightarrow> quiet s s''"
  using step_trans [of "{}" s s' "{}" s''] by (simp add: quiet_def)

lemma quiet_same:
  assumes "db s' = db s" "server_part s' = server_part s" "\<And>c. client_part (clients s' c) = client_part (clients s c)"
    "\<And>c. flags (clients s' c) = flags (clients s c)" "np s' = np s" "dirty s' = dirty s"
  shows "quiet s s'"
  using assms by (simp add: quiet_def step_def entry_def)

lemma quiet_pub_reply: "quiet s (pub_reply c items s)"
  by (rule quiet_same)
    (auto simp: pub_reply_def addReply_def upd_client_def server_part_def client_part_def np_def is_pub_def fun_eq_iff)

lemma quiet_send_message: "quiet s (send_message cs ch m s)"
proof (induction cs arbitrary: s)
  case (Cons c cs)
  then show ?case unfolding send_message.simps addReplyPubsubMessage_def by (rule quiet_trans [OF quiet_pub_reply])
qed simp

lemma quiet_send_pmessage: "quiet s (send_pmessage cs p ch m s)"
proof (induction cs arbitrary: s)
  case (Cons c cs)
  then show ?case unfolding send_pmessage.simps addReplyPubsubPatMessage_def by (rule quiet_trans [OF quiet_pub_reply])
qed simp

lemma quiet_publish_patterns: "quiet s (fst (publish_patterns ps ch m s))"
proof (induction ps arbitrary: s)
  case (Cons p ps)
  then show ?case
    by (cases p) (auto simp: split_beta intro: quiet_trans [OF quiet_send_pmessage])
qed simp

lemma quiet_publish: "quiet s (fst (pubsubPublishMessage ch m s))"
  by (auto simp: pubsubPublishMessage_def split_beta split: option.split
      intro: quiet_publish_patterns quiet_trans [OF quiet_send_message quiet_publish_patterns])

lemma dbid_string_Some: "\<exists>n. dbid_string i = Some n"
  using ll2string_writes [of "int i" 24 "replicate 24 0"] ll2string_too_short [of 24 "int i" "replicate 24 0"]
  by (cases "length (int_dec (int i)) < 24") (simp_all add: dbid_string_def)

lemma notify_quiet: "wp (notifyKeyspaceEvent t e k i s) (quiet s)"
proof -
  obtain n where n: "dbid_string i = Some n" using dbid_string_Some by blast
  show ?thesis
    by (auto simp: notifyKeyspaceEvent_def n Let_def intro: quiet_publish quiet_trans [OF quiet_publish quiet_publish])
qed

text \<open>Marking the watching clients.\<close>

lemma mark_dirty_clients:
  "clients (mark_dirty cs s) c = (if c \<in> set cs then (clients s c)\<lparr>flags := flags (clients s c) OR CLIENT_DIRTY_CAS\<rparr> else clients s c)"
  by (induction cs arbitrary: s) (auto simp: set_flags_def or_dirty_twice)

lemma mark_dirty_other: "db (mark_dirty cs s) = db s" "server_part (mark_dirty cs s) = server_part s"
  "dirty (mark_dirty cs s) = dirty s" "np (mark_dirty cs s) = np s"
  by (induction cs arbitrary: s) (auto simp: set_flags_def upd_client_def server_part_def np_def fun_eq_iff)

lemma touch_other: "db (touchWatchedKey i k s) = db s" "server_part (touchWatchedKey i k s) = server_part s"
  "dirty (touchWatchedKey i k s) = dirty s" "np (touchWatchedKey i k s) = np s"
  by (simp_all add: touchWatchedKey_def mark_dirty_other split: option.split)

lemma touch_clients: "clients (touchWatchedKey i k s) c =
    (if c \<in> watchers s i k then (clients s c)\<lparr>flags := flags (clients s c) OR CLIENT_DIRTY_CAS\<rparr> else clients s c)"
  by (simp add: touchWatchedKey_def watchers_def mark_dirty_clients split: option.split)

lemma step_watchers: "step K s0 s \<Longrightarrow> watchers s i k = watchers s0 i k"
  by (simp add: step_def watchers_def)

lemma touch_step:
  assumes "step K s0 s"
  shows "step (K - {(i, k)}) s0 (touchWatchedKey i k s)"
proof -
  note w = step_watchers [OF assms]
  have fl: "flags (clients (touchWatchedKey i k s) c) \<in> {flags (clients s0 c), flags (clients s0 c) OR CLIENT_DIRTY_CAS}" for c
    using assms by (auto simp: step_def touch_clients or_dirty_twice) (metis or_dirty_twice)+
  have "dirty_cas (clients (touchWatchedKey i k s) c)"
    if "(j, l) \<notin> K - {(i, k)}" "entry s j l \<noteq> entry s0 j l" "c \<in> watchers s0 j l" for j l c
    using that step_dirty [OF assms, of j l c] by (cases "(j, l) = (i, k)") (auto simp: touch_clients w)
  then show ?thesis using assms fl by (auto simp: step_def touch_other touch_clients entry_def client_part_def)
qed

subsection \<open>Symbolic execution\<close>

text \<open>
  The entries as a function of database and key; \<open>upd\<close> changes one of them.  An entry is expired
  when its time is over and not negative; a lookup on a master purges it.
\<close>

type_synonym ents = "nat \<Rightarrow> bytes \<Rightarrow> robj option \<times> int option"

definition upd :: "ents \<Rightarrow> nat \<Rightarrow> bytes \<Rightarrow> robj option \<times> int option \<Rightarrow> ents" where
  "upd E i k e = E(i := (E i)(k := e))"

lemma upd_apply [simp]: "upd E i k e j l = (if j = i \<and> l = k then e else E j l)"
  by (simp add: upd_def)

lemma upd_upd [simp]: "upd (upd E i k e) i k e' = upd E i k e'"
  by (simp add: upd_def)

lemma upd_same [simp]: "E i k = e \<Longrightarrow> upd E i k e = E"
  by (auto simp: upd_def)

definition expired_at :: "int \<Rightarrow> int option \<Rightarrow> bool" where
  "expired_at now t = (case t of None \<Rightarrow> False | Some w \<Rightarrow> 0 \<le> w \<and> w < now)"

text \<open>
  \<open>tr s0 K M E R D s\<close>: a command that started in \<open>s0\<close> has reached \<open>s\<close>.  The entries are now \<open>E\<close>, the
  replies other than those of subscriptions \<open>R\<close> and the counter of changes is \<open>D\<close>.  The keys in \<open>K\<close>
  may have been changed without notice, and the clients that watch a key in \<open>M\<close> are marked.
\<close>

definition ctx :: "server \<Rightarrow> bool" where
  "ctx s \<longleftrightarrow> db_ok s \<and> \<not> masterhost s \<and> \<not> loading s \<and> mstime s = clock s"

definition tr :: "server \<Rightarrow> (nat \<times> bytes) set \<Rightarrow> (nat \<times> bytes) set \<Rightarrow> ents \<Rightarrow> (nat \<Rightarrow> reply list) \<Rightarrow> int \<Rightarrow> server \<Rightarrow> bool" where
  "tr s0 K M E R D s \<longleftrightarrow> ctx s0 \<and> db_ok s \<and> step K s0 s \<and> entry s = E \<and> np s = R \<and> dirty s = D \<and>
     (\<forall>i k c. (i, k) \<in> M \<longrightarrow> c \<in> watchers s0 i k \<longrightarrow> dirty_cas (clients s c))"

lemma tr_start: "ctx s \<Longrightarrow> tr s {} {} (entry s) (np s) (dirty s) s"
  by (simp add: tr_def ctx_def)

lemma tr_server:
  assumes "tr s0 K M E R D s"
  shows "masterhost s = masterhost s0" "loading s = loading s0" "mstime s = mstime s0" "clock s = clock s0"
    "dbnum s = dbnum s0" "client_list s = client_list s0" "\<not> masterhost s0" "\<not> loading s0" "clock s0 = mstime s0"
    "current_client s = current_client s0"
  using assms by (auto simp: tr_def step_def server_part_def ctx_def)

lemma tr_client:
  assumes "tr s0 K M E R D s"
  shows "cdb (clients s c) = cdb (clients s0 c)" "watched (clients s c) = watched (clients s0 c)"
  using assms by (auto simp: tr_def step_def client_part_def)

lemma tr_ent:
  assumes "tr s0 K M E R D s"
  shows "map_of (kv (db s i)) k = fst (E i k)" "expires (db s i) k = snd (E i k)" "ent_ok (E i k)"
  using assms by (auto simp: tr_def entry_def db_ok_def)

lemma step_dirty_mono: "step K s s' \<Longrightarrow> dirty_cas (clients s c) \<Longrightarrow> dirty_cas (clients s' c)"
  by (simp add: step_def) (metis has_flag_or(2))

lemma quiet_db: "quiet s s' \<Longrightarrow> entry s' = entry s \<and> (db_ok s' \<longleftrightarrow> db_ok s)"
  by (simp add: quiet_def db_ok_def entry_def fun_eq_iff)

lemma tr_quiet: "tr s0 K M E R D s \<Longrightarrow> quiet s s' \<Longrightarrow> tr s0 K M E R D s'"
  using step_trans [of K s0 s "{}" s'] step_dirty_mono [of "{}" s s'] quiet_db [of s s']
  by (auto simp: tr_def quiet_def)

lemma tr_touch:
  assumes "tr s0 K M E R D s"
  shows "tr s0 (K - {(i, k)}) (insert (i, k) M) E R D (signalModifiedKey i k s)"
proof -
  have st: "step K s0 s" using assms by (simp add: tr_def)
  have e: "entry (touchWatchedKey i k s) = entry s" by (simp add: entry_def touch_other fun_eq_iff)
  show ?thesis
    using assms touch_step [OF st, of i k] e
    by (auto simp: tr_def signalModifiedKey_def touch_other touch_clients db_ok_def step_watchers [OF st])
qed

lemma tr_weaken: "tr s0 K M E R D s \<Longrightarrow> K \<subseteq> K' \<Longrightarrow> M' \<subseteq> M \<Longrightarrow> tr s0 K' M' E R D s"
  unfolding tr_def step_def by blast

text \<open>Changes of one entry.\<close>

lemma step_change:
  assumes "step K s0 s" "\<And>j l. (j, l) \<noteq> (i, k) \<Longrightarrow> entry s' j l = entry s j l" "server_part s' = server_part s"
    "\<And>j. wkeys (db s' j) = wkeys (db s j)" "clients s' = clients s"
    "\<And>i k c. (i, k) \<in> M \<Longrightarrow> c \<in> watchers s0 i k \<Longrightarrow> dirty_cas (clients s c)"
  shows "step (K \<union> ({(i, k)} - M)) s0 s'"
proof -
  have "dirty_cas (clients s' c)"
    if a: "(j, l) \<notin> K \<union> ({(i, k)} - M)" "entry s' j l \<noteq> entry s0 j l" "c \<in> watchers s0 j l" for j l c
  proof (cases "(j, l) = (i, k)")
    case True
    then show ?thesis using a assms(5) assms(6) [of j l c] by simp
  next
    case False
    then show ?thesis using a assms(5) assms(2) [OF False] step_dirty [OF assms(1), of j l c] by simp
  qed
  then show ?thesis using assms(1,3-5) by (simp add: step_def)
qed

lemma tr_change:
  assumes "tr s0 K M E R D s" "entry s' = upd E i k e" "ent_ok e" "\<And>j. distinct (map fst (kv (db s' j)))"
    "server_part s' = server_part s" "\<And>j. wkeys (db s' j) = wkeys (db s j)" "clients s' = clients s" "dirty s' = dirty s"
  shows "tr s0 (K \<union> ({(i, k)} - M)) M (upd E i k e) R D s'"
proof -
  have "step (K \<union> ({(i, k)} - M)) s0 s'"
    using assms by (intro step_change [where s = s]) (auto simp: tr_def)
  then show ?thesis using assms by (auto simp: tr_def db_ok_def np_def fun_eq_iff)
qed

end
