(* ===== verification/Keyspace_Rules.thy ===== *)
theory Keyspace_Rules
  imports Server_Frame
begin

unbundle bit_operations_syntax

text \<open>
  Rules for the symbolic execution of the functions of \<open>db.c\<close> and \<open>object.c\<close> on a master: each
  gives the entries, the replies and the marked keys after the call.
\<close>

subsection \<open>Replies, counters and notifications\<close>

lemma tr_misc:
  assumes "tr s0 K M E R D s" "\<And>i. kv (db s' i) = kv (db s i) \<and> expires (db s' i) = expires (db s i) \<and> wkeys (db s' i) = wkeys (db s i)"
    "server_part s' = server_part s" "\<And>c. client_part (clients s' c) = client_part (clients s c) \<and> flags (clients s' c) = flags (clients s c)"
    "R' = np s'" "D' = dirty s'"
  shows "tr s0 K M E R' D' s'"
proof -
  have e: "entry s' = entry s" using assms(2) by (simp add: entry_def fun_eq_iff)
  have "step K s0 s'" using assms by (simp add: tr_def step_def e)
  then show ?thesis using assms by (auto simp: tr_def db_ok_def e)
qed

lemma tr_np: "tr s0 K M E R D s \<Longrightarrow> R = np s \<and> D = dirty s"
  by (auto simp: tr_def)

lemma tr_addReply:
  assumes "tr s0 K M E R D s" "\<not> is_pub r"
  shows "tr s0 K M E (R(c := R c @ [r])) D (addReply c r s)"
  by (rule tr_misc [OF assms(1)])
    (use assms(2) tr_np [OF assms(1)] in \<open>auto simp: addReply_def upd_client_def server_part_def client_part_def np_def\<close>)

lemma tr_incr_dirty:
  assumes "tr s0 K M E R D s"
  shows "tr s0 K M E R (D + n) (incr_dirty n s)"
  by (rule tr_misc [OF assms]) (use tr_np [OF assms] in \<open>auto simp: incr_dirty_def server_part_def np_def fun_eq_iff\<close>)

lemma notify_wp:
  assumes "tr s0 K M E R D s" "\<And>s'. tr s0 K M E R D s' \<Longrightarrow> Q s'"
  shows "wp (notifyKeyspaceEvent t e k i s) Q"
  by (rule wp_mono [OF notify_quiet]) (blast intro: assms tr_quiet)

subsection \<open>Changing an entry\<close>

lemma map_of_delete: "distinct (map fst xs) \<Longrightarrow> map_of (AList.delete k xs) = (map_of xs)(k := None)"
  by (simp add: AList.delete_conv')

lemma entry_upd_db:
  "entry (upd_db i f s) = (\<lambda>j l. if j = i then (map_of (kv (f (db s i))) l, expires (f (db s i)) l) else entry s j l)"
  by (simp add: entry_def fun_eq_iff)

lemma upd_db_other: "server_part (upd_db i f s) = server_part s" "clients (upd_db i f s) = clients s"
  "dirty (upd_db i f s) = dirty s"
  by (simp_all add: upd_db_def server_part_def)

lemma tr_upd_db:
  assumes "tr s0 K M E R D s" "\<And>l. (map_of (kv (f (db s i))) l, expires (f (db s i)) l) = (if l = k then e else E i l)"
    "ent_ok e" "distinct (map fst (kv (f (db s i))))" "wkeys (f (db s i)) = wkeys (db s i)"
  shows "tr s0 (K \<union> ({(i, k)} - M)) M (upd E i k e) R D (upd_db i f s)"
proof (rule tr_change [OF assms(1)])
  have E: "entry s = E" using assms(1) by (simp add: tr_def)
  show "entry (upd_db i f s) = upd E i k e" unfolding entry_upd_db assms(2) E by (auto simp: fun_eq_iff)
  show "distinct (map fst (kv (db (upd_db i f s) j)))" for j using assms(1,4) by (simp add: tr_def db_ok_def)
qed (use assms(3,5) in \<open>simp_all add: upd_db_other\<close>)

lemma tr_distinct: "tr s0 K M E R D s \<Longrightarrow> distinct (map fst (kv (db s i)))"
  by (simp add: tr_def db_ok_def)

lemma tr_kv_update:
  assumes "tr s0 K M E R D s" "obj_ok v" "e = (Some v, snd (E i k))"
  shows "tr s0 (K \<union> ({(i, k)} - M)) M (upd E i k e) R D (upd_db i (\<lambda>d. d\<lparr>kv := AList.update k v (kv d)\<rparr>) s)"
  by (rule tr_upd_db [OF assms(1)])
    (use assms in \<open>auto simp: tr_ent [OF assms(1)] update_conv' distinct_update tr_distinct [OF assms(1)] ent_ok_def prod_eq_iff\<close>)

lemma tr_delete:
  assumes "tr s0 K M E R D s"
  shows "tr s0 (K \<union> ({(i, k)} - M)) M (upd E i k (None, None)) R D (fst (dbGenericDelete lazy i k s))"
    and "snd (dbGenericDelete lazy i k s) = (fst (E i k) \<noteq> None)"
proof -
  have del: "tr s0 (K \<union> ({(i, k)} - M)) M (upd E i k (None, None)) R D
      (upd_db i (\<lambda>d. d\<lparr>expires := (expires d)(k := None), kv := AList.delete k (kv d)\<rparr>) s)"
    by (rule tr_upd_db [OF assms])
      (auto simp: tr_ent [OF assms] map_of_delete tr_distinct [OF assms] distinct_delete ent_ok_def prod_eq_iff)
  have same: "dbGenericDelete lazy i k s = dbSyncDelete i k s"
  proof (cases "map_of (kv (db s i)) k")
    case None
    then have "k \<notin> fst ` set (kv (db s i))" by (simp add: map_of_eq_None_iff)
    then have "AList.delete k (kv (db s i)) = kv (db s i)" by (simp add: delete_id)
    then show ?thesis using None
      by (simp add: dbGenericDelete_def dbAsyncDelete_def dbSyncDelete_def upd_db_def fun_eq_iff)
  qed (simp add: dbGenericDelete_def dbAsyncDelete_def dbSyncDelete_def upd_db_def)
  show "tr s0 (K \<union> ({(i, k)} - M)) M (upd E i k (None, None)) R D (fst (dbGenericDelete lazy i k s))"
    using del by (simp add: same dbSyncDelete_def)
  show "snd (dbGenericDelete lazy i k s) = (fst (E i k) \<noteq> None)"
    by (simp add: same dbSyncDelete_def tr_ent [OF assms])
qed

lemma dbDelete_generic: "dbDelete i k s = dbGenericDelete (lazyfree_lazy_server_del s) i k s"
  by (simp add: dbDelete_def dbGenericDelete_def)

lemma tr_dbDelete:
  "tr s0 K M E R D s \<Longrightarrow> tr s0 (K \<union> ({(i, k)} - M)) M (upd E i k (None, None)) R D (fst (dbDelete i k s))"
  unfolding dbDelete_generic by (rule tr_delete)

lemma tr_set_raw:
  "tr s0 K M E R D s \<Longrightarrow> tr s0 (K \<union> ({(i, k)} - M)) M (upd E i k (Some (StrRaw b), snd (E i k))) R D (set_raw i k b s)"
  unfolding set_raw_def by (rule tr_kv_update) simp_all

lemma dbAdd_wp:
  assumes "tr s0 K M E R D s" "fst (E i k) = None" "obj_ok v"
    "\<And>s'. tr s0 (K \<union> ({(i, k)} - M)) M (upd E i k (Some v, None)) R D s' \<Longrightarrow> Q s'"
  shows "wp (dbAdd i k v s) Q"
proof -
  have n: "snd (E i k) = None" using tr_ent(3) [OF assms(1), of i k] assms(2) by (auto simp: ent_ok_def)
  have t: "tr s0 (K \<union> ({(i, k)} - M)) M (upd E i k (Some v, None)) R D (upd_db i (\<lambda>d. d\<lparr>kv := AList.update k v (kv d)\<rparr>) s)"
    by (rule tr_kv_update [OF assms(1,3)]) (simp add: n)
  have r: "tr s0 K M E R D (signalKeyAsReady i k x)" if "tr s0 K M E R D x" for K E x
    by (rule tr_misc [OF that]) (use tr_np [OF that] in \<open>auto simp: signalKeyAsReady_def upd_db_def server_part_def np_def fun_eq_iff\<close>)
  show ?thesis using assms(2) assms(4) [OF t] assms(4) [OF r, OF t] by (simp add: dbAdd_def Let_def tr_ent [OF assms(1)])
qed

lemma dbOverwrite_wp:
  assumes "tr s0 K M E R D s" "fst (E i k) \<noteq> None" "obj_ok v"
    "\<And>s'. tr s0 (K \<union> ({(i, k)} - M)) M (upd E i k (Some v, snd (E i k))) R D s' \<Longrightarrow> Q s'"
  shows "wp (dbOverwrite i k v s) Q"
  using assms(2) assms(4) [OF tr_kv_update [OF assms(1,3) refl]] by (simp add: dbOverwrite_def tr_ent [OF assms(1)])

lemma removeExpire_wp:
  assumes "tr s0 K M E R D s" "fst (E i k) \<noteq> None"
    "\<And>s'. tr s0 (K \<union> ({(i, k)} - M)) M (upd E i k (fst (E i k), None)) R D s' \<Longrightarrow> Q (s', snd (E i k) \<noteq> None)"
  shows "wp (removeExpire i k s) Q"
proof -
  have "tr s0 (K \<union> ({(i, k)} - M)) M (upd E i k (fst (E i k), None)) R D (upd_db i (\<lambda>d. d\<lparr>expires := (expires d)(k := None)\<rparr>) s)"
    by (rule tr_upd_db [OF assms(1)])
      (use tr_ent(3) [OF assms(1), of i k] in \<open>auto simp: tr_ent [OF assms(1)] tr_distinct [OF assms(1)] ent_ok_def prod_eq_iff\<close>)
  then show ?thesis using assms(2,3) by (simp add: removeExpire_def tr_ent [OF assms(1)])
qed

lemma setExpire_wp:
  assumes "tr s0 K M E R D s" "fst (E i k) \<noteq> None"
    "\<And>s'. tr s0 (K \<union> ({(i, k)} - M)) M (upd E i k (fst (E i k), Some t)) R D s' \<Longrightarrow> Q s'"
  shows "wp (setExpire c i k t s) Q"
proof -
  have "tr s0 (K \<union> ({(i, k)} - M)) M (upd E i k (fst (E i k), Some t)) R D (upd_db i (\<lambda>d. d\<lparr>expires := (expires d)(k \<mapsto> t)\<rparr>) s)"
    by (rule tr_upd_db [OF assms(1)])
      (use tr_ent(3) [OF assms(1), of i k] assms(2) in \<open>auto simp: tr_ent [OF assms(1)] tr_distinct [OF assms(1)] ent_ok_def prod_eq_iff\<close>)
  then show ?thesis using assms(2,3) tr_server [OF assms(1)] by (simp add: setExpire_def Let_def tr_ent [OF assms(1)])
qed

lemma getExpire_tr:
  "tr s0 K M E R D s \<Longrightarrow> getExpire i k s = Some (case snd (E i k) of None \<Rightarrow> -1 | Some t \<Rightarrow> t)"
  using tr_ent [of s0 K M E R D s i k] by (auto simp: getExpire_def ent_ok_def serverAssert_def split: option.split)

lemmas wp_entry = dbAdd_wp dbOverwrite_wp removeExpire_wp setExpire_wp notify_wp

subsection \<open>Lookup\<close>

lemma expireIfNeeded_wp:
  assumes "tr s0 K M E R D s"
    "\<And>s'. expired_at (mstime s0) (snd (E i k)) \<Longrightarrow> tr s0 K M (upd E i k (None, None)) R D s' \<Longrightarrow> Q (s', True)"
    "\<not> expired_at (mstime s0) (snd (E i k)) \<Longrightarrow> Q (s, False)"
  shows "wp (expireIfNeeded i k s) Q"
proof (cases "expired_at (mstime s0) (snd (E i k))")
  case False
  then show ?thesis using assms(3) tr_server [OF assms(1)]
    by (auto simp: expireIfNeeded_def keyIsExpired_def getExpire_tr [OF assms(1)] expired_at_def split: option.splits)
next
  case True
  let ?s2 = "propagateExpire i k (lazyfree_lazy_expire s) (s\<lparr>stat_expiredkeys := stat_expiredkeys s + 1\<rparr>)"
  have t2: "tr s0 K M E R D ?s2"
    by (rule tr_misc [OF assms(1)]) (use tr_np [OF assms(1)] in \<open>auto simp: propagateExpire_def Let_def server_part_def np_def\<close>)
  have f: "fst (E i k) \<noteq> None" using tr_ent(3) [OF assms(1), of i k] True by (auto simp: ent_ok_def expired_at_def)
  have w: "wp (notifyKeyspaceEvent NOTIFY_EXPIRED ''expired'' k i ?s2)
    (\<lambda>s3. Q (signalModifiedKey i k (fst (dbGenericDelete (lazyfree_lazy_expire s3) i k s3)), True))"
  proof (rule notify_wp [OF t2])
    fix s3 assume t3: "tr s0 K M E R D s3"
    show "Q (signalModifiedKey i k (fst (dbGenericDelete (lazyfree_lazy_expire s3) i k s3)), True)"
      by (rule assms(2) [OF True], rule tr_weaken [OF tr_touch [OF tr_delete(1) [OF t3]]]) auto
  qed
  have e: "keyIsExpired i k s = Some True"
    using True tr_server [OF assms(1)] by (auto simp: keyIsExpired_def getExpire_tr [OF assms(1)] expired_at_def split: option.splits)
  have d: "wp (notifyKeyspaceEvent NOTIFY_EXPIRED ''expired'' k i ?s2) (\<lambda>s3. snd (dbGenericDelete (lazyfree_lazy_expire s3) i k s3))"
    by (rule notify_wp [OF t2]) (use f in \<open>simp add: tr_delete(2)\<close>)
  show ?thesis using w d tr_server [OF assms(1)]
    by (auto simp: expireIfNeeded_def e wp_iff Let_def split_beta)
qed

text \<open>
  What a lookup tells: either there is no live entry, and then there is none at all afterwards, or
  there is one and nothing has changed.
\<close>

definition live_at :: "int \<Rightarrow> robj option \<times> int option \<Rightarrow> bool" where
  "live_at now e \<longleftrightarrow> fst e \<noteq> None \<and> \<not> expired_at now (snd e)"

lemma tr_dead:
  "tr s0 K M E R D s \<Longrightarrow> \<not> live_at now (E i k) \<Longrightarrow> \<not> expired_at now (snd (E i k)) \<Longrightarrow> E i k = (None, None)"
  using tr_ent(3) [of s0 K M E R D s i k] by (auto simp: live_at_def ent_ok_def prod_eq_iff)

lemma lookupKeyWrite_wp:
  assumes t: "tr s0 K M E R D s"
    and no: "\<And>s'. \<not> live_at (mstime s0) (E i k) \<Longrightarrow> tr s0 K M (upd E i k (None, None)) R D s' \<Longrightarrow> Q (s', None)"
    and yes: "\<And>v t. E i k = (Some v, t) \<Longrightarrow> \<not> expired_at (mstime s0) t \<Longrightarrow> obj_ok v \<Longrightarrow> Q (s, Some v)"
  shows "wp (lookupKeyWrite i k s) Q"
  unfolding lookupKeyWrite_def wp_bind
proof (rule expireIfNeeded_wp [OF t])
  fix s' assume x: "expired_at (mstime s0) (snd (E i k))" and t': "tr s0 K M (upd E i k (None, None)) R D s'"
  show "wp (case (s', True) of (s1, e) \<Rightarrow> Some (s1, lookupKey i k s1)) Q"
    using no [OF _ t'] x by (simp add: lookupKey_def tr_ent [OF t'] live_at_def)
next
  assume x: "\<not> expired_at (mstime s0) (snd (E i k))"
  show "wp (case (s, False) of (s1, e) \<Rightarrow> Some (s1, lookupKey i k s1)) Q"
  proof (cases "E i k")
    case (Pair a b)
    show ?thesis
      using Pair x no [of s] yes t tr_ent [OF t, of i k] tr_dead [OF t _ x]
      by (cases a) (auto simp: lookupKey_def ent_ok_def live_at_def)
  qed
qed

lemma miss_wp:
  assumes "tr s0 K M E R D s" "\<And>s'. tr s0 K M E R D s' \<Longrightarrow> Q (s', None)"
  shows "wp (miss i k s) Q"
proof -
  have "tr s0 K M E R D (s\<lparr>stat_keyspace_misses := stat_keyspace_misses s + 1\<rparr>)"
    by (rule tr_misc [OF assms(1)]) (use tr_np [OF assms(1)] in \<open>auto simp: server_part_def np_def\<close>)
  then show ?thesis unfolding miss_def wp_bind by (rule notify_wp) (simp add: assms(2))
qed

lemma lookupKeyReadWithFlags_wp:
  assumes t: "tr s0 K M E R D s"
    and no: "\<And>s'. \<not> live_at (mstime s0) (E i k) \<Longrightarrow> tr s0 K M (upd E i k (None, None)) R D s' \<Longrightarrow> Q (s', None)"
    and yes: "\<And>s' v t. E i k = (Some v, t) \<Longrightarrow> \<not> expired_at (mstime s0) t \<Longrightarrow> obj_ok v \<Longrightarrow> tr s0 K M E R D s' \<Longrightarrow> Q (s', Some v)"
  shows "wp (lookupKeyReadWithFlags i k s) Q"
  unfolding lookupKeyReadWithFlags_def wp_bind
proof (rule expireIfNeeded_wp [OF t], goal_cases)
  case (1 s')
  have "wp (miss i k s') Q" by (rule miss_wp [OF 1(2)]) (use no 1(1) in \<open>simp add: live_at_def\<close>)
  then show ?case using tr_server [OF 1(2)] by simp
next
  case 2
  note x = 2
  have hit: "tr s0 K M E R D (s\<lparr>stat_keyspace_hits := stat_keyspace_hits s + 1\<rparr>)"
    by (rule tr_misc [OF t]) (use tr_np [OF t] in \<open>auto simp: server_part_def np_def\<close>)
  have "wp (case lookupKey i k s of None \<Rightarrow> miss i k s
      | Some val \<Rightarrow> Some (s\<lparr>stat_keyspace_hits := stat_keyspace_hits s + 1\<rparr>, Some val)) Q"
  proof (cases "fst (E i k)")
    case None
    then have d: "E i k = (None, None)" by (intro tr_dead [OF t _ x]) (simp add: live_at_def)
    have "wp (miss i k s) Q" by (rule miss_wp [OF t], rule no) (simp_all add: d live_at_def)
    then show ?thesis using None by (simp add: lookupKey_def tr_ent [OF t])
  next
    case (Some v)
    then show ?thesis
      using yes [OF _ _ _ hit, of v "snd (E i k)"] x tr_ent(3) [OF t, of i k]
      by (simp add: lookupKey_def tr_ent [OF t] prod_eq_iff ent_ok_def)
  qed
  then show ?case by simp
qed

lemma genericSetKey_wp:
  assumes t: "tr s0 K M E R D s" and v: "obj_ok v"
    and q: "\<And>s'. tr s0 (K - {(i, k)}) (insert (i, k) M)
       (upd E i k (Some v, if keepttl \<and> live_at (mstime s0) (E i k) then snd (E i k) else None)) R D s' \<Longrightarrow> Q s'"
  shows "wp (genericSetKey i k v keepttl True s) Q"
proof -
  have fin: "Q (signalModifiedKey i k s')"
    if "tr s0 K' M (upd E i k (Some v, if keepttl \<and> live_at (mstime s0) (E i k) then snd (E i k) else None)) R D s'"
      "K' - {(i, k)} = K - {(i, k)}" for s' K'
    by (rule q, rule tr_touch [OF that(1), of i k, unfolded that(2)])
  have rem: "wp (if \<not> keepttl then removeExpire i k s2 \<bind> (\<lambda>(s3, r). Some s3) else Some s2) (\<lambda>s3. Q (signalModifiedKey i k s3))"
    if "tr s0 K' M (upd E i k (Some v, t)) R D s2" "keepttl \<Longrightarrow> t = (if live_at (mstime s0) (E i k) then snd (E i k) else None)"
      "K' - {(i, k)} = K - {(i, k)}" for s2 K' t
  proof (cases keepttl)
    case True
    have e: "(if keepttl \<and> live_at (mstime s0) (E i k) then snd (E i k) else None) = t" using that(2) True by auto
    have "Q (signalModifiedKey i k s2)" by (rule fin [OF _ that(3)], unfold e, rule that(1))
    then show ?thesis using True by simp
  next
    case False
    have "wp (removeExpire i k s2) (\<lambda>x. Q (signalModifiedKey i k (fst x)))"
    proof (rule removeExpire_wp [OF that(1)], goal_cases)
      case (2 s')
      then have "tr s0 (K' \<union> ({(i, k)} - M)) M (upd E i k (Some v, if keepttl \<and> live_at (mstime s0) (E i k) then snd (E i k) else None)) R D s'"
        using False by simp
      then show ?case unfolding fst_conv by (rule fin) (use that(3) in auto)
    qed simp
    then show ?thesis using False by (simp add: split_beta)
  qed
  show ?thesis
    unfolding genericSetKey_def wp_bind
  proof (rule lookupKeyWrite_wp [OF t], goal_cases)
    case (1 s')
    have "wp (dbAdd i k v s') (\<lambda>s2. wp (if \<not> keepttl then removeExpire i k s2 \<bind> (\<lambda>(s3, r). Some s3) else Some s2)
        (\<lambda>s3. Q (signalModifiedKey i k s3)))"
    proof (rule dbAdd_wp [OF 1(2) _ v], goal_cases)
      case (2 s2)
      then have "tr s0 (K \<union> ({(i, k)} - M)) M (upd E i k (Some v, None)) R D s2" by simp
      then show ?case by (rule rem) (use 1(1) in auto)
    qed simp
    then show ?case by simp
  next
    case (2 w t')
    have "wp (dbOverwrite i k v s) (\<lambda>s2. wp (if \<not> keepttl then removeExpire i k s2 \<bind> (\<lambda>(s3, r). Some s3) else Some s2)
        (\<lambda>s3. Q (signalModifiedKey i k s3)))"
      by (rule dbOverwrite_wp [OF t _ v], simp add: 2(1), erule rem) (use 2(1,2) in \<open>auto simp: live_at_def\<close>)
    then show ?case by simp
  qed
qed

subsection \<open>String objects\<close>

text \<open>The bytes of a string object, whatever its encoding.\<close>

fun sval :: "robj \<Rightarrow> bytes" where
  "sval (StrInt v) = int_dec v"
| "sval (StrEmb b) = b"
| "sval (StrRaw b) = b"
| "sval _ = []"

lemma cstr_dec: "cstr (int_dec v @ 0 # xs) = int_dec v"
proof -
  have "x \<noteq> 0" if "x \<in> set (int_dec v)" for x
    using that nat_dec_digits [of x "nat \<bar>v\<bar>"] by (auto simp: int_dec_sign is_digit_def split: if_splits)
  then show ?thesis unfolding cstr_def by (subst takeWhile_append2) auto
qed

lemma bulk_bytes_ok: "otype_of v = OBJ_STRING \<Longrightarrow> obj_ok v \<Longrightarrow> bulk_bytes v = Some (sval v)"
proof (cases v)
  case (StrInt n)
  assume "obj_ok v"
  then have "length (int_dec n) < 32" using length_int_dec_le [of n] StrInt by simp
  then have "ll2string (replicate 32 0) 32 n = Some (int_dec n @ 0 # drop (length (int_dec n) + 1) (replicate 32 0), length (int_dec n))"
    using ll2string_writes [of n 32 "replicate 32 0"] by simp
  then show ?thesis by (simp add: bulk_bytes_def StrInt cstr_dec createStringObject_def)
qed (simp_all add: bulk_bytes_def)

lemma sdigits10_length: "sdigits10 v = length (int_dec v)"
  by (simp add: sdigits10_def digits10_length int_dec_sign Let_def)

lemma stringObjectLen_ok: "otype_of v = OBJ_STRING \<Longrightarrow> stringObjectLen v = Some (length (sval v))"
  by (cases v) (simp_all add: sdigits10_length)

lemma getLongLong_ok: "otype_of v = OBJ_STRING \<Longrightarrow> obj_ok v \<Longrightarrow> getLongLongFromObject (Some v) = Some (string2ll (sval v))"
  by (cases v) (simp_all add: string2ll_int_dec)

lemma createString [simp]: "otype_of (createStringObject b) = OBJ_STRING" "obj_ok (createStringObject b)" "sval (createStringObject b) = b"
  by (simp_all add: createStringObject_def)

lemma string2l_eq: "string2l b = string2ll b"
proof (cases "string2ll b")
  case (Some v)
  then have "int64 v" by (simp add: string2ll_canonical)
  then show ?thesis by (simp add: string2l_def Some int64_def)
qed (simp add: string2l_def)

lemma tryEncode:
  assumes "otype_of v = OBJ_STRING" "obj_ok v"
  shows "\<exists>w. tryObjectEncoding v = Some w \<and> otype_of w = OBJ_STRING \<and> obj_ok w \<and> sval w = sval v"
  using assms
  by (cases v) (auto simp: string2l_eq string2ll_canonical createStringObjectFromLongLong_def int64_def split: option.split)

end
