(* ===== verification/Key_Spec.thy ===== *)
theory Key_Spec
  imports Keyspace_Rules
begin

unbundle bit_operations_syntax

text \<open>
  What the commands on the keyspace promise: a database is a map from keys to values with an
  optional expire time, in which an expired key is absent.  Encodings of strings, lazy expiration,
  notifications, statistics and watched keys do not show.
\<close>

subsection \<open>The abstract databases\<close>

datatype aval = AStr bytes | AObj robj

type_synonym adb = "bytes \<Rightarrow> (aval \<times> int option) option"
type_synonym astore = "nat \<Rightarrow> adb"

definition abs_obj :: "robj \<Rightarrow> aval" where
  "abs_obj v = (if otype_of v = OBJ_STRING then AStr (sval v) else AObj v)"

definition vent :: "int \<Rightarrow> robj option \<times> int option \<Rightarrow> (aval \<times> int option) option" where
  "vent now e = (case e of (None, t) \<Rightarrow> None | (Some v, t) \<Rightarrow> if expired_at now t then None else Some (abs_obj v, t))"

definition vw :: "int \<Rightarrow> ents \<Rightarrow> astore" where
  "vw now E = (\<lambda>i k. vent now (E i k))"

definition on_db :: "nat \<Rightarrow> (adb \<Rightarrow> adb \<times> reply list) \<Rightarrow> astore \<Rightarrow> astore \<times> reply list" where
  "on_db i f V = (let (m, rs) = f (V i) in (V(i := m), rs))"

text \<open>Setting a key to a value with an expire time, which may be over already.\<close>

definition put :: "int \<Rightarrow> bytes \<Rightarrow> aval \<Rightarrow> int option \<Rightarrow> adb \<Rightarrow> adb" where
  "put now k v t m = m(k := if expired_at now t then None else Some (v, t))"

definition ttl_of :: "(aval \<times> int option) option \<Rightarrow> int option" where
  "ttl_of x = (case x of None \<Rightarrow> None | Some (v, t) \<Rightarrow> t)"

subsection \<open>The commands on strings\<close>

definition not_int :: reply where
  "not_int = Error (bstr ''value is not an integer or out of range'')"

definition too_long :: reply where
  "too_long = Error (bstr ''string exceeds maximum allowed size (512MB)'')"

definition get_reply :: "(aval \<times> int option) option \<Rightarrow> reply" where
  "get_reply x = (case x of None \<Rightarrow> Null | Some (AStr b, t) \<Rightarrow> Bulk b | Some (AObj v, t) \<Rightarrow> WrongTypeErr)"

definition spec_get :: "bytes \<Rightarrow> adb \<Rightarrow> adb \<times> reply list" where
  "spec_get k m = (m, [get_reply (m k)])"

definition spec_put_cond :: "int \<Rightarrow> u64 \<Rightarrow> bytes \<Rightarrow> bytes \<Rightarrow> int option \<Rightarrow> reply \<Rightarrow> reply \<Rightarrow> adb \<Rightarrow> adb \<times> reply list" where
  "spec_put_cond now fl k v t ok ab m =
     (if (has_flag fl OBJ_SET_NX \<and> m k \<noteq> None) \<or> (has_flag fl OBJ_SET_XX \<and> m k = None) then (m, [ab])
      else (put now k (AStr v) (if t \<noteq> None then t else if has_flag fl OBJ_SET_KEEPTTL then ttl_of (m k) else None) m, [ok]))"

definition spec_set :: "int \<Rightarrow> string \<Rightarrow> u64 \<Rightarrow> bytes \<Rightarrow> bytes \<Rightarrow> bytes option \<Rightarrow> time_unit \<Rightarrow> reply \<Rightarrow> reply \<Rightarrow> adb \<Rightarrow> adb \<times> reply list" where
  "spec_set now name fl k v ex u ok ab m = (case ex of
      None \<Rightarrow> spec_put_cond now fl k v None ok ab m
    | Some e \<Rightarrow> (case string2ll e of
          None \<Rightarrow> (m, [not_int])
        | Some n \<Rightarrow>
            if n \<le> 0 then (m, [Error (bstr (''invalid expire time in '' @ name))])
            else spec_put_cond now fl k v (Some (wrap64 (now + (if u = UNIT_SECONDS then wrap64 (n * 1000) else n)))) ok ab m))"

definition spec_setCommand :: "int \<Rightarrow> string \<Rightarrow> bytes \<Rightarrow> bytes \<Rightarrow> bytes list \<Rightarrow> adb \<Rightarrow> adb \<times> reply list" where
  "spec_setCommand now name k v opts m = (case set_options opts 0 None UNIT_SECONDS of
      None \<Rightarrow> (m, [SyntaxErr])
    | Some (fl, ex, u) \<Rightarrow> spec_set now name fl k v ex u Ok Null m)"

definition spec_getset :: "bytes \<Rightarrow> bytes \<Rightarrow> adb \<Rightarrow> adb \<times> reply list" where
  "spec_getset k v m = (if get_reply (m k) = WrongTypeErr then m else m(k \<mapsto> (AStr v, None)), [get_reply (m k)])"

definition overwrite :: "bytes \<Rightarrow> nat \<Rightarrow> bytes \<Rightarrow> bytes" where
  "overwrite b n v = take n b @ replicate (n - length b) 0 @ v @ drop (n + length v) b"

definition spec_setrange :: "bytes \<Rightarrow> bytes \<Rightarrow> bytes \<Rightarrow> adb \<Rightarrow> adb \<times> reply list" where
  "spec_setrange k off v m = (case string2ll off of
      None \<Rightarrow> (m, [not_int])
    | Some n \<Rightarrow>
        if n < 0 then (m, [Error (bstr ''offset is out of range'')])
        else (case m k of
            Some (AObj x, t) \<Rightarrow> (m, [WrongTypeErr])
          | x \<Rightarrow>
              let b = (case x of Some (AStr b, t) \<Rightarrow> b | _ \<Rightarrow> []); b' = overwrite b (nat n) v
              in if v = [] then (m, [if x = None then Czero else LongLong (int (length b))])
                 else if n + int (length v) > 512 * 1024 * 1024 then (m, [too_long])
                 else (m(k \<mapsto> (AStr b', ttl_of x)), [LongLong (int (length b'))])))"

definition spec_getrange :: "bytes \<Rightarrow> bytes \<Rightarrow> bytes \<Rightarrow> adb \<Rightarrow> adb \<times> reply list" where
  "spec_getrange k a b m = (case (string2ll a, string2ll b) of
      (Some st, Some en) \<Rightarrow>
        (m, [case m k of None \<Rightarrow> EmptyBulk | Some (AObj x, t) \<Rightarrow> WrongTypeErr
             | Some (AStr str, t) \<Rightarrow> (let p = getrange_part str st en in if p = [] then EmptyBulk else Bulk p)])
    | _ \<Rightarrow> (m, [not_int]))"

definition spec_mget :: "bytes list \<Rightarrow> adb \<Rightarrow> adb \<times> reply list" where
  "spec_mget ks m = (m, ArrayLen (length ks) # map (\<lambda>k. case m k of Some (AStr b, t) \<Rightarrow> Bulk b | _ \<Rightarrow> Null) ks)"

fun put_all :: "bytes list \<Rightarrow> adb \<Rightarrow> adb" where
  "put_all (k # v # kvs) m = put_all kvs (m(k \<mapsto> (AStr v, None)))"
| "put_all _ m = m"

fun any_key :: "bytes list \<Rightarrow> adb \<Rightarrow> bool" where
  "any_key (k # v # kvs) m \<longleftrightarrow> m k \<noteq> None \<or> any_key kvs m"
| "any_key _ m \<longleftrightarrow> False"

definition spec_mset :: "bytes list \<Rightarrow> bool \<Rightarrow> adb \<Rightarrow> adb \<times> reply list" where
  "spec_mset kvs nx m =
     (if odd (length kvs) then (m, [Error (bstr ''wrong number of arguments for MSET'')])
      else if nx \<and> any_key kvs m then (m, [Czero])
      else (put_all kvs m, [if nx then Cone else Ok]))"

definition spec_incr :: "bytes \<Rightarrow> int \<Rightarrow> adb \<Rightarrow> adb \<times> reply list" where
  "spec_incr k n m = (case m k of
      Some (AObj x, t) \<Rightarrow> (m, [WrongTypeErr])
    | x \<Rightarrow> (case (case x of Some (AStr b, t) \<Rightarrow> string2ll b | _ \<Rightarrow> Some 0) of
          None \<Rightarrow> (m, [not_int])
        | Some old \<Rightarrow>
            if int64 (old + n) then (m(k \<mapsto> (AStr (int_dec (old + n)), ttl_of x)), [LongLong (old + n)])
            else (m, [Error (bstr ''increment or decrement would overflow'')])))"

definition spec_incrby :: "bytes \<Rightarrow> bytes \<Rightarrow> adb \<Rightarrow> adb \<times> reply list" where
  "spec_incrby k n m = (case string2ll n of None \<Rightarrow> (m, [not_int]) | Some v \<Rightarrow> spec_incr k v m)"

text \<open>The negation of the smallest number wraps around.\<close>

definition spec_decrby :: "bytes \<Rightarrow> bytes \<Rightarrow> adb \<Rightarrow> adb \<times> reply list" where
  "spec_decrby k n m = (case string2ll n of None \<Rightarrow> (m, [not_int]) | Some v \<Rightarrow> spec_incr k (wrap64 (- v)) m)"

definition spec_append :: "bytes \<Rightarrow> bytes \<Rightarrow> adb \<Rightarrow> adb \<times> reply list" where
  "spec_append k v m = (case m k of
      None \<Rightarrow> (m(k \<mapsto> (AStr v, None)), [LongLong (int (length v))])
    | Some (AObj x, t) \<Rightarrow> (m, [WrongTypeErr])
    | Some (AStr b, t) \<Rightarrow>
        if length b + length v > 512 * 1024 * 1024 then (m, [too_long])
        else (m(k \<mapsto> (AStr (b @ v), t)), [LongLong (int (length b + length v))]))"

definition spec_strlen :: "bytes \<Rightarrow> adb \<Rightarrow> adb \<times> reply list" where
  "spec_strlen k m = (m, [case m k of None \<Rightarrow> Czero | Some (AStr b, t) \<Rightarrow> LongLong (int (length b)) | Some (AObj x, t) \<Rightarrow> WrongTypeErr])"

subsection \<open>The commands on keys\<close>

definition spec_del :: "bytes list \<Rightarrow> adb \<Rightarrow> adb \<times> reply list" where
  "spec_del ks m = (\<lambda>k. if k \<in> set ks then None else m k, [LongLong (int (length (filter (\<lambda>k. m k \<noteq> None) (remdups ks))))])"

definition spec_exists :: "bytes list \<Rightarrow> adb \<Rightarrow> adb \<times> reply list" where
  "spec_exists ks m = (m, [LongLong (int (length (filter (\<lambda>k. m k \<noteq> None) ks)))])"

definition spec_type :: "bytes \<Rightarrow> adb \<Rightarrow> adb \<times> reply list" where
  "spec_type k m = (m, [Status (bstr (case m k of None \<Rightarrow> ''none'' | Some (AStr b, t) \<Rightarrow> ''string''
      | Some (AObj x, t) \<Rightarrow> getObjectTypeName (Some x)))])"

text \<open>The stored time -1 counts as none when a key moves.\<close>

definition moved :: "(aval \<times> int option) option \<Rightarrow> (aval \<times> int option) option" where
  "moved x = map_option (\<lambda>(v, t). (v, if t = Some (-1) then None else t)) x"

definition spec_rename :: "bytes \<Rightarrow> bytes \<Rightarrow> bool \<Rightarrow> adb \<Rightarrow> adb \<times> reply list" where
  "spec_rename src dst nx m =
     (if m src = None then (m, [NoKeyErr])
      else if src = dst then (m, [if nx then Czero else Ok])
      else if nx \<and> m dst \<noteq> None then (m, [Czero])
      else (m(dst := moved (m src), src := None), [if nx then Cone else Ok]))"

definition spec_move :: "nat \<Rightarrow> nat \<Rightarrow> bytes \<Rightarrow> bytes \<Rightarrow> astore \<Rightarrow> astore \<times> reply list" where
  "spec_move n i k arg V = (case string2ll arg of
      None \<Rightarrow> (V, [OutOfRangeErr])
    | Some d \<Rightarrow>
        if d < - (2 ^ 31) \<or> d > 2 ^ 31 - 1 \<or> d < 0 \<or> d \<ge> int n then (V, [OutOfRangeErr])
        else let j = nat d
          in if i = j then (V, [SameObjectErr])
             else if V i k = None \<or> V j k \<noteq> None then (V, [Czero])
             else (V(j := (V j)(k := moved (V i k)), i := (V i)(k := None)), [Cone]))"

definition spec_flushdb :: "bytes list \<Rightarrow> adb \<Rightarrow> adb \<times> reply list" where
  "spec_flushdb args m =
     (if args \<noteq> [] \<and> (length args > 1 \<or> \<not> strcaseeq (hd args) ''async'') then (m, [SyntaxErr]) else (Map.empty, [Ok]))"

definition spec_expire :: "int \<Rightarrow> bytes \<Rightarrow> bytes \<Rightarrow> int \<Rightarrow> time_unit \<Rightarrow> adb \<Rightarrow> adb \<times> reply list" where
  "spec_expire now k arg base u m = (case string2ll arg of
      None \<Rightarrow> (m, [not_int])
    | Some n \<Rightarrow>
        let w = wrap64 (wrap64 (if u = UNIT_SECONDS then n * 1000 else n) + base)
        in case m k of
             None \<Rightarrow> (m, [Czero])
           | Some (v, t) \<Rightarrow> (m(k := if w \<le> now then None else Some (v, Some w)), [Cone]))"

definition spec_ttl :: "int \<Rightarrow> bytes \<Rightarrow> bool \<Rightarrow> adb \<Rightarrow> adb \<times> reply list" where
  "spec_ttl now k ms m = (m, [LongLong (case m k of
      None \<Rightarrow> -2
    | Some (v, t) \<Rightarrow> (case t of None \<Rightarrow> -1 | Some w \<Rightarrow>
        if w = -1 then -1
        else let r = max 0 (wrap64 (w - now)) in if ms then r else wrap64 (r + 500) div 1000))])"

definition spec_persist :: "bytes \<Rightarrow> adb \<Rightarrow> adb \<times> reply list" where
  "spec_persist k m = (case m k of
      Some (v, Some t) \<Rightarrow> (m(k \<mapsto> (v, None)), [Cone])
    | _ \<Rightarrow> (m, [Czero]))"

subsection \<open>The implementation relation\<close>

text \<open>
  \<open>does K s c r s'\<close>: from \<open>s\<close> to \<open>s'\<close> the databases changed and the client \<open>c\<close> was answered as \<open>r\<close>
  says, nobody else was, a change was counted, and the clients watching a changed key were marked,
  except for keys in \<open>K\<close>.
\<close>

definition does :: "(nat \<times> bytes) set \<Rightarrow> server \<Rightarrow> nat \<Rightarrow> astore \<times> reply list \<Rightarrow> server \<Rightarrow> bool" where
  "does K s c r s' \<longleftrightarrow> db_ok s' \<and> step K s s' \<and> vw (mstime s) (entry s') = fst r \<and>
     np s' = (np s)(c := np s c @ snd r) \<and> dirty s \<le> dirty s' \<and>
     (fst r \<noteq> vw (mstime s) (entry s) \<longrightarrow> dirty s < dirty s')"

lemma doesI:
  assumes "tr s K M E R D s'" "R = (np s)(c := np s c @ snd r)" "vw (mstime s) E = fst r" "dirty s \<le> D"
    "fst r \<noteq> vw (mstime s) (entry s) \<Longrightarrow> dirty s < D"
  shows "does K s c r s'"
  using assms by (auto simp: does_def tr_def)

lemma vw_upd [simp]: "vw now (upd E i k e) = (vw now E)(i := (vw now E i)(k := vent now e))"
  by (auto simp: vw_def fun_eq_iff)

lemma vw_same [simp]: "vw now E i k = x \<Longrightarrow> (vw now E)(i := (vw now E i)(k := x)) = vw now E"
  by auto

lemma vent_simps [simp]: "vent now (None, t) = None"
  "vent now (Some v, t) = (if expired_at now t then None else Some (abs_obj v, t))"
  by (simp_all add: vent_def)

lemma expired_None [simp]: "\<not> expired_at now None"
  by (simp add: expired_at_def)

lemma vw_dead [simp]: "\<not> live_at now (E i k) \<Longrightarrow> vw now E i k = None"
  by (auto simp: vw_def vent_def live_at_def split: prod.split option.split)

lemma vw_live: "E i k = (Some v, t) \<Longrightarrow> \<not> expired_at now t \<Longrightarrow> vw now E i k = Some (abs_obj v, t)"
  by (simp add: vw_def)

lemma abs_obj_simps [simp]: "otype_of v = OBJ_STRING \<Longrightarrow> abs_obj v = AStr (sval v)"
  "otype_of v \<noteq> OBJ_STRING \<Longrightarrow> abs_obj v = AObj v"
  by (simp_all add: abs_obj_def)

lemma is_pub_simps [simp]:
  "\<not> is_pub Ok" "\<not> is_pub Queued" "\<not> is_pub Czero" "\<not> is_pub Cone" "\<not> is_pub Null" "\<not> is_pub NullArray" "\<not> is_pub EmptyBulk"
  "\<not> is_pub (Bulk b)" "\<not> is_pub (LongLong n)" "\<not> is_pub (Status b)" "\<not> is_pub (ArrayLen l)" "\<not> is_pub SyntaxErr"
  "\<not> is_pub WrongTypeErr" "\<not> is_pub NoKeyErr" "\<not> is_pub OutOfRangeErr" "\<not> is_pub SameObjectErr" "\<not> is_pub ExecAbortErr"
  "\<not> is_pub RoSlaveErr" "\<not> is_pub NoReplicasErr" "\<not> is_pub MasterDownErr" "\<not> is_pub LoadingErr" "\<not> is_pub (Error b)"
  by (simp_all add: is_pub_def)

text \<open>The last step of a command: a reply, after a counted change or not.\<close>

lemma does_reply:
  assumes "tr s K' M E (np s) D s'" "\<not> is_pub r" "rr = (vw (mstime s) E, [r])" "dirty s \<le> D" "K' \<subseteq> K"
    "vw (mstime s) E \<noteq> vw (mstime s) (entry s) \<Longrightarrow> dirty s < D"
  shows "does K s c rr (addReply c r s')"
  by (rule doesI [OF tr_weaken [OF tr_addReply [OF assms(1,2)] assms(5) subset_refl]]) (use assms(3,4,6) in simp_all)

lemma does_change:
  assumes "tr s K' M E (np s) D s'" "\<not> is_pub r" "rr = (vw (mstime s) E, [r])" "dirty s \<le> D" "K' \<subseteq> K"
  shows "does K s c rr (addReply c r (incr_dirty 1 s'))"
  by (rule does_reply [OF tr_incr_dirty [OF assms(1)]]) (use assms(2-5) in simp_all)

text \<open>Signalling a modified key, notification and reply.\<close>

lemma finish_wp:
  assumes "tr s K M E (np s) D s'" "K \<subseteq> {(i, k)}" "\<not> is_pub r" "rr = (vw (mstime s) E, [r])" "dirty s \<le> D"
  shows "wp (notifyKeyspaceEvent t e k i (signalModifiedKey i k s')) (\<lambda>s6. does {} s c rr (addReply c r (incr_dirty 1 s6)))"
  by (rule notify_wp [OF tr_touch [OF assms(1)]], erule does_change) (use assms(2-5) in auto)

end
