(* ===== verification/String_Refine.thy ===== *)
theory String_Refine
  imports Key_Spec
begin

unbundle bit_operations_syntax

text \<open>
  The string commands implement their specifications (on a master, within a command).
\<close>

lemma getGeneric_wp:
  assumes "ctx s" "\<And>s' E. tr s {} {} E ((np s)(c := np s c @ [get_reply (vw (mstime s) (entry s) (cdb (clients s c)) k)])) (dirty s) s' \<Longrightarrow>
      vw (mstime s) E = vw (mstime s) (entry s) \<Longrightarrow>
      Q (s', get_reply (vw (mstime s) (entry s) (cdb (clients s c)) k) \<noteq> WrongTypeErr)"
  shows "wp (getGenericCommand c k s) Q"
  unfolding getGenericCommand_def lookupKeyReadOrReply_def lookupKeyRead_def wp_bind
proof (rule lookupKeyReadWithFlags_wp [OF tr_start [OF assms(1)]], goal_cases)
  case (1 s')
  then have "get_reply (vw (mstime s) (entry s) (cdb (clients s c)) k) = Null" by (simp add: get_reply_def)
  then show ?case using assms(2) tr_addReply [OF 1(2), of Null c] 1(1) by simp
next
  case (2 s' v t)
  then have "get_reply (vw (mstime s) (entry s) (cdb (clients s c)) k) = (if otype_of v = OBJ_STRING then Bulk (sval v) else WrongTypeErr)"
    by (simp add: get_reply_def vw_live)
  then show ?case
    using assms(2) tr_addReply [OF 2(4), of WrongTypeErr c] tr_addReply [OF 2(4), of "Bulk (sval v)" c] 2(3)
    by (cases "otype_of v = OBJ_STRING") (auto simp: addReplyBulk_def bulk_bytes_ok)
qed

lemma getCommand_does:
  assumes "ctx s"
  shows "wp (getCommand c k s) (does {} s c (on_db (cdb (clients s c)) (spec_get k) (vw (mstime s) (entry s))))"
  unfolding getCommand_def wp_bind
  by (rule getGeneric_wp [OF assms]) (auto simp: on_db_def spec_get_def intro: doesI)

lemma strlenCommand_does:
  assumes "ctx s"
  shows "wp (strlenCommand c k s) (does {} s c (on_db (cdb (clients s c)) (spec_strlen k) (vw (mstime s) (entry s))))"
  unfolding strlenCommand_def lookupKeyReadOrReply_def lookupKeyRead_def wp_bind
  by (rule lookupKeyReadWithFlags_wp [OF tr_start [OF assms]])
    (auto simp: on_db_def spec_strlen_def vw_live checkType_def stringObjectLen_ok intro: does_reply)

lemma setrange_new: "overwrite [] n v = replicate n 0 @ v"
  by (simp add: overwrite_def)

lemma getLongLong_arg:
  "getLongLongFromObjectOrReply c (Some (createStringObject a)) None s =
     Some (case string2ll a of None \<Rightarrow> (addReply c not_int s, None) | Some n \<Rightarrow> (s, Some n))"
  by (simp add: getLongLongFromObjectOrReply_def getLongLong_ok not_int_def split: option.split)

lemma int64_string2ll: "string2ll b = Some v \<Longrightarrow> int64 v"
  by (simp add: string2ll_canonical)

lemma getLong_arg:
  "getLongFromObjectOrReply c (Some (createStringObject a)) None s =
     Some (case string2ll a of None \<Rightarrow> (addReply c not_int s, None) | Some n \<Rightarrow> (s, Some n))"
  by (auto simp: getLongFromObjectOrReply_def getLongLong_arg dest: int64_string2ll split: option.split)
    (auto simp: int64_def dest: int64_string2ll)

lemma not_int_not_pub [simp]: "\<not> is_pub not_int" "\<not> is_pub too_long"
  by (simp_all add: not_int_def too_long_def)

lemma getrangeCommand_does:
  assumes "ctx s"
  shows "wp (getrangeCommand c k a b s) (does {} s c (on_db (cdb (clients s c)) (spec_getrange k a b) (vw (mstime s) (entry s))))"
proof (cases "string2ll a = None \<or> string2ll b = None")
  case True
  then show ?thesis
    by (auto simp: getrangeCommand_def getLongLong_arg on_db_def spec_getrange_def intro: does_reply [OF tr_start [OF assms]] split: option.split)
next
  case False
  then obtain x y where xy: "string2ll a = Some x" "string2ll b = Some y" by auto
  show ?thesis
    apply (simp add: getrangeCommand_def getLongLong_arg xy lookupKeyReadOrReply_def lookupKeyRead_def)
    apply (rule lookupKeyReadWithFlags_wp [OF tr_start [OF assms]])
     apply (auto simp: on_db_def spec_getrange_def xy vw_live checkType_def bulk_bytes_ok Let_def intro: does_reply)
    done
qed

lemma incr_check:
  assumes "int64 old" "int64 n"
  shows "((n < 0 \<and> old < 0 \<and> n < LLONG_MIN - old) \<or> (n > 0 \<and> old > 0 \<and> n > LLONG_MAX - old)) \<longleftrightarrow> \<not> int64 (old + n)"
  using assms unfolding int64_def by auto

lemma incrDecrCommand_does:
  assumes "ctx s" "int64 n"
  shows "wp (incrDecrCommand c k n s) (does {} s c (on_db (cdb (clients s c)) (spec_incr k n) (vw (mstime s) (entry s))))"
  unfolding incrDecrCommand_def Let_def wp_bind
proof (rule lookupKeyWrite_wp [OF tr_start [OF assms(1)]], goal_cases)
  case (1 s')
  have "wp (dbAdd (cdb (clients s c)) k (StrInt n) s')
     (\<lambda>s4. wp (notifyKeyspaceEvent NOTIFY_STRING ''incrby'' k (cdb (clients s c)) (signalModifiedKey (cdb (clients s c)) k s4))
       (\<lambda>s6. does {} s c (on_db (cdb (clients s c)) (spec_incr k n) (vw (mstime s) (entry s))) (addReply c (LongLong n) (incr_dirty 1 s6))))"
    by (rule dbAdd_wp [OF 1(2)], simp, simp add: assms, erule finish_wp)
      (use 1 assms in \<open>auto simp: on_db_def spec_incr_def ttl_of_def\<close>)
  moreover have "createStringObjectFromLongLong n = StrInt n" using assms(2) by (simp add: createStringObjectFromLongLong_def int64_def)
  ultimately show ?case
    using incr_check [of 0 n] assms(2) by (simp add: getLongLongFromObjectOrReply_def wrap64_id)
next
  case (2 v t)
  let ?i = "cdb (clients s c)" and ?V = "vw (mstime s) (entry s)"
  note start = tr_start [OF assms(1)]
  have V: "?V ?i k = Some (abs_obj v, t)" using 2 by (simp add: vw_live)
  consider "otype_of v \<noteq> OBJ_STRING" | "otype_of v = OBJ_STRING" "string2ll (sval v) = None"
    | old where "otype_of v = OBJ_STRING" "string2ll (sval v) = Some old" by fastforce
  then show ?case
  proof cases
    case 1
    then show ?thesis
      using does_reply [OF start, of WrongTypeErr "on_db ?i (spec_incr k n) ?V" "{}" c]
      by (simp add: checkType_def on_db_def spec_incr_def V)
  next
    case 2
    then show ?thesis
      using does_reply [OF start, of not_int "on_db ?i (spec_incr k n) ?V" "{}" c] \<open>obj_ok v\<close>
      by (simp add: checkType_def on_db_def spec_incr_def V getLongLongFromObjectOrReply_def getLongLong_ok not_int_def)
  next
    case (3 old)
    have o: "int64 old" using 3 by (simp add: int64_string2ll)
    show ?thesis
    proof (cases "int64 (old + n)")
      case False
      then show ?thesis
        using does_reply [OF start, of "Error (bstr ''increment or decrement would overflow'')" "on_db ?i (spec_incr k n) ?V" "{}" c]
          \<open>obj_ok v\<close> 3 incr_check [OF o assms(2)]
        by (simp add: checkType_def on_db_def spec_incr_def V getLongLongFromObjectOrReply_def getLongLong_ok)
    next
      case True
      have c: "createStringObjectFromLongLong (old + n) = StrInt (old + n)"
        using True by (simp add: createStringObjectFromLongLong_def int64_def)
      have "wp (dbOverwrite ?i k (StrInt (old + n)) s)
         (\<lambda>s4. wp (notifyKeyspaceEvent NOTIFY_STRING ''incrby'' k ?i (signalModifiedKey ?i k s4))
           (\<lambda>s6. does {} s c (on_db ?i (spec_incr k n) ?V) (addReply c (LongLong (old + n)) (incr_dirty 1 s6))))"
        by (rule dbOverwrite_wp [OF start], simp add: 2, simp add: True, erule finish_wp)
          (use 2 3 True in \<open>auto simp: on_db_def spec_incr_def ttl_of_def V\<close>)
      then show ?thesis
        using \<open>obj_ok v\<close> 3 True incr_check [OF o assms(2)]
        by (auto simp: checkType_def getLongLongFromObjectOrReply_def getLongLong_ok wrap64_id c)
    qed
  qed
qed

lemma tryEncode_arg:
  obtains w where "tryObjectEncoding (createStringObject b) = Some w" "otype_of w = OBJ_STRING" "obj_ok w" "sval w = b"
  using tryEncode [of "createStringObject b"] by auto

lemma lookupKeyWrite_vw:
  assumes t: "tr s0 K M E R D s"
    and q: "\<And>s' E' v. tr s0 K M E' R D s' \<Longrightarrow> vw (mstime s0) E' = vw (mstime s0) E \<Longrightarrow> (v = None \<longleftrightarrow> vw (mstime s0) E i k = None) \<Longrightarrow> Q (s', v)"
  shows "wp (lookupKeyWrite i k s) Q"
proof (rule lookupKeyWrite_wp [OF t], goal_cases)
  case (1 s')
  show ?case by (rule q [OF 1(2)]) (use 1(1) in simp_all)
next
  case (2 v t')
  show ?case by (rule q [OF t]) (use 2 in \<open>simp_all add: vw_live\<close>)
qed

lemma set_denied_wp:
  assumes t: "tr s0 {} {} E R D s"
    and q: "\<And>s' E'. tr s0 {} {} E' R D s' \<Longrightarrow> vw (mstime s0) E' = vw (mstime s0) E \<Longrightarrow>
       Q (s', (has_flag fl OBJ_SET_NX \<and> vw (mstime s0) E i k \<noteq> None) \<or> (has_flag fl OBJ_SET_XX \<and> vw (mstime s0) E i k = None))"
  shows "wp (set_denied i fl k s) Q"
proof -
  have xx: "wp (if nx then Some (s1, True) else if has_flag fl OBJ_SET_XX
       then lookupKeyWrite i k s1 \<bind> (\<lambda>(s2, obj). Some (s2, obj = None)) else Some (s1, False)) Q"
    if "tr s0 {} {} E' R D s1" "vw (mstime s0) E' = vw (mstime s0) E"
      "nx = (has_flag fl OBJ_SET_NX \<and> vw (mstime s0) E i k \<noteq> None)" for s1 E' nx
  proof (cases "\<not> nx \<and> has_flag fl OBJ_SET_XX")
    case True
    have "wp (lookupKeyWrite i k s1) (\<lambda>x. Q (fst x, snd x = None))"
      by (rule lookupKeyWrite_vw [OF that(1)]) (use that True q in auto)
    then show ?thesis using True by (simp add: split_beta)
  qed (use that q in auto)
  show ?thesis
  proof (cases "has_flag fl OBJ_SET_NX")
    case True
    show ?thesis
      unfolding set_denied_def
      apply (simp only: True if_True wp_bind)
      apply (rule lookupKeyWrite_vw [OF t])
      apply (simp only: prod.case wp_simps)
      apply (erule xx; use True in simp)
      done
  next
    case False
    then show ?thesis using xx [OF t refl, of False] by (simp add: set_denied_def)
  qed
qed

lemma ttl_of_vw: "ttl_of (vw now E i k) = (if live_at now (E i k) then snd (E i k) else None)"
  by (auto simp: ttl_of_def vw_def vent_def live_at_def split: prod.split option.split)

text \<open>The part of \<open>setGenericCommand\<close> after the conditions have been checked.\<close>

definition set_write :: "nat \<Rightarrow> nat \<Rightarrow> u64 \<Rightarrow> bytes \<Rightarrow> robj \<Rightarrow> int option \<Rightarrow> reply \<Rightarrow> server \<Rightarrow> server option" where
  "set_write c i fl k v ms ok s2 = do {
     s3 \<leftarrow> genericSetKey i k v (has_flag fl OBJ_SET_KEEPTTL) True s2;
     let s4 = incr_dirty 1 s3;
     s5 \<leftarrow> (case ms of None \<Rightarrow> Some s4 | Some m \<Rightarrow> setExpire c i k (wrap64 (clock s4 + m)) s4);
     s6 \<leftarrow> notifyKeyspaceEvent NOTIFY_STRING ''set'' k i s5;
     s7 \<leftarrow> (case ms of None \<Rightarrow> Some s6 | Some m \<Rightarrow> notifyKeyspaceEvent NOTIFY_GENERIC ''expire'' k i s6);
     Some (addReply c ok s7)
   }"

lemma set_write_wp:
  assumes t: "tr s {} {} E (np s) (dirty s) s2" and v: "obj_ok v" "otype_of v = OBJ_STRING" and r: "\<not> is_pub ok"
    and rr: "rr = ((vw (mstime s) E)(i := put (mstime s) k (AStr (sval v))
       (case ms of Some m \<Rightarrow> Some (wrap64 (mstime s + m)) | None \<Rightarrow> if has_flag fl OBJ_SET_KEEPTTL then ttl_of (vw (mstime s) E i k) else None)
       (vw (mstime s) E i)), [ok])"
  shows "wp (set_write c i fl k v ms ok s2) (does {} s c rr)"
  unfolding set_write_def wp_bind
proof (rule genericSetKey_wp [OF t v(1)], goal_cases)
  case (1 s3)
  note t4 = tr_incr_dirty [OF 1, of 1]
  have clk: "clock (incr_dirty 1 s3) = mstime s" using tr_server [OF t4] by simp
  have last: "does {} s c rr (addReply c ok s7)" if "tr s {} M E' (np s) (dirty s + 1) s7" "fst rr = vw (mstime s) E'" for s7 E' M
    by (rule does_reply [OF that(1) r]) (use that(2) rr in simp_all)
  show ?case
  proof (cases ms)
    case None
    have "wp (notifyKeyspaceEvent NOTIFY_STRING ''set'' k i (incr_dirty 1 s3)) (\<lambda>s6. does {} s c rr (addReply c ok s6))"
      by (rule notify_wp [OF t4], rule last) (use None v rr in \<open>auto simp: put_def ttl_of_vw\<close>)
    then show ?thesis by (simp add: None)
  next
    case (Some m)
    have "wp (setExpire c i k (wrap64 (mstime s + m)) (incr_dirty 1 s3)) (\<lambda>s5. wp (notifyKeyspaceEvent NOTIFY_STRING ''set'' k i s5)
        (\<lambda>s6. wp (notifyKeyspaceEvent NOTIFY_GENERIC ''expire'' k i s6) (\<lambda>s7. does {} s c rr (addReply c ok s7))))"
      by (rule setExpire_wp [OF t4], simp, erule notify_wp, erule notify_wp, rule last) (use Some v rr in \<open>auto simp: put_def\<close>)
    then show ?thesis by (simp add: Some clk)
  qed
qed

lemma setGeneric_split:
  assumes "set_expire_arg c ex u s = Some (s, Some ms)"
  shows "setGenericCommand c fl k v ex u ok ab s = do {
     (s2, den) \<leftarrow> set_denied (cdb (clients s c)) fl k s;
     if den then Some (addReply c (case ab of None \<Rightarrow> Null | Some r \<Rightarrow> r) s2)
     else set_write c (cdb (clients s c)) fl k v (if ex = None then None else Some ms) (case ok of None \<Rightarrow> Ok | Some r \<Rightarrow> r) s2
   }"
  by (cases ex) (use assms in \<open>simp_all add: setGenericCommand_def set_write_def split_beta Let_def cong: if_cong\<close>)

lemma set_put_wp:
  assumes "ctx s" "obj_ok v" "otype_of v = OBJ_STRING" "sval v = b" "set_expire_arg c ex u s = Some (s, Some ms)"
    "\<not> is_pub (case ok of None \<Rightarrow> Ok | Some r \<Rightarrow> r)" "\<not> is_pub (case ab of None \<Rightarrow> Null | Some r \<Rightarrow> r)"
  shows "wp (setGenericCommand c fl k v ex u ok ab s) (does {} s c (on_db (cdb (clients s c)) (spec_put_cond (mstime s) fl k b
     (if ex = None then None else Some (wrap64 (mstime s + ms))) (case ok of None \<Rightarrow> Ok | Some r \<Rightarrow> r)
     (case ab of None \<Rightarrow> Null | Some r \<Rightarrow> r)) (vw (mstime s) (entry s))))"
  unfolding setGeneric_split [OF assms(5)] wp_bind
proof (rule set_denied_wp [OF tr_start [OF assms(1)]], goal_cases)
  case (1 s2 E)
  show ?case
  proof (cases "(has_flag fl OBJ_SET_NX \<and> vw (mstime s) (entry s) (cdb (clients s c)) k \<noteq> None) \<or>
      (has_flag fl OBJ_SET_XX \<and> vw (mstime s) (entry s) (cdb (clients s c)) k = None)")
    case True
    let ?rr = "on_db (cdb (clients s c)) (spec_put_cond (mstime s) fl k b
       (if ex = None then None else Some (wrap64 (mstime s + ms))) (case ok of None \<Rightarrow> Ok | Some r \<Rightarrow> r)
       (case ab of None \<Rightarrow> Null | Some r \<Rightarrow> r)) (vw (mstime s) (entry s))"
    have "does {} s c ?rr (addReply c (case ab of None \<Rightarrow> Null | Some r \<Rightarrow> r) s2)"
      by (rule does_reply [OF 1(1) assms(7)]) (use 1(2) True in \<open>auto simp: on_db_def spec_put_cond_def\<close>)
    then show ?thesis using True by simp
  next
    case False
    let ?rr = "on_db (cdb (clients s c)) (spec_put_cond (mstime s) fl k b
       (if ex = None then None else Some (wrap64 (mstime s + ms))) (case ok of None \<Rightarrow> Ok | Some r \<Rightarrow> r)
       (case ab of None \<Rightarrow> Null | Some r \<Rightarrow> r)) (vw (mstime s) (entry s))"
    have "wp (set_write c (cdb (clients s c)) fl k v (if ex = None then None else Some ms) (case ok of None \<Rightarrow> Ok | Some r \<Rightarrow> r) s2) (does {} s c ?rr)"
      by (rule set_write_wp [OF 1(1) assms(2,3,6)]) (use 1(2) False assms(4) in \<open>auto simp: on_db_def spec_put_cond_def\<close>)
    then show ?thesis using False by auto
  qed
qed

lemma set_expire_arg_eq:
  "set_expire_arg c ex u s = Some (case ex of None \<Rightarrow> (s, Some 0) | Some e \<Rightarrow> (case string2ll e of
      None \<Rightarrow> (addReply c not_int s, None)
    | Some n \<Rightarrow> if n \<le> 0 then (addReply c (Error (bstr (''invalid expire time in '' @ cname (cmd (clients s c))))) s, None)
        else (s, Some (if u = UNIT_SECONDS then wrap64 (n * 1000) else n))))"
  by (simp add: set_expire_arg_def getLongLong_arg split: option.split)

lemma setGeneric_does:
  assumes "ctx s" "obj_ok v" "otype_of v = OBJ_STRING" "sval v = b"
    "\<not> is_pub (case ok of None \<Rightarrow> Ok | Some r \<Rightarrow> r)" "\<not> is_pub (case ab of None \<Rightarrow> Null | Some r \<Rightarrow> r)"
  shows "wp (setGenericCommand c fl k v ex u ok ab s) (does {} s c (on_db (cdb (clients s c)) (spec_set (mstime s) (cname (cmd (clients s c)))
     fl k b ex u (case ok of None \<Rightarrow> Ok | Some r \<Rightarrow> r) (case ab of None \<Rightarrow> Null | Some r \<Rightarrow> r)) (vw (mstime s) (entry s))))"
    (is "wp _ (does {} s c ?rr)")
proof -
  note put = set_put_wp [OF assms(1-4) _ assms(5,6), where ex = ex and u = u]
  have bad: "wp (setGenericCommand c fl k v ex u ok ab s) (does {} s c ?rr)"
    if "set_expire_arg c ex u s = Some (addReply c r s, None)" "\<not> is_pub r" "?rr = (vw (mstime s) (entry s), [r])" for r
    using does_reply [OF tr_start [OF assms(1)] that(2,3)] that(1) by (simp add: setGenericCommand_def)
  show ?thesis
  proof (cases ex)
    case None
    then show ?thesis using put [of c 0] by (simp add: set_expire_arg_eq spec_set_def on_db_def)
  next
    case (Some e)
    consider "string2ll e = None" | n where "string2ll e = Some n" "n \<le> 0" | n where "string2ll e = Some n" "\<not> n \<le> 0" by fastforce
    then show ?thesis
    proof cases
      case 1
      then show ?thesis by (intro bad [of not_int]) (simp_all add: Some set_expire_arg_eq spec_set_def on_db_def)
    next
      case 2
      then show ?thesis
        by (intro bad [of "Error (bstr (''invalid expire time in '' @ cname (cmd (clients s c))))"])
          (simp_all add: Some set_expire_arg_eq spec_set_def on_db_def)
    next
      case 3
      then show ?thesis using put [of c "if u = UNIT_SECONDS then wrap64 (n * 1000) else n"]
        by (simp add: Some set_expire_arg_eq spec_set_def on_db_def)
    qed
  qed
qed

lemma setCommand_does:
  assumes "ctx s"
  shows "wp (setCommand c k v opts s) (does {} s c (on_db (cdb (clients s c))
     (spec_setCommand (mstime s) (cname (cmd (clients s c))) k v opts) (vw (mstime s) (entry s))))"
proof (cases "set_options opts 0 None UNIT_SECONDS")
  case None
  then show ?thesis
    by (auto simp: setCommand_def spec_setCommand_def on_db_def intro: does_reply [OF tr_start [OF assms]])
next
  case (Some x)
  obtain fl ex u where x: "x = (fl, ex, u)" by (cases x)
  obtain w where w: "tryObjectEncoding (createStringObject v) = Some w" "otype_of w = OBJ_STRING" "obj_ok w" "sval w = v"
    by (rule tryEncode_arg)
  show ?thesis
    using setGeneric_does [OF assms w(3,2,4), of None None c fl k ex u] Some
    by (simp add: setCommand_def x w(1) spec_setCommand_def on_db_def)
qed

lemma setnxCommand_does:
  assumes "ctx s"
  shows "wp (setnxCommand c k v s) (does {} s c (on_db (cdb (clients s c))
     (spec_set (mstime s) [] OBJ_SET_NX k v None UNIT_SECONDS Cone Czero) (vw (mstime s) (entry s))))"
proof -
  obtain w where w: "tryObjectEncoding (createStringObject v) = Some w" "otype_of w = OBJ_STRING" "obj_ok w" "sval w = v"
    by (rule tryEncode_arg)
  show ?thesis
    using setGeneric_does [OF assms w(3,2,4), of "Some Cone" "Some Czero" c OBJ_SET_NX k None UNIT_SECONDS]
    by (simp add: setnxCommand_def w(1) spec_set_def on_db_def)
qed

lemma setexCommand_does:
  assumes "ctx s"
  shows "wp (setexCommand c k t v s) (does {} s c (on_db (cdb (clients s c))
       (spec_set (mstime s) (cname (cmd (clients s c))) 0 k v (Some t) UNIT_SECONDS Ok Null) (vw (mstime s) (entry s))))"
    and "wp (psetexCommand c k t v s) (does {} s c (on_db (cdb (clients s c))
       (spec_set (mstime s) (cname (cmd (clients s c))) 0 k v (Some t) UNIT_MILLISECONDS Ok Null) (vw (mstime s) (entry s))))"
proof -
  obtain w where w: "tryObjectEncoding (createStringObject v) = Some w" "otype_of w = OBJ_STRING" "obj_ok w" "sval w = v"
    by (rule tryEncode_arg)
  note set = setGeneric_does [OF assms w(3,2,4), of None None c 0 k "Some t"]
  show "wp (setexCommand c k t v s) (does {} s c (on_db (cdb (clients s c))
       (spec_set (mstime s) (cname (cmd (clients s c))) 0 k v (Some t) UNIT_SECONDS Ok Null) (vw (mstime s) (entry s))))"
    using set [of UNIT_SECONDS] by (simp add: setexCommand_def w(1))
  show "wp (psetexCommand c k t v s) (does {} s c (on_db (cdb (clients s c))
       (spec_set (mstime s) (cname (cmd (clients s c))) 0 k v (Some t) UNIT_MILLISECONDS Ok Null) (vw (mstime s) (entry s))))"
    using set [of UNIT_MILLISECONDS] by (simp add: psetexCommand_def w(1))
qed

lemma incrbyCommand_does:
  assumes "ctx s"
  shows "wp (incrbyCommand c k n s) (does {} s c (on_db (cdb (clients s c)) (spec_incrby k n) (vw (mstime s) (entry s))))"
    and "wp (decrbyCommand c k n s) (does {} s c (on_db (cdb (clients s c)) (spec_decrby k n) (vw (mstime s) (entry s))))"
  using incrDecrCommand_does [OF assms]
  by (auto simp: incrbyCommand_def decrbyCommand_def getLongLong_arg spec_incrby_def spec_decrby_def on_db_def int64_string2ll int64_wrap64
      intro: does_reply [OF tr_start [OF assms]] split: option.split)

lemma getsetCommand_does:
  assumes "ctx s"
  shows "wp (getsetCommand c k v s) (does {} s c (on_db (cdb (clients s c)) (spec_getset k v) (vw (mstime s) (entry s))))"
proof -
  obtain w where w: "tryObjectEncoding (createStringObject v) = Some w" "otype_of w = OBJ_STRING" "obj_ok w" "sval w = v"
    by (rule tryEncode_arg)
  let ?i = "cdb (clients s c)" and ?V = "vw (mstime s) (entry s)"
  let ?r = "get_reply (?V ?i k)" and ?rr = "on_db ?i (spec_getset k v) ?V"
  have set: "wp (setKey ?i k w s1) (\<lambda>s2. wp (notifyKeyspaceEvent NOTIFY_STRING ''set'' k (cdb (clients s2 c)) s2) (\<lambda>s3. does {} s c ?rr (incr_dirty 1 s3)))"
    if t: "tr s {} {} E ((np s)(c := np s c @ [?r])) (dirty s) s1" "vw (mstime s) E = ?V" "?r \<noteq> WrongTypeErr" for s1 E
    unfolding setKey_def
    by (rule genericSetKey_wp [OF t(1) w(3)], erule notify_wp, erule doesI [OF tr_weaken [OF tr_incr_dirty]])
      (use w(2,4) t(2,3) in \<open>auto simp: on_db_def spec_getset_def\<close>)
  show ?thesis
    unfolding getsetCommand_def wp_bind
  proof (rule getGeneric_wp [OF assms, where c = c], goal_cases)
    case (1 s1 E)
    have "does {} s c ?rr s1" if "?r = WrongTypeErr"
      by (rule doesI [OF 1(1)]) (use that 1(2) in \<open>auto simp: on_db_def spec_getset_def\<close>)
    then show ?case using set [OF 1] tr_client [OF 1(1), of c] by (auto simp: w(1))
  qed
qed

lemma dbUnshare_wp:
  assumes t: "tr s0 K M E R D s" and o: "fst (E i k) = Some v" "otype_of v = OBJ_STRING" "obj_ok v"
    and q: "\<And>s'. tr s0 (K \<union> ({(i, k)} - M)) M (upd E i k (Some (StrRaw (sval v)), snd (E i k))) R D s' \<Longrightarrow> Q (s', sval v)"
  shows "wp (dbUnshareStringValue i k v s) Q"
proof (cases "v = StrRaw (sval v)")
  case True
  then have "E i k = (Some (StrRaw (sval v)), snd (E i k))" using o(1) by (simp add: prod_eq_iff)
  then have "tr s0 (K \<union> ({(i, k)} - M)) M (upd E i k (Some (StrRaw (sval v)), snd (E i k))) R D s"
    using tr_weaken [OF t, of "K \<union> ({(i, k)} - M)" M] by simp
  then have "Q (s, sval v)" by (rule q)
  then show ?thesis using True by (cases v) (simp_all add: dbUnshareStringValue_def)
next
  case False
  have "wp (dbOverwrite i k (StrRaw (sval v)) s) (\<lambda>s1. Q (s1, sval v))"
    by (rule dbOverwrite_wp [OF t]) (use o(1) q in simp_all)
  then show ?thesis using False o by (cases v) (simp_all add: dbUnshareStringValue_def bulk_bytes_ok)
qed

lemma appendCommand_does:
  assumes "ctx s"
  shows "wp (appendCommand c k v s) (does {} s c (on_db (cdb (clients s c)) (spec_append k v) (vw (mstime s) (entry s))))"
  unfolding appendCommand_def Let_def wp_bind
proof (rule lookupKeyWrite_wp [OF tr_start [OF assms]], goal_cases)
  case (1 s')
  obtain w where w: "tryObjectEncoding (createStringObject v) = Some w" "otype_of w = OBJ_STRING" "obj_ok w" "sval w = v"
    by (rule tryEncode_arg)
  have "wp (dbAdd (cdb (clients s c)) k w s') (\<lambda>s2. wp (append_finish c (cdb (clients s c)) k (length v) s2)
      (does {} s c (on_db (cdb (clients s c)) (spec_append k v) (vw (mstime s) (entry s)))))"
    unfolding append_finish_def wp_bind wp_simps
    by (rule dbAdd_wp [OF 1(2) _ w(3)], simp, erule finish_wp) (use 1 w in \<open>auto simp: on_db_def spec_append_def\<close>)
  then show ?case by (simp add: w stringObjectLen_ok)
next
  case (2 x t)
  let ?i = "cdb (clients s c)" and ?V = "vw (mstime s) (entry s)"
  let ?rr = "on_db ?i (spec_append k v) ?V"
  note start = tr_start [OF assms]
  have V: "?V ?i k = Some (abs_obj x, t)" using 2 by (simp add: vw_live)
  have fin: "wp (append_finish c ?i k (length (sval x @ v)) (set_raw ?i k (sval x @ v) s4)) (does {} s c ?rr)"
    if "tr s K {} (upd (entry s) ?i k e) (np s) (dirty s) s4" "K \<subseteq> {(?i, k)}" "snd e = t" "otype_of x = OBJ_STRING"
      "\<not> length (sval x) + length v > 512 * 1024 * 1024" for s4 e K
    unfolding append_finish_def wp_bind wp_simps
    by (rule finish_wp [OF tr_set_raw [OF that(1)]]) (use that V 2(2) in \<open>auto simp: on_db_def spec_append_def\<close>)
  consider "otype_of x \<noteq> OBJ_STRING" | "otype_of x = OBJ_STRING" "length (sval x) + length v > 512 * 1024 * 1024"
    | "otype_of x = OBJ_STRING" "\<not> length (sval x) + length v > 512 * 1024 * 1024" by blast
  then show ?case
  proof cases
    case 1
    then show ?thesis using does_reply [OF start, of WrongTypeErr ?rr "{}" c] by (simp add: checkType_def on_db_def spec_append_def V)
  next
    case 2
    then have "checkStringLength c (int (length (sval x) + length v)) s = (addReply c too_long s, False)"
      by (simp add: checkStringLength_def too_long_def)
    then show ?thesis
      using does_reply [OF start, of too_long ?rr "{}" c] 2 by (simp add: checkType_def on_db_def spec_append_def V stringObjectLen_ok)
  next
    case 3
    then have "checkStringLength c (int (length (sval x) + length v)) s = (s, True)" by (simp add: checkStringLength_def)
    moreover have "wp (dbUnshareStringValue ?i k x s) (\<lambda>(s4, b). wp (append_finish c ?i k (length (b @ v)) (set_raw ?i k (b @ v) s4)) (does {} s c ?rr))"
      by (rule dbUnshare_wp [OF start _ 3(1) \<open>obj_ok x\<close>], simp add: 2, unfold prod.case, erule fin) (use 2 3 in auto)
    ultimately show ?thesis using 3(1) by (simp add: checkType_def stringObjectLen_ok case_prod_beta')
  qed
qed

lemma write_range_eq:
  assumes "0 \<le> n" "n + int (length v) \<le> LLONG_MAX"
  shows "write_range b n v = Some (overwrite b (nat n) v)"
proof -
  have a: "sds_alloc (n + int (length v)) = Some ()" using assms by (simp add: sds_alloc_def serverAssert_def)
  have g: "take (nat n) (b @ replicate (nat n + length v - length b) 0) = take (nat n) b @ replicate (nat n - length b) 0"
    by (auto simp: min_def)
  show ?thesis
    by (auto simp: write_range_def a Let_def buf_write_def overwrite_def g)
qed

definition setrange_safe :: "bytes \<Rightarrow> bytes \<Rightarrow> bool" where
  "setrange_safe off v = (case string2ll off of None \<Rightarrow> True | Some n \<Rightarrow> n + int (length v) \<le> LLONG_MAX)"

text \<open>The rest of \<open>setrangeCommand\<close> once the string to write to is there.\<close>

definition setrange_write :: "nat \<Rightarrow> bytes \<Rightarrow> int \<Rightarrow> bytes \<Rightarrow> server \<times> bytes option \<Rightarrow> server option" where
  "setrange_write c k n v x = (case x of
      (s2, None) \<Rightarrow> Some s2
    | (s2, Some b) \<Rightarrow> do {
        let i = cdb (clients s2 c);
        b' \<leftarrow> write_range b n v;
        let s3 = signalModifiedKey i k (set_raw i k b' s2);
        s4 \<leftarrow> notifyKeyspaceEvent NOTIFY_STRING ''setrange'' k i s3;
        Some (addReply c (LongLong (int (length b'))) (incr_dirty 1 s4))
      })"

lemma setrange_write_wp:
  assumes "tr s K {} E (np s) (dirty s) s2" "K \<subseteq> {(cdb (clients s c), k)}" "0 \<le> n" "n + int (length v) \<le> LLONG_MAX"
    "\<not> expired_at (mstime s) (snd (E (cdb (clients s c)) k))"
    "rr = ((vw (mstime s) E)(cdb (clients s c) := (vw (mstime s) E (cdb (clients s c)))
       (k \<mapsto> (AStr (overwrite b (nat n) v), snd (E (cdb (clients s c)) k)))), [LongLong (int (length (overwrite b (nat n) v)))])"
  shows "wp (setrange_write c k n v (s2, Some b)) (does {} s c rr)"
  unfolding setrange_write_def Let_def prod.case option.case write_range_eq [OF assms(3,4)] wp_bind wp_simps tr_client(1) [OF assms(1), of c]
  by (rule finish_wp [OF tr_set_raw [OF assms(1)]]) (use assms(2,5,6) in auto)

lemma setrangeCommand_does:
  assumes "ctx s" "setrange_safe off v"
  shows "wp (setrangeCommand c k off v s) (does {} s c (on_db (cdb (clients s c)) (spec_setrange k off v) (vw (mstime s) (entry s))))"
    (is "wp _ (does {} s c ?rr)")
proof (cases "\<exists>n. string2ll off = Some n \<and> 0 \<le> n")
  case False
  then show ?thesis
    by (auto simp: setrangeCommand_def getLong_arg on_db_def spec_setrange_def intro: does_reply [OF tr_start [OF assms(1)]] split: option.split)
next
  case True
  then obtain n where n: "string2ll off = Some n" "0 \<le> n" by blast
  let ?i = "cdb (clients s c)" and ?V = "vw (mstime s) (entry s)"
  note start = tr_start [OF assms(1)]
  have l: "n + int (length v) \<le> LLONG_MAX" using assms(2) n by (simp add: setrange_safe_def)
  have wr: "wrap64 (n + int (length v)) = n + int (length v)" using l n by (intro wrap64_id) (simp add: int64_def)
  have al: "sds_alloc (n + int (length v)) = Some ()" using n l by (simp add: sds_alloc_def serverAssert_def)
  have chk: "checkStringLength c (n + int (length v)) s' =
      (if n + int (length v) > 512 * 1024 * 1024 then (addReply c too_long s', False) else (s', True))" for s'
    by (simp add: checkStringLength_def too_long_def)
  have split: "setrangeCommand c k off v s = setrange_target c k n v s \<bind> setrange_write c k n v"
    using n by (simp add: setrangeCommand_def getLong_arg setrange_write_def [abs_def] Let_def case_prod_beta')
  show ?thesis
    unfolding split wp_bind setrange_target_def Let_def
  proof (rule lookupKeyWrite_wp [OF start], goal_cases)
    case (1 s')
    have V: "?V ?i k = None" using 1 by simp
    consider "v = []" | "v \<noteq> []" "n + int (length v) > 512 * 1024 * 1024" | "v \<noteq> []" "\<not> n + int (length v) > 512 * 1024 * 1024" by blast
    then show ?case
    proof cases
      case a: 1
      then show ?thesis
        using does_reply [OF 1(2), of Czero ?rr "{}" c] 1(1) n by (simp add: setrange_write_def on_db_def spec_setrange_def V Let_def)
    next
      case a: 2
      then show ?thesis
        using does_reply [OF 1(2), of too_long ?rr "{}" c] 1(1) n
        by (simp add: setrange_write_def on_db_def spec_setrange_def V Let_def wr chk)
    next
      case a: 3
      have "wp (dbAdd ?i k (StrRaw (replicate (nat n + length v) 0)) s')
          (\<lambda>s3. wp (setrange_write c k n v (s3, Some (replicate (nat n + length v) 0))) (does {} s c ?rr))"
        by (rule dbAdd_wp [OF 1(2)], simp, simp, erule setrange_write_wp)
          (use a n l 1(1) V in \<open>auto simp: on_db_def spec_setrange_def ttl_of_def Let_def overwrite_def fun_eq_iff\<close>)
      then show ?thesis using a by (simp add: wr chk al)
    qed
  next
    case (2 x t)
    have V: "?V ?i k = Some (abs_obj x, t)" using 2 by (simp add: vw_live)
    consider "otype_of x \<noteq> OBJ_STRING" | "otype_of x = OBJ_STRING" "v = []"
      | "otype_of x = OBJ_STRING" "v \<noteq> []" "n + int (length v) > 512 * 1024 * 1024"
      | "otype_of x = OBJ_STRING" "v \<noteq> []" "\<not> n + int (length v) > 512 * 1024 * 1024" by blast
    then show ?case
    proof cases
      case a: 1
      then show ?thesis
        using does_reply [OF start, of WrongTypeErr ?rr "{}" c] n
        by (simp add: setrange_write_def on_db_def spec_setrange_def V checkType_def)
    next
      case a: 2
      then show ?thesis
        using does_reply [OF start, of "LongLong (int (length (sval x)))" ?rr "{}" c] n
        by (simp add: setrange_write_def on_db_def spec_setrange_def V checkType_def stringObjectLen_ok Let_def)
    next
      case a: 3
      then show ?thesis
        using does_reply [OF start, of too_long ?rr "{}" c] n
        by (simp add: setrange_write_def on_db_def spec_setrange_def V checkType_def stringObjectLen_ok Let_def wr chk)
    next
      case a: 4
      have "wp (dbUnshareStringValue ?i k x s) (\<lambda>y. wp (setrange_write c k n v (fst y, Some (snd y))) (does {} s c ?rr))"
        by (rule dbUnshare_wp [OF start _ a(1) \<open>obj_ok x\<close>], simp add: 2, unfold fst_conv snd_conv, erule setrange_write_wp)
          (use a n l 2 V in \<open>auto simp: on_db_def spec_setrange_def ttl_of_def Let_def fun_eq_iff\<close>)
      then show ?thesis using a by (simp add: wr chk checkType_def stringObjectLen_ok case_prod_beta')
    qed
  qed
qed

text \<open>MGET and MSET, by induction on the arguments.\<close>

definition mget_reply :: "(aval \<times> int option) option \<Rightarrow> reply" where
  "mget_reply x = (case x of Some (AStr b, t) \<Rightarrow> Bulk b | _ \<Rightarrow> Null)"

lemma mget_one_wp:
  assumes t: "tr s0 K M E R D s"
    and q: "\<And>s' E'. tr s0 K M E' (R(c := R c @ [mget_reply (vw (mstime s0) E i k)])) D s' \<Longrightarrow> vw (mstime s0) E' = vw (mstime s0) E \<Longrightarrow> Q s'"
  shows "wp (lookupKeyRead i k s) (\<lambda>(s1, obj). wp (case obj of
      None \<Rightarrow> Some (addReply c Null s1)
    | Some val \<Rightarrow> if otype_of val \<noteq> OBJ_STRING then Some (addReply c Null s1) else addReplyBulk c val s1) Q)"
  unfolding lookupKeyRead_def
proof (rule lookupKeyReadWithFlags_wp [OF t], goal_cases)
  case (1 s')
  then have "mget_reply (vw (mstime s0) E i k) = Null" by (simp add: mget_reply_def)
  then show ?case using tr_addReply [OF 1(2), of Null c] q 1(1) by simp
next
  case (2 s' v t')
  have "mget_reply (vw (mstime s0) E i k) = (if otype_of v = OBJ_STRING then Bulk (sval v) else Null)"
    using 2 by (simp add: mget_reply_def vw_live)
  then show ?case
    using tr_addReply [OF 2(4), of Null c] tr_addReply [OF 2(4), of "Bulk (sval v)" c] q 2(3)
    by (cases "otype_of v = OBJ_STRING") (auto simp: addReplyBulk_def bulk_bytes_ok)
qed

lemma mget_loop_wp:
  assumes "tr s0 K M E R D s" "i = cdb (clients s0 c)"
    "\<And>s' E'. tr s0 K M E' (R(c := R c @ map (\<lambda>k. mget_reply (vw (mstime s0) E i k)) ks)) D s' \<Longrightarrow> vw (mstime s0) E' = vw (mstime s0) E \<Longrightarrow> Q s'"
  shows "wp (mget_loop c ks s) Q"
  using assms
proof (induction ks arbitrary: s E R)
  case (Cons k ks)
  show ?case
    unfolding mget_loop.simps wp_bind tr_client(1) [OF Cons.prems(1)]
  proof (unfold case_prod_beta' wp_bind, rule mget_one_wp [OF Cons.prems(1), unfolded case_prod_beta'], goal_cases)
    case (1 s' E')
    show ?case
    proof (rule Cons.IH [OF 1(1) Cons.prems(2)], goal_cases)
      case a: (1 E'' s'')
      have "f(c := f c @ [x], c := (f(c := f c @ [x])) c @ xs) = f(c := f c @ x # xs)" for f :: "nat \<Rightarrow> reply list" and x xs
        by (rule ext) simp
      then show ?case
        using Cons.prems(3) [of E'' s''] a 1(2) Cons.prems(2) by (simp del: fun_upd_apply)
    qed
  qed
qed simp

lemma mgetCommand_does:
  assumes "ctx s"
  shows "wp (mgetCommand c ks s) (does {} s c (on_db (cdb (clients s c)) (spec_mget ks) (vw (mstime s) (entry s))))"
  unfolding mgetCommand_def
  by (rule mget_loop_wp [OF tr_addReply [OF tr_start [OF assms]] refl], simp, erule doesI)
    (auto simp: on_db_def spec_mget_def mget_reply_def [abs_def])

lemma mset_exists_wp:
  assumes "tr s0 K M E R D s"
    "\<And>s' E'. tr s0 K M E' R D s' \<Longrightarrow> vw (mstime s0) E' = vw (mstime s0) E \<Longrightarrow> Q (s', any_key kvs (vw (mstime s0) E i))"
  shows "wp (mset_exists i kvs s) Q"
  using assms
proof (induction kvs arbitrary: s E rule: induct_list012)
  case (3 k v kvs)
  show ?case
    unfolding mset_exists.simps wp_bind
  proof (rule lookupKeyWrite_vw [OF 3(3)], goal_cases)
    case a: (1 s' E' x)
    show ?case
    proof (cases "x = None")
      case True
      have "wp (mset_exists i kvs s') Q"
        by (rule 3(1) [OF a(1)]) (use a True 3(4) in auto)
      then show ?thesis using True by simp
    next
      case False
      then show ?thesis using a 3(4) [OF a(1,2)] by auto
    qed
  qed
qed auto

lemma mset_loop_wp:
  assumes "tr s0 {} M E R D s"
    "\<And>s' M' E'. tr s0 {} M' E' R D s' \<Longrightarrow> vw (mstime s0) E' = (vw (mstime s0) E)(i := put_all kvs (vw (mstime s0) E i)) \<Longrightarrow> Q s'"
  shows "wp (mset_loop i kvs s) Q"
  using assms
proof (induction kvs arbitrary: s M E rule: induct_list012)
  case (3 k v kvs)
  obtain w where w: "tryObjectEncoding (createStringObject v) = Some w" "otype_of w = OBJ_STRING" "obj_ok w" "sval w = v"
    by (rule tryEncode_arg)
  have "wp (setKey i k w s) (\<lambda>s1. wp (notifyKeyspaceEvent NOTIFY_STRING ''set'' k i s1) (\<lambda>s2. wp (mset_loop i kvs s2) Q))"
    unfolding setKey_def
  proof (rule genericSetKey_wp [OF 3(3) w(3)], erule notify_wp, goal_cases)
    case a: (1 s1 s2)
    then have "tr s0 {} (insert (i, k) M) (upd E i k (Some w, None)) R D s2" by simp
    then show ?case by (rule 3(1)) (use 3(4) w(2,4) in \<open>simp add: fun_upd_same del: fun_upd_apply upd_apply\<close>)
  qed
  then show ?case by (simp add: w(1))
qed auto

lemma msetGenericCommand_does:
  assumes "ctx s"
  shows "wp (msetGenericCommand c kvs nx s) (does {} s c (on_db (cdb (clients s c)) (spec_mset kvs nx) (vw (mstime s) (entry s))))"
proof (cases "odd (length kvs)")
  case True
  then show ?thesis
    by (auto simp: msetGenericCommand_def on_db_def spec_mset_def intro: does_reply [OF tr_start [OF assms]])
next
  case False
  let ?i = "cdb (clients s c)" and ?V = "vw (mstime s) (entry s)"
  let ?rr = "on_db ?i (spec_mset kvs nx) ?V"
  note start = tr_start [OF assms]
  have wr: "wp (mset_loop ?i kvs s1) (\<lambda>s2. does {} s c ?rr (addReply c (if nx then Cone else Ok) (incr_dirty (int (length kvs div 2)) s2)))"
    if t: "tr s {} {} E (np s) (dirty s) s1" "vw (mstime s) E = ?V" "\<not> (nx \<and> any_key kvs (?V ?i))" for s1 E
  proof (rule mset_loop_wp [OF t(1)], goal_cases)
    case (1 s2 M E')
    have "kvs = [] \<longleftrightarrow> length kvs div 2 = 0" using False by (auto elim: evenE)
    then show ?case
      by (intro does_reply [OF tr_incr_dirty [OF 1(1)]]) (use 1(2) t(2,3) False in \<open>auto simp: on_db_def spec_mset_def\<close>)
  qed
  show ?thesis
  proof (cases nx)
    case n: False
    then show ?thesis using wr [OF start refl] False by (simp add: msetGenericCommand_def)
  next
    case n: True
    have "wp (mset_exists ?i kvs s) (\<lambda>x. wp (if snd x then Some (addReply c Czero (fst x)) else do {
        s2 \<leftarrow> mset_loop ?i kvs (fst x);
        Some (addReply c Cone (incr_dirty (int (length kvs div 2)) s2)) }) (does {} s c ?rr))"
    proof (rule mset_exists_wp [OF start], goal_cases)
      case (1 s1 E)
      show ?case
      proof (cases "any_key kvs (?V ?i)")
        case True
        then show ?thesis
          using does_reply [OF 1(1), of Czero ?rr "{}" c] 1(2) False n by (simp add: on_db_def spec_mset_def)
      qed (use wr [OF 1] n in simp)
    qed
    then show ?thesis using False n by (simp add: msetGenericCommand_def Let_def case_prod_beta')
  qed
qed

end
