(* ===== verification/Key_Refine.thy ===== *)
theory Key_Refine
  imports String_Refine
begin

unbundle bit_operations_syntax

text \<open>
  The commands on keys and expire times implement their specifications (on a master, within a
  command).
\<close>

subsection \<open>Deleting and testing keys\<close>

lemma expireIfNeeded_vw:
  assumes t: "tr s0 K M E R D s"
    and q: "\<And>s' E' e. tr s0 K M E' R D s' \<Longrightarrow> vw (mstime s0) E' = vw (mstime s0) E \<Longrightarrow>
      (fst (E' i k) \<noteq> None \<longleftrightarrow> vw (mstime s0) E i k \<noteq> None) \<Longrightarrow> Q (s', e)"
  shows "wp (expireIfNeeded i k s) Q"
proof (rule expireIfNeeded_wp [OF t], goal_cases)
  case (1 s')
  have "\<not> live_at (mstime s0) (E i k)" using 1(1) by (simp add: live_at_def)
  then show ?case by (intro q [OF 1(2)]) simp_all
next
  case 2
  show ?case
    by (rule q [OF t refl]) (use 2 in \<open>auto simp: vw_def vent_def split: prod.split option.split\<close>)
qed

lemma tr_delete_none:
  assumes t: "tr s0 K M E R D s" and n: "fst (E i k) = None"
  shows "tr s0 K M E R D (fst (dbGenericDelete lazy i k s))"
proof (rule tr_misc [OF t])
  have m: "map_of (kv (db s i)) k = None" "expires (db s i) k = None"
    using n tr_ent [OF t, of i k] by (auto simp: ent_ok_def)
  then have d: "AList.delete k (kv (db s i)) = kv (db s i)" by (intro delete_id) (simp add: map_of_eq_None_iff)
  have e: "fst (dbGenericDelete lazy i k s) = upd_db i (\<lambda>x. x\<lparr>expires := (expires x)(k := None), kv := AList.delete k (kv x)\<rparr>) s"
    using m(1) d by (simp add: dbGenericDelete_def dbAsyncDelete_def dbSyncDelete_def upd_db_def)
  show "kv (db (fst (dbGenericDelete lazy i k s)) j) = kv (db s j) \<and> expires (db (fst (dbGenericDelete lazy i k s)) j) = expires (db s j) \<and>
      wkeys (db (fst (dbGenericDelete lazy i k s)) j) = wkeys (db s j)" for j
    using m(2) d by (auto simp: e fun_eq_iff)
  show "R = np (fst (dbGenericDelete lazy i k s))" "D = dirty (fst (dbGenericDelete lazy i k s))"
    using tr_np [OF t] by (simp_all add: e np_def upd_db_other fun_eq_iff)
qed (simp_all add: dbGenericDelete_def dbAsyncDelete_def dbSyncDelete_def upd_db_other Let_def split: option.split)

text \<open>One turn of the loop.\<close>

lemma del_one_wp:
  assumes t: "tr s0 {} M E R D s"
    and q: "\<And>s' M' E'. tr s0 {} M' E' R (D + (if vw (mstime s0) E i k = None then 0 else 1)) s' \<Longrightarrow>
       vw (mstime s0) E' = (vw (mstime s0) E)(i := (vw (mstime s0) E i)(k := None)) \<Longrightarrow> Q s' (vw (mstime s0) E i k \<noteq> None)"
  shows "wp (expireIfNeeded i k s) (\<lambda>x. wp (if snd (dbGenericDelete lazy i k (fst x))
     then map_option (incr_dirty 1) (notifyKeyspaceEvent NOTIFY_GENERIC ''del'' k i (signalModifiedKey i k (fst (dbGenericDelete lazy i k (fst x)))))
     else Some (fst (dbGenericDelete lazy i k (fst x)))) (\<lambda>s3. Q s3 (snd (dbGenericDelete lazy i k (fst x)))))"
proof (rule expireIfNeeded_vw [OF t], goal_cases)
  case (1 s1 E1 e)
  show ?case
  proof (cases "fst (E1 i k) = None")
    case True
    have v: "vw (mstime s0) E i k = None" using 1(3) True by blast
    have "Q (fst (dbGenericDelete lazy i k s1)) (vw (mstime s0) E i k \<noteq> None)"
      using q [of M E1 "fst (dbGenericDelete lazy i k s1)"] tr_delete_none [OF 1(1) True] 1(2) v by simp
    then show ?thesis using True v tr_delete(2) [OF 1(1)] by simp
  next
    case False
    have "wp (notifyKeyspaceEvent NOTIFY_GENERIC ''del'' k i (signalModifiedKey i k (fst (dbGenericDelete lazy i k s1))))
        (\<lambda>s3. Q (incr_dirty 1 s3) (vw (mstime s0) E i k \<noteq> None))"
    proof (rule notify_wp [OF tr_touch [OF tr_delete(1) [OF 1(1)]]], goal_cases)
      case a: (1 s3)
      have "tr s0 {} M (upd E1 i k (None, None)) R (D + 1) (incr_dirty 1 s3)"
        by (rule tr_weaken [OF tr_incr_dirty [OF a]]) auto
      then show ?case using q [of M "upd E1 i k (None, None)" "incr_dirty 1 s3"] 1 False by auto
    qed
    then show ?thesis using False 1(3) tr_delete(2) [OF 1(1)] by auto
  qed
qed

lemma count_remdups: "length (filter P (remdups xs)) = card (set xs \<inter> {x. P x})"
  using distinct_card [of "filter P (remdups xs)"] by (simp add: Int_def)

lemma count_del:
  "length (filter (\<lambda>x. m x \<noteq> None) (remdups (k # ks))) =
     (if m k = None then 0 else 1) + length (filter (\<lambda>x. (m(k := None)) x \<noteq> None) (remdups ks))"
proof -
  have "set (k # ks) \<inter> {x. m x \<noteq> None} =
     (if m k = None then {} else {k}) \<union> (set ks \<inter> {x. (m(k := None)) x \<noteq> None})" by auto
  moreover have "k \<notin> set ks \<inter> {x. (m(k := None)) x \<noteq> None}" by simp
  ultimately show ?thesis unfolding count_remdups by simp
qed

lemma del_loop_wp:
  assumes "tr s0 {} M E R D s"
    "\<And>s' M' E' n. tr s0 {} M' E' R (D + int n) s' \<Longrightarrow>
       vw (mstime s0) E' = (vw (mstime s0) E)(i := \<lambda>k. if k \<in> set ks then None else vw (mstime s0) E i k) \<Longrightarrow>
       n = length (filter (\<lambda>k. vw (mstime s0) E i k \<noteq> None) (remdups ks)) \<Longrightarrow> Q (s', n)"
  shows "wp (del_loop i lazy ks s) Q"
  using assms
proof (induction ks arbitrary: s M E D Q)
  case (Cons k ks)
  let ?V = "vw (mstime s0) E"
  show ?case
    unfolding del_loop.simps wp_bind case_prod_beta' Let_def wp_simps
  proof (rule del_one_wp [OF Cons.prems(1), where Q = "\<lambda>s3 d. wp (del_loop i lazy ks s3) (\<lambda>x. Q (fst x, (if d then 1 else 0) + snd x))"], goal_cases)
    case (1 s' M' E')
    show ?case
    proof (rule Cons.IH [OF 1(1)], goal_cases)
      case a: (1 M'' E'' n s'')
      have e: "vw (mstime s0) E'' = ?V(i := \<lambda>x. if x \<in> set (k # ks) then None else ?V i x)"
        unfolding a(2) 1(2) by (auto simp: fun_eq_iff)
      have n: "(if ?V i k \<noteq> None then 1 else 0) + n = length (filter (\<lambda>x. ?V i x \<noteq> None) (remdups (k # ks)))"
        unfolding count_del a(3) 1(2) fun_upd_same by simp
      have d: "D + (if ?V i k = None then 0 else 1) + int n = D + int ((if ?V i k \<noteq> None then 1 else 0) + n)" by simp
      show ?case unfolding fst_conv snd_conv by (rule Cons.prems(2) [OF a(1) [unfolded d] e n])
    qed
  qed
qed simp

lemma delGenericCommand_does:
  assumes "ctx s"
  shows "wp (delGenericCommand c lazy ks s) (does {} s c (on_db (cdb (clients s c)) (spec_del ks) (vw (mstime s) (entry s))))"
  unfolding delGenericCommand_def wp_bind
proof (rule del_loop_wp [OF tr_start [OF assms]], goal_cases)
  case (1 s' M E n)
  have same: "n = 0 \<Longrightarrow> (vw (mstime s) (entry s))(cdb (clients s c) := \<lambda>k. if k \<in> set ks then None else vw (mstime s) (entry s) (cdb (clients s c)) k)
      = vw (mstime s) (entry s)"
    using 1(3) by (auto simp: fun_eq_iff filter_empty_conv simp del: not_None_eq)
  show ?case
    by (simp, rule does_reply [OF 1(1)]) (use 1(2,3) same in \<open>auto simp: on_db_def spec_del_def\<close>)
qed

lemma exists_loop_wp:
  assumes "tr s0 K M E R D s"
    "\<And>s' E'. tr s0 K M E' R D s' \<Longrightarrow> vw (mstime s0) E' = vw (mstime s0) E \<Longrightarrow> Q (s', length (filter (\<lambda>k. vw (mstime s0) E i k \<noteq> None) ks))"
  shows "wp (exists_loop i ks s) Q"
  using assms
proof (induction ks arbitrary: s E Q)
  case (Cons k ks)
  show ?case
    unfolding exists_loop.simps lookupKeyRead_def wp_bind
  proof (rule lookupKeyReadWithFlags_wp [OF Cons.prems(1)], goal_cases)
    case (1 s')
    have "wp (exists_loop i ks s') (\<lambda>x. Q (fst x, snd x))"
      by (rule Cons.IH [OF 1(2)]) (use Cons.prems(2) 1(1) in \<open>simp del: upd_apply\<close>)
    then show ?case by (simp add: case_prod_beta')
  next
    case (2 s' v t)
    have "wp (exists_loop i ks s') (\<lambda>x. Q (fst x, Suc (snd x)))"
      by (rule Cons.IH [OF 2(4)]) (use Cons.prems(2) 2 in \<open>simp add: vw_live\<close>)
    then show ?case by (simp add: case_prod_beta')
  qed
qed simp

lemma existsCommand_does:
  assumes "ctx s"
  shows "wp (existsCommand c ks s) (does {} s c (on_db (cdb (clients s c)) (spec_exists ks) (vw (mstime s) (entry s))))"
    and "wp (touchCommand c ks s) (does {} s c (on_db (cdb (clients s c)) (spec_exists ks) (vw (mstime s) (entry s))))"
  unfolding existsCommand_def touchCommand_def wp_bind
  by (rule exists_loop_wp [OF tr_start [OF assms]], simp, erule does_reply, auto simp: on_db_def spec_exists_def)+

lemma typeCommand_does:
  assumes "ctx s"
  shows "wp (typeCommand c k s) (does {} s c (on_db (cdb (clients s c)) (spec_type k) (vw (mstime s) (entry s))))"
  unfolding typeCommand_def wp_bind
proof (rule lookupKeyReadWithFlags_wp [OF tr_start [OF assms]], goal_cases)
  case (1 s')
  show ?case by (simp, rule does_reply [OF 1(2)]) (use 1(1) in \<open>auto simp: on_db_def spec_type_def\<close>)
next
  case (2 s' v t)
  show ?case
    by (simp, rule does_reply [OF 2(4)]) (use 2 in \<open>simp_all, cases v, simp_all add: on_db_def spec_type_def vw_live abs_obj_def\<close>)
qed

lemma ttlGenericCommand_does:
  assumes "ctx s"
  shows "wp (ttlGenericCommand c k ms s) (does {} s c (on_db (cdb (clients s c)) (spec_ttl (mstime s) k ms) (vw (mstime s) (entry s))))"
  unfolding ttlGenericCommand_def Let_def wp_bind
proof (rule lookupKeyReadWithFlags_wp [OF tr_start [OF assms]], goal_cases)
  case (1 s')
  show ?case by (simp, rule does_reply [OF 1(2)]) (use 1(1) in \<open>auto simp: on_db_def spec_ttl_def\<close>)
next
  case (2 s' v t)
  have c: "clock s' = mstime s" using tr_server [OF 2(4)] by simp
  have V: "vw (mstime s) (entry s) (cdb (clients s c)) k = Some (abs_obj v, t)" using 2 by (simp add: vw_live)
  show ?case
    by (auto intro!: does_reply [OF 2(4)] simp: getExpire_tr [OF 2(4)] 2(1) c on_db_def spec_ttl_def V max_def split: option.split)
qed

lemma persistCommand_does:
  assumes "ctx s"
  shows "wp (persistCommand c k s) (does {(cdb (clients s c), k)} s c (on_db (cdb (clients s c)) (spec_persist k) (vw (mstime s) (entry s))))"
  unfolding persistCommand_def Let_def wp_bind
proof (rule lookupKeyWrite_wp [OF tr_start [OF assms]], goal_cases)
  case (1 s')
  show ?case by (simp, rule does_reply [OF 1(2)]) (use 1(1) in \<open>auto simp: on_db_def spec_persist_def\<close>)
next
  case (2 v t)
  let ?i = "cdb (clients s c)" and ?V = "vw (mstime s) (entry s)"
  let ?rr = "on_db ?i (spec_persist k) ?V"
  have V: "?V ?i k = Some (abs_obj v, t)" using 2 by (simp add: vw_live)
  have "wp (removeExpire ?i k s) (\<lambda>x. wp (if snd x then do {
       s3 \<leftarrow> notifyKeyspaceEvent NOTIFY_GENERIC ''persist'' k ?i (fst x);
       Some (incr_dirty 1 (addReply c Cone s3)) } else Some (addReply c Czero (fst x))) (does {(?i, k)} s c ?rr))"
  proof (rule removeExpire_wp [OF tr_start [OF assms]], goal_cases)
    case (2 s2)
    note t2 = 2
    show ?case
    proof (cases t)
      case None
      have "does {(?i, k)} s c ?rr (addReply c Czero s2)"
        by (rule does_reply [OF t2]) (use None V in \<open>auto simp: on_db_def spec_persist_def \<open>entry s ?i k = (Some v, t)\<close>\<close>)
      then show ?thesis by (simp add: None \<open>entry s ?i k = (Some v, t)\<close>)
    next
      case (Some w)
      have "wp (notifyKeyspaceEvent NOTIFY_GENERIC ''persist'' k ?i s2) (\<lambda>s3. does {(?i, k)} s c ?rr (incr_dirty 1 (addReply c Cone s3)))"
        apply (rule notify_wp [OF t2])
        apply (rule doesI)
        apply (rule tr_incr_dirty, rule tr_addReply, rule tr_weaken, assumption)
        by (use Some V in \<open>auto simp: on_db_def spec_persist_def \<open>entry s ?i k = (Some v, t)\<close>\<close>)
      then show ?thesis by (simp add: Some \<open>entry s ?i k = (Some v, t)\<close>)
    qed
  qed (simp add: 2)
  then show ?case by (simp add: case_prod_beta')
qed

lemma tr_rewrite:
  assumes "tr s0 K M E R D s"
  shows "tr s0 K M E R D (rewriteClientCommandVector c args cm s)"
  by (rule tr_misc [OF assms])
    (use tr_np [OF assms] in \<open>auto simp: rewriteClientCommandVector_def upd_client_def server_part_def client_part_def np_def\<close>)

lemma expireGenericCommand_does:
  assumes "ctx s"
  shows "wp (expireGenericCommand c k arg base u s) (does {} s c (on_db (cdb (clients s c)) (spec_expire (mstime s) k arg base u) (vw (mstime s) (entry s))))"
proof (cases "string2ll arg")
  case None
  then show ?thesis
    by (auto simp: expireGenericCommand_def getLongLong_arg on_db_def spec_expire_def intro: does_reply [OF tr_start [OF assms]])
next
  case (Some n)
  let ?i = "cdb (clients s c)" and ?V = "vw (mstime s) (entry s)"
  let ?rr = "on_db ?i (spec_expire (mstime s) k arg base u) ?V"
  define w where "w = wrap64 (wrap64 (if u = UNIT_SECONDS then n * 1000 else n) + base)"
  note start = tr_start [OF assms]
  have split: "expireGenericCommand c k arg base u s = lookupKeyWrite ?i k s \<bind> (\<lambda>x.
     if snd x = None then Some (addReply c Czero (fst x))
     else if w \<le> clock (fst x) \<and> \<not> loading (fst x) \<and> \<not> masterhost (fst x) then do {
       let lazy = lazyfree_lazy_expire (fst x);
       let (s3, deleted) = dbGenericDelete lazy ?i k (fst x);
       serverAssert deleted;
       let s4 = rewriteClientCommandVector c [bstr (if lazy then ''UNLINK'' else ''DEL''), k]
                  (if lazy then unlink_cmd else del_cmd) (incr_dirty 1 s3);
       s5 \<leftarrow> notifyKeyspaceEvent NOTIFY_GENERIC ''del'' k ?i (signalModifiedKey ?i k s4);
       Some (addReply c Cone s5)
     }
     else do {
       s3 \<leftarrow> setExpire c ?i k w (fst x);
       let s4 = signalModifiedKey ?i k (addReply c Cone s3);
       s5 \<leftarrow> notifyKeyspaceEvent NOTIFY_GENERIC ''expire'' k ?i s4;
       Some (incr_dirty 1 s5)
     })"
    by (simp add: expireGenericCommand_def getLongLong_arg Some w_def Let_def case_prod_beta' cong: if_cong)
  show ?thesis
    unfolding split wp_bind
  proof (rule lookupKeyWrite_wp [OF start], goal_cases)
    case (1 s')
    show ?case
      by (simp, rule does_reply [OF 1(2)]) (use 1(1) Some in \<open>auto simp: on_db_def spec_expire_def Let_def\<close>)
  next
    case (2 v t)
    have V: "?V ?i k = Some (abs_obj v, t)" using 2 by (simp add: vw_live)
    have m: "clock s = mstime s" "\<not> loading s" "\<not> masterhost s" using tr_server [OF start] by simp_all
    show ?case
    proof (cases "w \<le> mstime s")
      case True
      have "wp (notifyKeyspaceEvent NOTIFY_GENERIC ''del'' k ?i (signalModifiedKey ?i k (rewriteClientCommandVector c args cm
          (incr_dirty 1 (fst (dbGenericDelete lazy ?i k s)))))) (\<lambda>s5. does {} s c ?rr (addReply c Cone s5))" for args cm lazy
        by (rule notify_wp [OF tr_touch [OF tr_rewrite [OF tr_incr_dirty [OF tr_delete(1) [OF start]]]]], erule does_reply)
          (use True Some V in \<open>auto simp: on_db_def spec_expire_def w_def Let_def\<close>)
      then show ?thesis using True m 2(1) by (simp add: case_prod_beta' Let_def tr_delete(2) [OF start])
    next
      case False
      have "wp (setExpire c ?i k w s) (\<lambda>s3. wp (notifyKeyspaceEvent NOTIFY_GENERIC ''expire'' k ?i
          (signalModifiedKey ?i k (addReply c Cone s3))) (\<lambda>s5. does {} s c ?rr (incr_dirty 1 s5)))"
      proof (rule setExpire_wp [OF start], goal_cases)
        case a: (2 s3)
        show ?case
          by (rule notify_wp [OF tr_touch [OF tr_addReply [OF a]]], simp, rule doesI, erule tr_weaken [OF tr_incr_dirty])
            (use False Some V 2(1) in \<open>auto simp: on_db_def spec_expire_def w_def Let_def expired_at_def\<close>)
      qed (simp add: 2)
      then show ?thesis using False m by simp
    qed
  qed
qed

subsection \<open>Renaming and moving\<close>

text \<open>
  What RENAME and MOVE do once the destination is free: add the value there with its expire time,
  delete the source, signal both.
\<close>

definition move_tail :: "nat \<Rightarrow> robj \<Rightarrow> int \<Rightarrow> nat \<Rightarrow> bytes \<Rightarrow> nat \<Rightarrow> bytes \<Rightarrow> string \<Rightarrow> string \<Rightarrow> reply \<Rightarrow> server \<Rightarrow> server option" where
  "move_tail c v x i k j d e1 e2 r s3 = do {
     s4 \<leftarrow> dbAdd j d v s3;
     s5 \<leftarrow> (if x \<noteq> -1 then setExpire c j d x s4 else Some s4);
     let s6 = fst (dbDelete i k s5);
     let s7 = signalModifiedKey j d (signalModifiedKey i k s6);
     s8 \<leftarrow> notifyKeyspaceEvent NOTIFY_GENERIC e1 k i s7;
     s9 \<leftarrow> notifyKeyspaceEvent NOTIFY_GENERIC e2 d j s8;
     Some (addReply c r (incr_dirty 1 s9))
   }"

lemma move_tail_wp:
  assumes t: "tr s K {} E (np s) (dirty s) s3" and e: "fst (E j d) = None" "K \<subseteq> {(j, d)}" "(j, d) \<noteq> (i, k)"
    and src: "E i k = (Some v, t)" "\<not> expired_at (mstime s) t" "obj_ok v" "x = (case t of None \<Rightarrow> -1 | Some w \<Rightarrow> w)"
    and r: "\<not> is_pub r" "rr = (vw (mstime s) (upd (upd E j d (Some v, if t = Some (-1) then None else t)) i k (None, None)), [r])"
  shows "wp (move_tail c v x i k j d e1 e2 r s3) (does {} s c rr)"
proof -
  have fin: "wp (notifyKeyspaceEvent NOTIFY_GENERIC e1 k i (signalModifiedKey j d (signalModifiedKey i k (fst (dbDelete i k s5)))))
      (\<lambda>s8. wp (notifyKeyspaceEvent NOTIFY_GENERIC e2 d j s8) (\<lambda>s9. does {} s c rr (addReply c r (incr_dirty 1 s9))))"
    if "tr s K' {} (upd E j d (Some v, if t = Some (-1) then None else t)) (np s) (dirty s) s5" "K' \<subseteq> {(j, d)}" for s5 K'
    by (rule notify_wp [OF tr_touch [OF tr_touch [OF tr_dbDelete [OF that(1)]]]], erule notify_wp, erule does_change)
      (use that(2) r in auto)
  have "wp (dbAdd j d v s3) (\<lambda>s4. wp (if x \<noteq> -1 then setExpire c j d x s4 else Some s4)
      (\<lambda>s5. wp (notifyKeyspaceEvent NOTIFY_GENERIC e1 k i (signalModifiedKey j d (signalModifiedKey i k (fst (dbDelete i k s5)))))
      (\<lambda>s8. wp (notifyKeyspaceEvent NOTIFY_GENERIC e2 d j s8) (\<lambda>s9. does {} s c rr (addReply c r (incr_dirty 1 s9))))))"
  proof (rule dbAdd_wp [OF t e(1) src(3)], goal_cases)
    case (1 s4)
    show ?case
    proof (cases "x = -1")
      case True
      then have n: "(if t = Some (-1) then None else t) = None" using src(4) by (auto split: option.splits)
      show ?thesis using fin [of _ s4] 1 e(2) by (simp add: True n)
    next
      case False
      then have n: "(if t = Some (-1) then None else t) = Some x" using src(4) by (auto split: option.splits)
      have "wp (setExpire c j d x s4) (\<lambda>s5. wp (notifyKeyspaceEvent NOTIFY_GENERIC e1 k i (signalModifiedKey j d (signalModifiedKey i k (fst (dbDelete i k s5)))))
        (\<lambda>s8. wp (notifyKeyspaceEvent NOTIFY_GENERIC e2 d j s8) (\<lambda>s9. does {} s c rr (addReply c r (incr_dirty 1 s9)))))"
      proof (rule setExpire_wp [OF 1], goal_cases)
        case (2 s5)
        then show ?case by (intro fin [of "K \<union> ({(j, d)} - {}) \<union> ({(j, d)} - {})"]) (use e(2) in \<open>simp_all add: n\<close>)
      qed simp
      then show ?thesis using False by simp
    qed
  qed
  then show ?thesis by (simp add: move_tail_def Let_def)
qed

lemma renameGenericCommand_split:
  "renameGenericCommand c src dst nx s = do {
     let i = cdb (clients s c);
     (s1, obj) \<leftarrow> lookupKeyWrite i src s;
     case obj of
       None \<Rightarrow> Some (addReply c NoKeyErr s1)
     | Some val \<Rightarrow>
         if src = dst then Some (addReply c (if nx then Czero else Ok) s1)
         else do {
           expire \<leftarrow> getExpire i src s1;
           (s2, old) \<leftarrow> lookupKeyWrite i dst s1;
           if old \<noteq> None \<and> nx then Some (addReply c Czero s2)
           else move_tail c val expire i src i dst ''rename_from'' ''rename_to'' (if nx then Cone else Ok)
             (if old \<noteq> None then fst (dbDelete i dst s2) else s2)
         }
   }"
  by (simp add: renameGenericCommand_def lookupKeyWriteOrReply_def move_tail_def Let_def case_prod_beta' bind_assoc
      cong: if_cong option.case_cong)

lemma renameGenericCommand_does:
  assumes "ctx s"
  shows "wp (renameGenericCommand c src dst nx s) (does {} s c (on_db (cdb (clients s c)) (spec_rename src dst nx) (vw (mstime s) (entry s))))"
    (is "wp _ (does {} s c ?rr)")
  unfolding renameGenericCommand_split Let_def wp_bind
proof (rule lookupKeyWrite_wp [OF tr_start [OF assms]], goal_cases)
  case (1 s')
  show ?case by (simp, rule does_reply [OF 1(2)]) (use 1(1) in \<open>auto simp: on_db_def spec_rename_def\<close>)
next
  case src: (2 v t)
  let ?i = "cdb (clients s c)" and ?V = "vw (mstime s) (entry s)"
  note start = tr_start [OF assms]
  have V: "?V ?i src = Some (abs_obj v, t)" using src by (simp add: vw_live)
  show ?case
  proof (cases "src = dst")
    case True
    then show ?thesis
      using does_reply [OF start, of "if nx then Czero else Ok" ?rr "{}" c] V by (simp add: on_db_def spec_rename_def)
  next
    case False
    let ?x = "case t of None \<Rightarrow> -1 | Some w \<Rightarrow> w"
    have "wp (lookupKeyWrite ?i dst s) (\<lambda>y. wp (if snd y \<noteq> None \<and> nx then Some (addReply c Czero (fst y))
        else move_tail c v ?x ?i src ?i dst ''rename_from'' ''rename_to'' (if nx then Cone else Ok)
          (if snd y \<noteq> None then fst (dbDelete ?i dst (fst y)) else fst y)) (does {} s c ?rr))"
    proof (rule lookupKeyWrite_wp [OF start], goal_cases)
      case (1 s2)
      have "wp (move_tail c v ?x ?i src ?i dst ''rename_from'' ''rename_to'' (if nx then Cone else Ok) s2) (does {} s c ?rr)"
        by (rule move_tail_wp [OF 1(2)]) (use src False V 1(1) in \<open>auto simp: on_db_def spec_rename_def moved_def\<close>)
      then show ?case by simp
    next
      case (2 u t')
      have W: "?V ?i dst \<noteq> None" using 2 by (simp add: vw_live)
      have "wp (move_tail c v ?x ?i src ?i dst ''rename_from'' ''rename_to'' Ok (fst (dbDelete ?i dst s))) (does {} s c ?rr)" if "\<not> nx"
        by (rule move_tail_wp [OF tr_dbDelete [OF start]]) (use src False V that in \<open>auto simp: on_db_def spec_rename_def moved_def\<close>)
      moreover have "does {} s c ?rr (addReply c Czero s)" if nx
        by (rule does_reply [OF start]) (use that False V W in \<open>auto simp: on_db_def spec_rename_def\<close>)
      ultimately show ?case by auto
    qed
    then show ?thesis using False by (simp add: getExpire_tr [OF start] src(1) case_prod_beta')
  qed
qed

lemma select_back: "upd_client c (\<lambda>cl. cl\<lparr>cdb := cdb (clients s c)\<rparr>) (upd_client c (\<lambda>cl. cl\<lparr>cdb := j\<rparr>) s) = s"
  by (simp add: upd_client_def fun_upd_idem)

lemma moveCommand_split:
  assumes "cdb (clients s c) < dbnum s" "string2ll arg = Some d" "0 \<le> d" "d < int (dbnum s)" "d \<le> 2 ^ 31 - 1" "nat d \<noteq> cdb (clients s c)"
  shows "moveCommand c k arg s = do {
     let i = cdb (clients s c);
     let j = nat d;
     (s3, obj) \<leftarrow> lookupKeyWrite i k s;
     case obj of
       None \<Rightarrow> Some (addReply c Czero s3)
     | Some val \<Rightarrow> do {
         expire \<leftarrow> getExpire i k s3;
         (s4, old) \<leftarrow> lookupKeyWrite j k s3;
         if old \<noteq> None then Some (addReply c Czero s4)
         else move_tail c val expire i k j k ''move_from'' ''move_to'' Cone s4
       }
   }"
proof -
  have g: "getLongLongFromObject (Some (createStringObject arg)) = Some (Some d)" using assms(2) by (simp add: getLongLong_ok)
  have "selectDb c d s = Some (upd_client c (\<lambda>cl. cl\<lparr>cdb := nat d\<rparr>) s)" using assms(3,4) by (simp add: selectDb_def)
  moreover have "selectDb c (int (cdb (clients s c))) (upd_client c (\<lambda>cl. cl\<lparr>cdb := nat d\<rparr>) s) = Some s"
    using assms(1) select_back [of c s "nat d"] by (simp add: selectDb_def upd_client_def)
  ultimately show ?thesis
    using assms(3,5,6) g by (simp add: moveCommand_def move_tail_def Let_def case_prod_beta' cong: if_cong option.case_cong)
qed

lemma moveCommand_go:
  assumes "ctx s" "cdb (clients s c) < dbnum s"
    and d: "string2ll arg = Some d" "0 \<le> d" "d < int (dbnum s)" "d \<le> 2 ^ 31 - 1" "nat d \<noteq> cdb (clients s c)"
  shows "wp (moveCommand c k arg s) (does {} s c (spec_move (dbnum s) (cdb (clients s c)) k arg (vw (mstime s) (entry s))))"
    (is "wp _ (does {} s c ?rr)")
  unfolding moveCommand_split [OF assms(2) d] Let_def wp_bind
proof (rule lookupKeyWrite_wp [OF tr_start [OF assms(1)]], goal_cases)
  case (1 s')
  show ?case by (simp, rule does_reply [OF 1(2)]) (use 1(1) d in \<open>auto simp: spec_move_def Let_def\<close>)
next
  case src: (2 v t)
  let ?i = "cdb (clients s c)" and ?V = "vw (mstime s) (entry s)" and ?x = "case t of None \<Rightarrow> -1 | Some w \<Rightarrow> w"
  note start = tr_start [OF assms(1)]
  have V: "?V ?i k = Some (abs_obj v, t)" using src by (simp add: vw_live)
  have "wp (lookupKeyWrite (nat d) k s) (\<lambda>y. wp (if snd y \<noteq> None then Some (addReply c Czero (fst y))
      else move_tail c v ?x ?i k (nat d) k ''move_from'' ''move_to'' Cone (fst y)) (does {} s c ?rr))"
  proof (rule lookupKeyWrite_wp [OF start], goal_cases)
    case (1 s2)
    have "wp (move_tail c v ?x ?i k (nat d) k ''move_from'' ''move_to'' Cone s2) (does {} s c ?rr)"
      by (rule move_tail_wp [OF 1(2)]) (use src d V 1(1) in \<open>auto simp: spec_move_def moved_def Let_def\<close>)
    then show ?case by simp
  next
    case (2 u t')
    have W: "?V (nat d) k \<noteq> None" using 2 by (simp add: vw_live)
    have "does {} s c ?rr (addReply c Czero s)"
      by (rule does_reply [OF start]) (use d W in \<open>auto simp: spec_move_def Let_def\<close>)
    then show ?case by simp
  qed
  then show ?case by (simp add: getExpire_tr [OF start] src(1) case_prod_beta')
qed

lemma moveCommand_does:
  assumes "ctx s" "cdb (clients s c) < dbnum s"
  shows "wp (moveCommand c k arg s) (does {} s c (spec_move (dbnum s) (cdb (clients s c)) k arg (vw (mstime s) (entry s))))"
    (is "wp _ (does {} s c ?rr)")
proof -
  let ?i = "cdb (clients s c)" and ?V = "vw (mstime s) (entry s)"
  note start = tr_start [OF assms(1)]
  have bad: "does {} s c ?rr (addReply c r s)" if "?rr = (?V, [r])" "\<not> is_pub r" for r
    by (rule does_reply [OF start that(2,1)]) simp_all
  consider "string2ll arg = None" | d where "string2ll arg = Some d" "d < - (2 ^ 31) \<or> d > 2 ^ 31 - 1 \<or> d < 0 \<or> d \<ge> int (dbnum s)"
    | d where "string2ll arg = Some d" "0 \<le> d" "d < int (dbnum s)" "d \<le> 2 ^ 31 - 1" "nat d = ?i"
    | d where "string2ll arg = Some d" "0 \<le> d" "d < int (dbnum s)" "d \<le> 2 ^ 31 - 1" "nat d \<noteq> ?i" by fastforce
  then show ?thesis
  proof cases
    case 1
    then show ?thesis using bad [of OutOfRangeErr] by (simp add: moveCommand_def getLongLong_ok spec_move_def)
  next
    case (2 d)
    then show ?thesis using bad [of OutOfRangeErr] by (auto simp: moveCommand_def getLongLong_ok spec_move_def selectDb_def)
  next
    case (3 d)
    have "selectDb c d s = Some s" using 3 select_back [of c s ?i] by (simp add: selectDb_def upd_client_def fun_upd_idem)
    moreover have "int ?i = d" using 3 by simp
    ultimately show ?thesis using 3 bad [of SameObjectErr] by (simp add: moveCommand_def getLongLong_ok spec_move_def Let_def)
  next
    case (4 d)
    then show ?thesis by (rule moveCommand_go [OF assms])
  qed
qed

subsection \<open>FLUSHDB\<close>

text \<open>The clients that watch a key are in the list of clients and know that they watch it.\<close>

definition watch_ok :: "server \<Rightarrow> bool" where
  "watch_ok s \<longleftrightarrow> (\<forall>i k c. c \<in> watchers s i k \<longrightarrow> c \<in> set (client_list s) \<and> (i, k) \<in> set (watched (clients s c)))"

lemma flush_touches_iff:
  "flush_touches n s ws \<longleftrightarrow> (\<exists>(i, k) \<in> set ws. (n = -1 \<or> int i = n) \<and> map_of (kv (db s i)) k \<noteq> None)"
  by (induction n s ws rule: flush_touches.induct) auto

lemma flush_loop_other:
  "db (touch_on_flush_loop cs n s) = db s" "server_part (touch_on_flush_loop cs n s) = server_part s"
  "dirty (touch_on_flush_loop cs n s) = dirty s" "np (touch_on_flush_loop cs n s) = np s"
  by (induction cs arbitrary: s) (auto simp: set_flags_def upd_client_def server_part_def np_def fun_eq_iff)

lemma flush_loop_clients:
  "clients (touch_on_flush_loop cs n s) c = (if c \<in> set cs \<and> flush_touches n s (watched (clients s c))
     then (clients s c)\<lparr>flags := flags (clients s c) OR CLIENT_DIRTY_CAS\<rparr> else clients s c)"
proof (induction cs arbitrary: s)
  case (Cons c' cs)
  have f: "flush_touches n (set_flags x m s) ws = flush_touches n s ws" for x m ws
    by (simp add: flush_touches_iff set_flags_def upd_client_def)
  have w: "watched (clients (set_flags x m s) y) = watched (clients s y)" for x m y
    by (simp add: set_flags_def)
  show ?case
    by (simp add: Cons.IH f w) (auto simp: set_flags_def or_dirty_twice)
qed simp

lemma flush_tr:
  fixes i :: nat
  assumes "ctx s" "watch_ok s"
  defines "s2 \<equiv> upd_db i (\<lambda>d. d\<lparr>kv := [], expires := Map.empty\<rparr>) (touchWatchedKeysOnFlush (int i) s)"
  shows "tr s {} {} ((entry s)(i := \<lambda>k. (None, None))) (np s) (dirty s) s2"
proof -
  have e: "entry s2 = (entry s)(i := \<lambda>k. (None, None))"
    by (auto simp: s2_def entry_upd_db entry_def fun_eq_iff touchWatchedKeysOnFlush_def flush_loop_other)
  have cl: "clients s2 c = (if c \<in> set (client_list s) \<and> flush_touches (int i) s (watched (clients s c))
     then (clients s c)\<lparr>flags := flags (clients s c) OR CLIENT_DIRTY_CAS\<rparr> else clients s c)" for c
    by (simp add: s2_def upd_db_other touchWatchedKeysOnFlush_def flush_loop_clients)
  have dirty: "dirty_cas (clients s2 c)" if "entry s2 j k \<noteq> entry s j k" "c \<in> watchers s j k" for j k c
  proof -
    have j: "j = i" and n: "entry s i k \<noteq> (None, None)" using that(1) by (auto simp: e split: if_splits)
    have "ent_ok (entry s i k)" using assms(1) by (simp add: ctx_def db_ok_def)
    with n have "map_of (kv (db s i)) k \<noteq> None" by (auto simp: ent_ok_def entry_def)
    then have "flush_touches (int i) s (watched (clients s c))"
      using assms(2) that(2) j unfolding watch_ok_def flush_touches_iff by fastforce
    then show ?thesis using assms(2) that(2) unfolding watch_ok_def cl by auto
  qed
  have "server_part s2 = server_part s" "dirty s2 = dirty s" "\<And>j. wkeys (db s2 j) = wkeys (db s j)"
    by (simp_all add: s2_def upd_db_other touchWatchedKeysOnFlush_def flush_loop_other)
  moreover have "np s2 = np s" by (auto simp: np_def fun_eq_iff cl)
  moreover have "db_ok s2" using assms(1)
    by (auto simp: db_ok_def e ctx_def ent_ok_def) (auto simp: s2_def touchWatchedKeysOnFlush_def flush_loop_other)
  ultimately show ?thesis using assms(1) dirty by (auto simp: tr_def step_def e cl client_part_def)
qed

lemma flushdbCommand_does:
  assumes "ctx s" "cdb (clients s c) < dbnum s" "watch_ok s"
  shows "wp (flushdbCommand c args s) (does {} s c (on_db (cdb (clients s c)) (spec_flushdb args) (vw (mstime s) (entry s))))"
    (is "wp _ (does {} s c ?rr)")
proof (cases "args \<noteq> [] \<and> (length args > 1 \<or> \<not> strcaseeq (hd args) ''async'')")
  case True
  then show ?thesis
    by (auto simp: flushdbCommand_def on_db_def spec_flushdb_def intro: does_reply [OF tr_start [OF assms(1)]])
next
  case False
  let ?i = "cdb (clients s c)"
  let ?s2 = "upd_db ?i (\<lambda>d. d\<lparr>kv := [], expires := Map.empty\<rparr>) (touchWatchedKeysOnFlush (int ?i) s)"
  let ?n = "length (kv (db s ?i))"
  have empty: "emptyDb (int ?i) s = (?s2, Some ?n)"
    using assms(2) by (simp add: emptyDb_def signalFlushedDb_def touchWatchedKeysOnFlush_def flush_loop_other)
  have v: "vw (mstime s) ((entry s)(?i := \<lambda>k. (None, None))) = (vw (mstime s) (entry s))(?i := Map.empty)"
    by (auto simp: vw_def fun_eq_iff)
  have "vw (mstime s) (entry s) ?i = Map.empty" if "?n = 0"
    using that by (auto simp: vw_def vent_def entry_def fun_eq_iff)
  then have same: "(vw (mstime s) (entry s))(?i := Map.empty) = vw (mstime s) (entry s)" if "?n = 0"
    using that by (simp add: fun_upd_idem)
  have "does {} s c ?rr (addReply c Ok (incr_dirty (int ?n) ?s2))"
    by (rule does_reply [OF tr_incr_dirty [OF flush_tr [OF assms(1,3)]]])
      (use False same in \<open>auto simp: on_db_def spec_flushdb_def v\<close>)
  then show ?thesis using False by (auto simp: flushdbCommand_def empty)
qed

end
