(* ===== verification/Server_Refine.thy ===== *)
theory Server_Refine
  imports Key_Refine
begin

unbundle bit_operations_syntax

text \<open>
  The commands on the keyspace, as \<open>call\<close> runs them, implement the abstract databases.
\<close>

subsection \<open>The specification of a command\<close>

definition key_spec :: "redisCommand \<Rightarrow> bytes list \<Rightarrow> int \<Rightarrow> nat \<Rightarrow> nat \<Rightarrow> astore \<Rightarrow> (astore \<times> reply list) option" where
  "key_spec cm args now n i V = (case (proc cm, args) of
      (p_getCommand, [k]) \<Rightarrow> Some (on_db i (spec_get k) V)
    | (p_setCommand, k # v # opts) \<Rightarrow> Some (on_db i (spec_setCommand now (cname cm) k v opts) V)
    | (p_setnxCommand, [k, v]) \<Rightarrow> Some (on_db i (spec_set now [] OBJ_SET_NX k v None UNIT_SECONDS Cone Czero) V)
    | (p_setexCommand, [k, t, v]) \<Rightarrow> Some (on_db i (spec_set now (cname cm) 0 k v (Some t) UNIT_SECONDS Ok Null) V)
    | (p_psetexCommand, [k, t, v]) \<Rightarrow> Some (on_db i (spec_set now (cname cm) 0 k v (Some t) UNIT_MILLISECONDS Ok Null) V)
    | (p_appendCommand, [k, v]) \<Rightarrow> Some (on_db i (spec_append k v) V)
    | (p_strlenCommand, [k]) \<Rightarrow> Some (on_db i (spec_strlen k) V)
    | (p_delCommand, ks) \<Rightarrow> Some (on_db i (spec_del ks) V)
    | (p_unlinkCommand, ks) \<Rightarrow> Some (on_db i (spec_del ks) V)
    | (p_existsCommand, ks) \<Rightarrow> Some (on_db i (spec_exists ks) V)
    | (p_setrangeCommand, [k, a, v]) \<Rightarrow> Some (on_db i (spec_setrange k a v) V)
    | (p_getrangeCommand, [k, a, b]) \<Rightarrow> Some (on_db i (spec_getrange k a b) V)
    | (p_incrCommand, [k]) \<Rightarrow> Some (on_db i (spec_incr k 1) V)
    | (p_decrCommand, [k]) \<Rightarrow> Some (on_db i (spec_incr k (-1)) V)
    | (p_mgetCommand, ks) \<Rightarrow> Some (on_db i (spec_mget ks) V)
    | (p_incrbyCommand, [k, a]) \<Rightarrow> Some (on_db i (spec_incrby k a) V)
    | (p_decrbyCommand, [k, a]) \<Rightarrow> Some (on_db i (spec_decrby k a) V)
    | (p_getsetCommand, [k, v]) \<Rightarrow> Some (on_db i (spec_getset k v) V)
    | (p_msetCommand, kvs) \<Rightarrow> Some (on_db i (spec_mset kvs False) V)
    | (p_msetnxCommand, kvs) \<Rightarrow> Some (on_db i (spec_mset kvs True) V)
    | (p_moveCommand, [k, a]) \<Rightarrow> Some (spec_move n i k a V)
    | (p_renameCommand, [a, b]) \<Rightarrow> Some (on_db i (spec_rename a b False) V)
    | (p_renamenxCommand, [a, b]) \<Rightarrow> Some (on_db i (spec_rename a b True) V)
    | (p_expireCommand, [k, t]) \<Rightarrow> Some (on_db i (spec_expire now k t now UNIT_SECONDS) V)
    | (p_expireatCommand, [k, t]) \<Rightarrow> Some (on_db i (spec_expire now k t 0 UNIT_SECONDS) V)
    | (p_pexpireCommand, [k, t]) \<Rightarrow> Some (on_db i (spec_expire now k t now UNIT_MILLISECONDS) V)
    | (p_pexpireatCommand, [k, t]) \<Rightarrow> Some (on_db i (spec_expire now k t 0 UNIT_MILLISECONDS) V)
    | (p_typeCommand, [k]) \<Rightarrow> Some (on_db i (spec_type k) V)
    | (p_flushdbCommand, args) \<Rightarrow> Some (on_db i (spec_flushdb args) V)
    | (p_ttlCommand, [k]) \<Rightarrow> Some (on_db i (spec_ttl now k False) V)
    | (p_touchCommand, ks) \<Rightarrow> Some (on_db i (spec_exists ks) V)
    | (p_pttlCommand, [k]) \<Rightarrow> Some (on_db i (spec_ttl now k True) V)
    | (p_persistCommand, [k]) \<Rightarrow> Some (on_db i (spec_persist k) V)
    | _ \<Rightarrow> None)"

text \<open>
  The one request that fails: SETRANGE with an offset so large that adding the length of the value
  overflows.  The key that PERSIST changes without signalling it.
\<close>

definition safe_args :: "redisCommand \<Rightarrow> bytes list \<Rightarrow> bool" where
  "safe_args cm args = (case (proc cm, args) of (p_setrangeCommand, [k, a, v]) \<Rightarrow> setrange_safe a v | _ \<Rightarrow> True)"

definition unsignalled :: "redisCommand \<Rightarrow> bytes list \<Rightarrow> nat \<Rightarrow> (nat \<times> bytes) set" where
  "unsignalled cm args i = (if proc cm = p_persistCommand then {(i, hd args)} else {})"

lemma basic_proc_does:
  assumes s: "ctx s" "cdb (clients s c) < dbnum s" "watch_ok s"
    and r: "key_spec (cmd (clients s c)) (tl (argv (clients s c))) (mstime s) (dbnum s) (cdb (clients s c)) (vw (mstime s) (entry s)) = Some r"
    and a: "safe_args (cmd (clients s c)) (tl (argv (clients s c)))"
  shows "wp (basic_proc c s) (does (unsignalled (cmd (clients s c)) (tl (argv (clients s c))) (cdb (clients s c))) s c r)"
proof -
  have clk: "clock s = mstime s" using s(1) by (simp add: ctx_def)
  have i1: "int64 1" "int64 (-1)" by (simp_all add: int64_def)
  define xs where "xs = tl (argv (clients s c))"
  define p where "p = proc (cmd (clients s c))"
  note does = getCommand_does [OF s(1)] setCommand_does [OF s(1)] setnxCommand_does [OF s(1)] setexCommand_does [OF s(1)]
    appendCommand_does [OF s(1)] strlenCommand_does [OF s(1)] delGenericCommand_does [OF s(1)] existsCommand_does [OF s(1)]
    getrangeCommand_does [OF s(1)] incrDecrCommand_does [OF s(1) i1(1)] incrDecrCommand_does [OF s(1) i1(2)]
    mgetCommand_does [OF s(1)] incrbyCommand_does [OF s(1)] getsetCommand_does [OF s(1)] msetGenericCommand_does [OF s(1)]
    moveCommand_does [OF s(1,2)] renameGenericCommand_does [OF s(1)] expireGenericCommand_does [OF s(1)] typeCommand_does [OF s(1)]
    flushdbCommand_does [OF s] ttlGenericCommand_does [OF s(1)] persistCommand_does [OF s(1)] setrangeCommand_does [OF s(1)]
  show ?thesis
    using r a unfolding basic_proc_def key_spec_def safe_args_def unsignalled_def xs_def [symmetric] p_def [symmetric]
    apply (cases p)
    apply (simp_all only: prod.case proc.case option.inject proc.distinct if_False if_True)
    apply (auto simp: does clk split: list.splits)
    done
qed

subsection \<open>Errors\<close>

text \<open>A specification that changes nothing where it answers with an error.\<close>

definition error_pure :: "('m \<Rightarrow> 'm \<times> reply list) \<Rightarrow> bool" where
  "error_pure f \<longleftrightarrow> (\<forall>m. (\<exists>r \<in> set (snd (f m)). is_error r) \<longrightarrow> fst (f m) = m)"

lemma is_error_simps [simp]:
  "\<not> is_error Ok" "\<not> is_error Czero" "\<not> is_error Cone" "\<not> is_error Null" "\<not> is_error (Bulk b)" "\<not> is_error (LongLong n)" "\<not> is_error (Status b)"
  "\<not> is_error EmptyBulk" "\<not> is_error (ArrayLen l)"
  by (simp_all add: is_error_def)

lemma on_db_error: "on_db i f V = (V', rs) \<Longrightarrow> error_pure f \<Longrightarrow> r \<in> set rs \<Longrightarrow> is_error r \<Longrightarrow> V' = V"
  unfolding error_pure_def on_db_def by (auto simp: Let_def split_beta)

lemma error_pure_strings:
  "error_pure (spec_get k)" "error_pure (spec_put_cond now fl k v t Ok Null)" "error_pure (spec_put_cond now fl k v t Cone Czero)"
  "error_pure (spec_getset k v)" "error_pure (spec_setrange k off v)" "error_pure (spec_getrange k a b)" "error_pure (spec_mget ks)"
  "error_pure (spec_mset kvs nx)" "error_pure (spec_incr k n)" "error_pure (spec_append k v)" "error_pure (spec_strlen k)"
  unfolding error_pure_def spec_get_def spec_put_cond_def spec_getset_def spec_setrange_def spec_getrange_def spec_mget_def spec_mset_def
    spec_incr_def spec_append_def spec_strlen_def get_reply_def
  by (auto simp: Let_def split: option.splits aval.splits if_splits)

lemma error_pure_derived:
  "error_pure (spec_set now name fl k v ex u Ok Null)" "error_pure (spec_set now name fl k v ex u Cone Czero)"
  "error_pure (spec_setCommand now name k v opts)" "error_pure (spec_incrby k b)" "error_pure (spec_decrby k b)"
proof -
  show 1: "error_pure (spec_set now name fl k v ex u Ok Null)" for fl ex u
    using error_pure_strings(2) by (auto simp: error_pure_def spec_set_def split: option.splits if_splits)
  show "error_pure (spec_set now name fl k v ex u Cone Czero)"
    using error_pure_strings(3) by (auto simp: error_pure_def spec_set_def split: option.splits if_splits)
  show "error_pure (spec_setCommand now name k v opts)"
    using 1 by (auto simp: error_pure_def spec_setCommand_def split: option.splits)
  show "error_pure (spec_incrby k b)" "error_pure (spec_decrby k b)"
    using error_pure_strings(9) by (auto simp: error_pure_def spec_incrby_def spec_decrby_def split: option.splits)
qed

lemma error_pure_keys:
  "error_pure (spec_del ks)" "error_pure (spec_exists ks)" "error_pure (spec_type k)" "error_pure (spec_rename a b nx)" 
  "error_pure (spec_flushdb args)" "error_pure (spec_expire now k t base u)" "error_pure (spec_ttl now k ms)" "error_pure (spec_persist k)"
  unfolding error_pure_def spec_del_def spec_exists_def spec_type_def spec_rename_def spec_flushdb_def spec_expire_def spec_ttl_def
    spec_persist_def
  by (auto simp: Let_def split: option.splits if_splits)

lemma spec_move_error: "spec_move n i k a V = (V', rs) \<Longrightarrow> r \<in> set rs \<Longrightarrow> is_error r \<Longrightarrow> V' = V"
  by (auto simp: spec_move_def Let_def split: option.splits if_splits)

lemma key_spec_error:
  assumes "key_spec cm args now n i V = Some (V', rs)" "r \<in> set rs" "is_error r"
  shows "V' = V"
proof -
  define p where "p = proc cm"
  note e = on_db_error [OF _ _ assms(2,3), of i _ V V'] spec_move_error [OF _ assms(2,3), of n i _ _ V V']
  show ?thesis
    using assms(1) unfolding key_spec_def p_def [symmetric]
    apply (cases p)
    apply (simp_all only: prod.case proc.case option.inject)
    apply (auto split: list.splits elim!: e intro: error_pure_strings error_pure_derived error_pure_keys)
    done
qed

end
