(* ===== verification/Registry.thy ===== *)
theory Registry
  imports Multi
begin

unbundle bit_operations_syntax

text \<open>
  The server keeps three tables from a key to the clients that registered for it: the clients
  subscribed to a channel, those subscribed to a pattern and those watching a key.  Each client
  keeps the list of its keys.  Both sides have to agree, or the code fails an assertion when a
  client leaves.
\<close>

subsection \<open>The interface of such a table\<close>

definition consistent :: "('k \<Rightarrow> nat set) \<Rightarrow> (nat \<Rightarrow> 'k list) \<Rightarrow> bool" where
  "consistent h f \<longleftrightarrow> (\<forall>k c. c \<in> h k \<longleftrightarrow> k \<in> set (f c)) \<and> (\<forall>c. distinct (f c))"

lemma consistentD: "consistent h f \<Longrightarrow> c \<in> h k \<longleftrightarrow> k \<in> set (f c)"
  by (simp add: consistent_def)

lemma in_case_option: "c \<in> (case x of None \<Rightarrow> {} | Some cs \<Rightarrow> set cs) \<longleftrightarrow> (\<exists>cs. x = Some cs \<and> c \<in> set cs)"
  by (cases x) simp_all

locale registry =
  fixes ok :: "'r \<Rightarrow> bool" and holders :: "'r \<Rightarrow> 'k \<Rightarrow> nat set"
    and add :: "'k \<Rightarrow> nat \<Rightarrow> 'r \<Rightarrow> 'r" and del :: "'k \<Rightarrow> nat \<Rightarrow> 'r \<Rightarrow> 'r option"
  assumes add_ok: "ok r \<Longrightarrow> c \<notin> holders r k \<Longrightarrow> ok (add k c r)"
    and add_holders: "ok r \<Longrightarrow> c \<notin> holders r k \<Longrightarrow> holders (add k c r) = (holders r)(k := insert c (holders r k))"
    and del_some: "ok r \<Longrightarrow> c \<in> holders r k \<Longrightarrow>
      \<exists>r'. del k c r = Some r' \<and> ok r' \<and> holders r' = (holders r)(k := holders r k - {c})"
begin

lemma consistent_add:
  assumes "ok r" "consistent (holders r) f" "k \<notin> set (f c)"
  shows "ok (add k c r) \<and> consistent (holders (add k c r)) (f(c := f c @ [k]))"
proof -
  have n: "c \<notin> holders r k" using assms(2,3) by (simp add: consistent_def)
  show ?thesis
    using assms add_ok [OF assms(1) n] by (auto simp: add_holders [OF assms(1) n] consistent_def)
qed

lemma consistent_del:
  assumes "ok r" "consistent (holders r) f" "k \<in> set (f c)"
  shows "\<exists>r'. del k c r = Some r' \<and> ok r' \<and> consistent (holders r') (f(c := remove1 k (f c)))"
proof -
  have n: "c \<in> holders r k" using assms(2,3) by (simp add: consistent_def)
  obtain r' where "del k c r = Some r'" "ok r'" "holders r' = (holders r)(k := holders r k - {c})"
    using del_some [OF assms(1) n] by blast
  moreover from this(3) have "consistent (holders r') (f(c := remove1 k (f c)))"
    using assms(2) by (auto simp: consistent_def)
  ultimately show ?thesis by blast
qed

end

subsection \<open>Subscriptions\<close>

definition lists_ok :: "('k \<rightharpoonup> nat list) \<Rightarrow> bool" where
  "lists_ok m \<longleftrightarrow> (\<forall>k cs. m k = Some cs \<longrightarrow> cs \<noteq> [] \<and> distinct cs)"

lemma lists_ok_upd: "lists_ok m \<Longrightarrow> (\<And>cs. x = Some cs \<Longrightarrow> cs \<noteq> [] \<and> distinct cs) \<Longrightarrow> lists_ok (m(k := x))"
  by (simp add: lists_ok_def)

lemma lists_ok_get: "lists_ok m \<Longrightarrow> m k = Some cs \<Longrightarrow> cs \<noteq> [] \<and> distinct cs"
  by (simp add: lists_ok_def)

lemma remove1_Nil: "remove1 c cs = [] \<Longrightarrow> x \<in> set cs \<Longrightarrow> x = c"
  using in_set_remove1 [of x c cs] by auto

definition sub_ok :: "(bytes \<times> nat list) list \<Rightarrow> bool" where
  "sub_ok d \<longleftrightarrow> distinct (map fst d) \<and> lists_ok (map_of d)"

definition subscribers :: "(bytes \<times> nat list) list \<Rightarrow> bytes \<Rightarrow> nat set" where
  "subscribers d k = (case map_of d k of None \<Rightarrow> {} | Some cs \<Rightarrow> set cs)"

interpretation sub: registry sub_ok subscribers list_add list_del
proof
  fix r :: "(bytes \<times> nat list) list" and c k
  show "sub_ok (list_add k c r)" if "sub_ok r" "c \<notin> subscribers r k"
    using that lists_ok_get [of "map_of r" k]
    by (cases "map_of r k")
      (auto simp: sub_ok_def subscribers_def list_add_def distinct_update update_conv' simp del: map_of_eq_Some_iff intro!: lists_ok_upd)
  show "subscribers (list_add k c r) = (subscribers r)(k := insert c (subscribers r k))" if "sub_ok r" "c \<notin> subscribers r k"
    using that by (auto simp: subscribers_def list_add_def update_conv' fun_eq_iff split: option.splits)
  show "\<exists>r'. list_del k c r = Some r' \<and> sub_ok r' \<and> subscribers r' = (subscribers r)(k := subscribers r k - {c})"
    if h: "sub_ok r" "c \<in> subscribers r k"
  proof -
    obtain cs where cs: "map_of r k = Some cs" "c \<in> set cs" using h(2) by (auto simp: subscribers_def split: option.splits)
    have d: "distinct (map fst r)" "lists_ok (map_of r)" using h(1) by (simp_all add: sub_ok_def)
    let ?x = "if remove1 c cs = [] then None else Some (remove1 c cs)"
    let ?r = "if remove1 c cs = [] then AList.delete k r else AList.update k (remove1 c cs) r"
    have m: "map_of ?r = (map_of r)(k := ?x)" using d(1) by (simp add: delete_conv' update_conv')
    have "lists_ok ((map_of r)(k := ?x))"
      by (rule lists_ok_upd [OF d(2)]) (use lists_ok_get [OF d(2) cs(1)] in \<open>auto split: if_splits\<close>)
    moreover have "distinct (map fst ?r)" using d(1) by (simp add: distinct_delete distinct_update)
    ultimately have "sub_ok ?r" by (simp add: sub_ok_def m)
    moreover have "subscribers ?r = (subscribers r)(k := subscribers r k - {c})"
      using lists_ok_get [OF d(2) cs(1)] cs by (auto simp: subscribers_def m fun_eq_iff dest: remove1_Nil)
    moreover have "list_del k c r = Some ?r" using cs by (simp add: list_del_def Let_def)
    ultimately show ?thesis by blast
  qed
qed

subsection \<open>Watched keys\<close>

type_synonym wreg = "nat \<Rightarrow> bytes \<rightharpoonup> nat list"

definition wreg_ok :: "wreg \<Rightarrow> bool" where
  "wreg_ok w \<longleftrightarrow> (\<forall>i. lists_ok (w i))"

definition wholders :: "wreg \<Rightarrow> nat \<times> bytes \<Rightarrow> nat set" where
  "wholders w x = (case w (fst x) (snd x) of None \<Rightarrow> {} | Some cs \<Rightarrow> set cs)"

definition wreg_add :: "nat \<times> bytes \<Rightarrow> nat \<Rightarrow> wreg \<Rightarrow> wreg" where
  "wreg_add x c w = w(fst x := (w (fst x))(snd x \<mapsto> (case w (fst x) (snd x) of None \<Rightarrow> [] | Some cs \<Rightarrow> cs) @ [c]))"

definition wreg_del :: "nat \<times> bytes \<Rightarrow> nat \<Rightarrow> wreg \<Rightarrow> wreg option" where
  "wreg_del x c w = (case w (fst x) (snd x) of
      None \<Rightarrow> None
    | Some cs \<Rightarrow> if c \<in> set cs
        then Some (w(fst x := (w (fst x))(snd x := if remove1 c cs = [] then None else Some (remove1 c cs)))) else None)"

interpretation watch: registry wreg_ok wholders wreg_add wreg_del
proof
  fix r :: wreg and c k
  show "wreg_ok (wreg_add k c r)" if "wreg_ok r" "c \<notin> wholders r k"
    using that by (auto simp: wreg_ok_def lists_ok_def wholders_def wreg_add_def split: option.splits)
  show "wholders (wreg_add k c r) = (wholders r)(k := insert c (wholders r k))" if "wreg_ok r" "c \<notin> wholders r k"
    using that by (auto simp: wholders_def wreg_add_def fun_eq_iff prod_eq_iff split: option.splits)
  show "\<exists>r'. wreg_del k c r = Some r' \<and> wreg_ok r' \<and> wholders r' = (wholders r)(k := wholders r k - {c})"
    if h: "wreg_ok r" "c \<in> wholders r k"
  proof -
    obtain cs where cs: "r (fst k) (snd k) = Some cs" "c \<in> set cs" using h(2) by (auto simp: wholders_def split: option.splits)
    have d: "distinct cs" using h(1) lists_ok_get [of "r (fst k)" "snd k" cs] cs(1) by (simp add: wreg_ok_def)
    let ?x = "if remove1 c cs = [] then None else Some (remove1 c cs)"
    have "lists_ok ((r (fst k))(snd k := ?x))"
      by (rule lists_ok_upd) (use h(1) d in \<open>auto simp: wreg_ok_def split: if_splits\<close>)
    then have "wreg_ok (r(fst k := (r (fst k))(snd k := ?x)))" using h(1) by (auto simp: wreg_ok_def)
    moreover have "wholders (r(fst k := (r (fst k))(snd k := ?x))) = (wholders r)(k := wholders r k - {c})"
      using cs d by (auto simp: wholders_def fun_eq_iff prod_eq_iff dest: remove1_Nil)
    moreover have "wreg_del k c r = Some (r(fst k := (r (fst k))(snd k := ?x)))" using cs by (simp add: wreg_del_def)
    ultimately show ?thesis by blast
  qed
qed

end
