(* ===== verification/Server_Inv.thy ===== *)
theory Server_Inv
  imports Server_Refine Registry
begin

unbundle bit_operations_syntax

text \<open>
  The invariant of the server state, that every request keeps it and fails no assertion, and that
  a change of a watched key marks the clients that watch it.
\<close>

subsection \<open>The invariant\<close>

definition wreg_of :: "server \<Rightarrow> wreg" where
  "wreg_of s = (\<lambda>i. wkeys (db s i))"

definition queued_ok :: "multiCmd \<Rightarrow> bool" where
  "queued_ok m \<longleftrightarrow> mc_cmd m \<in> set redisCommandTable \<and> mc_argv m \<noteq> [] \<and> \<not> arity_error (mc_cmd m) (length (mc_argv m)) \<and>
     proc (mc_cmd m) \<notin> {p_execCommand, p_discardCommand, p_multiCommand, p_watchCommand} \<and> safe_args (mc_cmd m) (tl (mc_argv m))"

definition watch_inv :: "server \<Rightarrow> bool" where
  "watch_inv s \<longleftrightarrow> wreg_ok (wreg_of s) \<and> consistent (wholders (wreg_of s)) (\<lambda>c. watched (clients s c)) \<and>
     (\<forall>c. watched (clients s c) \<noteq> [] \<longrightarrow> c \<in> set (client_list s))"

definition pubsub_inv :: "server \<Rightarrow> bool" where
  "pubsub_inv s \<longleftrightarrow>
     sub_ok (pubsub_channels s) \<and> consistent (subscribers (pubsub_channels s)) (\<lambda>c. sub_channels (clients s c)) \<and>
     sub_ok (pubsub_patterns_dict s) \<and> consistent (subscribers (pubsub_patterns_dict s)) (\<lambda>c. sub_patterns (clients s c)) \<and>
     distinct (pubsub_patterns s) \<and> (\<forall>c p. (c, p) \<in> set (pubsub_patterns s) \<longleftrightarrow> p \<in> set (sub_patterns (clients s c)))"

definition srv_inv :: "server \<Rightarrow> bool" where
  "srv_inv s \<longleftrightarrow> db_ok s \<and> \<not> masterhost s \<and> \<not> loading s \<and> (\<forall>c. cdb (clients s c) < dbnum s) \<and> watch_inv s \<and> pubsub_inv s \<and>
     (\<forall>c. \<forall>m \<in> set (mcommands (clients s c)). queued_ok m) \<and>
     (\<forall>c. c \<notin> set (client_list s) \<longrightarrow> sub_channels (clients s c) = [] \<and> sub_patterns (clients s c) = [])"

lemma wholders_watchers: "wholders (wreg_of s) (i, k) = watchers s i k"
  by (simp add: wholders_def wreg_of_def watchers_def)

lemma watch_inv_ok: "watch_inv s \<Longrightarrow> watch_ok s"
  unfolding watch_inv_def watch_ok_def consistent_def wholders_watchers [symmetric] by (metis empty_iff empty_set)

text \<open>What the invariant depends on besides the databases.\<close>

definition inv_part :: "server \<Rightarrow> nat \<times> nat list \<times> bool \<times> bool \<times> (bytes \<times> nat list) list \<times> (nat \<times> bytes) list \<times> (bytes \<times> nat list) list \<times> wreg \<times>
    (nat \<Rightarrow> nat \<times> nat \<times> (nat \<times> bytes) list \<times> multiCmd list \<times> u64 \<times> bytes list \<times> bytes list)" where
  "inv_part s = (dbnum s, client_list s, masterhost s, loading s, pubsub_channels s, pubsub_patterns s, pubsub_patterns_dict s, wreg_of s,
     \<lambda>c. client_part (clients s c))"

lemma inv_part_clients:
  "inv_part s' = inv_part s \<Longrightarrow> cdb (clients s' c) = cdb (clients s c) \<and> watched (clients s' c) = watched (clients s c) \<and>
     mcommands (clients s' c) = mcommands (clients s c) \<and> sub_channels (clients s' c) = sub_channels (clients s c) \<and>
     sub_patterns (clients s' c) = sub_patterns (clients s c)"
  by (simp add: inv_part_def client_part_def fun_eq_iff)

lemma srv_inv_cong: "inv_part s' = inv_part s \<Longrightarrow> db_ok s' \<Longrightarrow> srv_inv s \<Longrightarrow> srv_inv s'"
  using inv_part_clients [of s' s] by (simp add: srv_inv_def watch_inv_def pubsub_inv_def inv_part_def)

lemma step_inv_part: "step K s s' \<Longrightarrow> inv_part s' = inv_part s"
  by (simp add: step_def inv_part_def server_part_def wreg_of_def)

subsection \<open>What a command does to the clients that watch keys\<close>

text \<open>
  Every client outside \<open>A\<close> keeps the keys it watches, stays marked if it was, and is marked if a
  key it watches changes, except for keys in \<open>K\<close>.
\<close>

definition marks :: "(nat \<times> bytes) set \<Rightarrow> nat set \<Rightarrow> server \<Rightarrow> server \<Rightarrow> bool" where
  "marks K A s s' \<longleftrightarrow>
     (\<forall>c. c \<notin> A \<longrightarrow> set (watched (clients s c)) \<subseteq> set (watched (clients s' c)) \<and>
       (dirty_cas (clients s c) \<longrightarrow> dirty_cas (clients s' c)) \<and>
       (\<forall>i k. (i, k) \<in> set (watched (clients s c)) \<longrightarrow> (i, k) \<notin> K \<longrightarrow> entry s' i k \<noteq> entry s i k \<longrightarrow> dirty_cas (clients s' c)))"

text \<open>Moreover no command is queued and no client comes or goes.\<close>

definition oth :: "(nat \<times> bytes) set \<Rightarrow> nat set \<Rightarrow> server \<Rightarrow> server \<Rightarrow> bool" where
  "oth K A s s' \<longleftrightarrow> dbnum s' = dbnum s \<and> client_list s' = client_list s \<and> clock s' = clock s \<and>
     (\<forall>c. set (mcommands (clients s' c)) \<subseteq> set (mcommands (clients s c))) \<and> marks K A s s'"

lemma marksD:
  assumes "marks K A s s'" "c \<notin> A" "(i, k) \<in> set (watched (clients s c))"
  shows "(i, k) \<in> set (watched (clients s' c))" "dirty_cas (clients s c) \<Longrightarrow> dirty_cas (clients s' c)"
    "(i, k) \<notin> K \<Longrightarrow> entry s' i k \<noteq> entry s i k \<Longrightarrow> dirty_cas (clients s' c)"
  using assms unfolding marks_def by blast+

lemma marks_trans:
  assumes "marks K A s s'" "marks K A s' s''"
  shows "marks K A s s''"
proof -
  have "dirty_cas (clients s'' c)"
    if "c \<notin> A" "(i, k) \<in> set (watched (clients s c))" "(i, k) \<notin> K" "entry s'' i k \<noteq> entry s i k" for c i k
    using marksD [OF assms(1) that(1,2)] marksD [OF assms(2) that(1), of i k] that(3,4)
    by (cases "entry s' i k = entry s i k") simp_all
  then show ?thesis using assms unfolding marks_def by (simp, blast)
qed

lemma oth_refl [simp]: "oth K A s s"
  by (simp add: oth_def marks_def)

lemma oth_trans: "oth K A s s' \<Longrightarrow> oth K A s' s'' \<Longrightarrow> oth K A s s''"
  unfolding oth_def by (auto intro: marks_trans)

lemma oth_mono: "oth K A s s' \<Longrightarrow> K \<subseteq> K' \<Longrightarrow> A \<subseteq> A' \<Longrightarrow> oth K' A' s s'"
  unfolding oth_def marks_def by (simp add: subset_iff, blast)

lemma step_oth:
  assumes "step K s s'" "watch_inv s"
  shows "oth K A s s'"
proof -
  have "c \<in> watchers s i k \<longleftrightarrow> (i, k) \<in> set (watched (clients s c))" for c i k
    using assms(2) unfolding watch_inv_def consistent_def wholders_watchers [symmetric] by blast
  then show ?thesis
    using assms(1) step_dirty_mono [OF assms(1)]
    by (auto simp: oth_def marks_def step_def server_part_def client_part_def)
qed

subsection \<open>The commands on the keyspace\<close>

definition ctl_procs :: "proc set" where
  "ctl_procs = {p_multiCommand, p_execCommand, p_discardCommand, p_subscribeCommand, p_unsubscribeCommand, p_psubscribeCommand,
     p_punsubscribeCommand, p_publishCommand, p_watchCommand, p_unwatchCommand, p_selectCommand}"

lemmas command_table_defs = redisCommandTable_def table_strings_def table_ranges_def table_incrby_def table_mset_def table_select_def
  table_keys_def table_multi_def table_flush_def table_ttl_def table_pubsub_def table_watch_def command_def

lemma list_len:
  "length xs = 1 \<longleftrightarrow> (\<exists>a. xs = [a])" "length xs = 2 \<longleftrightarrow> (\<exists>a b. xs = [a, b])"
  "length xs = 3 \<longleftrightarrow> (\<exists>a b c. xs = [a, b, c])" "length xs = 4 \<longleftrightarrow> (\<exists>a b c d. xs = [a, b, c, d])"
  "3 \<le> length xs \<longleftrightarrow> (\<exists>a b c ds. xs = a # b # c # ds)"
  by (auto simp: length_Suc_conv numeral_eq_Suc Suc_le_length_iff)

lemma key_spec_total:
  assumes "cm \<in> set redisCommandTable" "\<not> arity_error cm (length args)" "proc cm \<notin> ctl_procs"
  shows "\<exists>r. key_spec cm (tl args) now n i V = Some r"
  using assms
  by (auto simp: command_table_defs arity_error_def ctl_procs_def key_spec_def list_len not_less)

text \<open>The state after a command: the invariant holds and the watching clients are dealt with.\<close>

definition good :: "(nat \<times> bytes) set \<Rightarrow> nat set \<Rightarrow> server \<Rightarrow> server \<Rightarrow> bool" where
  "good K A s s' \<longleftrightarrow> srv_inv s' \<and> oth K A s s'"

lemma good_refl: "srv_inv s \<Longrightarrow> good K A s s"
  by (simp add: good_def)

lemma good_trans: "good K A s s' \<Longrightarrow> good K A s' s'' \<Longrightarrow> good K A s s''"
  unfolding good_def by (blast intro: oth_trans)

lemma good_mono: "good K A s s' \<Longrightarrow> K \<subseteq> K' \<Longrightarrow> A \<subseteq> A' \<Longrightarrow> good K' A' s s'"
  unfolding good_def by (blast intro: oth_mono)

lemma goodD: "good K A s s' \<Longrightarrow> srv_inv s'" "good K A s s' \<Longrightarrow> client_list s' = client_list s"
    "good K A s s' \<Longrightarrow> clock s' = clock s" "good K A s s' \<Longrightarrow> dbnum s' = dbnum s"
    "good K A s s' \<Longrightarrow> set (mcommands (clients s' c)) \<subseteq> set (mcommands (clients s c))"
  by (simp_all add: good_def oth_def marks_def)

lemma good_same:
  assumes "srv_inv s" "inv_part s' = inv_part s" "db s' = db s" "clock s' = clock s"
    "\<And>c. c \<notin> A \<Longrightarrow> dirty_cas (clients s c) \<Longrightarrow> dirty_cas (clients s' c)"
  shows "good K A s s'"
proof -
  have "entry s' = entry s" "db_ok s'" using assms(1,3) by (simp_all add: entry_def db_ok_def srv_inv_def fun_eq_iff)
  then show ?thesis
    using assms(2,4,5) srv_inv_cong [OF assms(2) _ assms(1)] inv_part_clients [OF assms(2)]
    by (simp add: good_def oth_def marks_def) (simp add: inv_part_def)
qed

lemma step_good: "srv_inv s \<Longrightarrow> db_ok s' \<Longrightarrow> step K s s' \<Longrightarrow> good K A s s'"
  using srv_inv_cong [OF step_inv_part] step_oth [of K s s' A] by (simp add: good_def srv_inv_def)

lemma quiet_good: "srv_inv s \<Longrightarrow> quiet s s' \<Longrightarrow> good K A s s'"
  using quiet_db [of s s'] good_mono [OF step_good [of s s' "{}" A], of K A] by (simp add: quiet_def srv_inv_def)

lemmas upd_part_defs = inv_part_def upd_client_def wreg_of_def client_part_def

lemma reply_good: "srv_inv s \<Longrightarrow> good K A s (addReply c r s)"
  by (rule good_same) (auto simp: upd_part_defs addReply_def fun_eq_iff)

lemma set_flags_good: "srv_inv s \<Longrightarrow> good K A s (set_flags c m s)"
  by (rule good_same) (auto simp: upd_part_defs set_flags_def fun_eq_iff)

lemma has_flag_clear_other: "\<not> has_flag m m' \<Longrightarrow> has_flag (f AND NOT m) m' = has_flag f m'"
  unfolding has_flag_clear unfolding has_flag_iff by blast

lemma clear_flags_good:
  assumes "srv_inv s" "c \<in> A \<or> \<not> has_flag m CLIENT_DIRTY_CAS"
  shows "good K A s (clear_flags c m s)"
  by (rule good_same) (use assms in \<open>auto simp: upd_part_defs clear_flags_def fun_eq_iff has_flag_clear_other\<close>)

subsection \<open>Watching\<close>

definition config :: "server \<Rightarrow> nat \<times> nat list \<times> int \<times> bool \<times> bool" where
  "config s = (dbnum s, client_list s, clock s, masterhost s, loading s)"

lemma good_ctl:
  assumes "srv_inv s" "entry s' = entry s" "\<And>i. kv (db s' i) = kv (db s i)" "\<And>c'. c' \<noteq> c \<Longrightarrow> clients s' c' = clients s c'"
    "config s' = config s" "cdb (clients s' c) < dbnum s" "set (mcommands (clients s' c)) \<subseteq> set (mcommands (clients s c))"
    "watch_inv s'" "pubsub_inv s'"
    "c \<notin> A \<Longrightarrow> set (watched (clients s c)) \<subseteq> set (watched (clients s' c)) \<and> (dirty_cas (clients s c) \<longrightarrow> dirty_cas (clients s' c))"
    "c \<notin> set (client_list s) \<Longrightarrow> sub_channels (clients s' c) = [] \<and> sub_patterns (clients s' c) = []"
  shows "good K A s s'"
proof -
  have "cdb (clients s' c') < dbnum s" for c' using assms(1,4,6) by (cases "c' = c") (simp_all add: srv_inv_def)
  moreover have q: "set (mcommands (clients s' c')) \<subseteq> set (mcommands (clients s c'))" for c'
    using assms(4,7) by (cases "c' = c") simp_all
  moreover have "\<forall>m \<in> set (mcommands (clients s' c')). queued_ok m" for c'
    using q [of c'] assms(1) unfolding srv_inv_def by blast
  moreover have "set (watched (clients s c')) \<subseteq> set (watched (clients s' c')) \<and> (dirty_cas (clients s c') \<longrightarrow> dirty_cas (clients s' c'))"
    if "c' \<notin> A" for c' using assms(4,10) that by (cases "c' = c") simp_all
  moreover have "c' \<notin> set (client_list s) \<longrightarrow> sub_channels (clients s' c') = [] \<and> sub_patterns (clients s' c') = []" for c'
    using assms(1,4,11) by (cases "c' = c") (simp_all add: srv_inv_def)
  ultimately show ?thesis
    using assms(1-3,5,8,9) by (simp add: good_def srv_inv_def db_ok_def oth_def marks_def config_def)
qed

lemma watch_inv_other: "watch_inv s \<Longrightarrow> wreg_of s' = wreg_of s \<Longrightarrow> client_list s' = client_list s \<Longrightarrow>
    (\<And>c. watched (clients s' c) = watched (clients s c)) \<Longrightarrow> watch_inv s'"
  by (simp add: watch_inv_def)

lemma pubsub_inv_other: "pubsub_inv s \<Longrightarrow> pubsub_channels s' = pubsub_channels s \<Longrightarrow> pubsub_patterns s' = pubsub_patterns s \<Longrightarrow>
    pubsub_patterns_dict s' = pubsub_patterns_dict s \<Longrightarrow> (\<And>c. sub_channels (clients s' c) = sub_channels (clients s c)) \<Longrightarrow>
    (\<And>c. sub_patterns (clients s' c) = sub_patterns (clients s c)) \<Longrightarrow> pubsub_inv s'"
  by (simp add: pubsub_inv_def)

lemma watchForKey_good:
  assumes "srv_inv s" "c \<in> set (client_list s)"
  shows "good K {} s (watchForKey c k s)"
proof (cases "(cdb (clients s c), k) \<in> set (watched (clients s c))")
  case True
  then show ?thesis using assms by (simp add: watchForKey_def good_refl)
next
  case False
  let ?x = "(cdb (clients s c), k)" and ?s' = "watchForKey c k s"
  have w: "wreg_of ?s' = wreg_add ?x c (wreg_of s)"
    using False by (auto simp: watchForKey_def Let_def wreg_of_def wreg_add_def upd_client_def fun_eq_iff)
  have cl: "clients ?s' = (clients s)(c := (clients s c)\<lparr>watched := watched (clients s c) @ [?x]\<rparr>)"
    using False by (simp add: watchForKey_def Let_def upd_client_def upd_db_def)
  have f: "(\<lambda>c'. watched (clients ?s' c')) = (\<lambda>c'. watched (clients s c'))(c := watched (clients s c) @ [?x])"
    by (auto simp: cl)
  have "watch_inv s" using assms by (simp add: srv_inv_def)
  then have "wreg_ok (wreg_of ?s') \<and> consistent (wholders (wreg_of ?s')) (\<lambda>c'. watched (clients ?s' c'))"
    unfolding w f using False by (intro watch.consistent_add) (simp_all add: watch_inv_def)
  moreover have o: "client_list ?s' = client_list s" "pubsub_channels ?s' = pubsub_channels s" "pubsub_patterns ?s' = pubsub_patterns s"
      "pubsub_patterns_dict ?s' = pubsub_patterns_dict s" "config ?s' = config s"
    using False by (simp_all add: watchForKey_def Let_def upd_client_def upd_db_def config_def)
  ultimately have "watch_inv ?s'" using \<open>watch_inv s\<close> assms(2) by (auto simp: watch_inv_def cl)
  moreover have "pubsub_inv ?s'"
    by (rule pubsub_inv_other [of s]) (use assms(1) o in \<open>simp_all add: srv_inv_def cl\<close>)
  moreover have "entry ?s' = entry s" "\<And>i. kv (db ?s' i) = kv (db s i)"
    using False by (simp_all add: watchForKey_def Let_def upd_client_def upd_db_def entry_def fun_eq_iff)
  ultimately show ?thesis
    using assms(1) o(5) by (intro good_ctl) (auto simp: cl srv_inv_def)
qed

lemma watch_loop_good:
  assumes "srv_inv s" "c \<in> set (client_list s)"
  shows "good K {} s (watch_loop c ks s)"
  using assms
proof (induction ks arbitrary: s)
  case (Cons k ks)
  have g: "good K {} s (watchForKey c k s)" by (rule watchForKey_good [OF Cons.prems])
  then have "srv_inv (watchForKey c k s)" "c \<in> set (client_list (watchForKey c k s))"
    using Cons.prems(2) by (simp_all add: goodD [OF g])
  from Cons.IH [OF this] show ?case using g by (auto intro: good_trans)
qed (simp add: good_def)

text \<open>What unwatching leaves alone.\<close>

definition unwatched :: "nat \<Rightarrow> server \<Rightarrow> server \<Rightarrow> bool" where
  "unwatched c s s' \<longleftrightarrow> entry s' = entry s \<and> np s' = np s \<and> dirty s' = dirty s \<and> mstime s' = mstime s \<and>
     flags (clients s' c) = flags (clients s c) \<and> cdb (clients s' c) = cdb (clients s c) \<and> mcommands (clients s' c) = mcommands (clients s c) \<and>
     argv (clients s' c) = argv (clients s c) \<and> cmd (clients s' c) = cmd (clients s c)"

lemma unwatch_key_good:
  assumes "srv_inv s" "watched (clients s c) = (i, k) # ws"
  shows "wp (unwatch_key c i k s) (\<lambda>s'. good K {c} s s' \<and> unwatched c s s' \<and> watched (clients s' c) = ws)"
proof -
  let ?x = "(i, k)"
  have inv: "watch_inv s" using assms(1) by (simp add: srv_inv_def)
  have "\<exists>r'. wreg_del ?x c (wreg_of s) = Some r' \<and> wreg_ok r' \<and>
      consistent (wholders r') ((\<lambda>c'. watched (clients s c'))(c := remove1 ?x (watched (clients s c))))"
    by (rule watch.consistent_del) (use inv assms(2) in \<open>simp_all add: watch_inv_def\<close>)
  then obtain r' where r: "wreg_del ?x c (wreg_of s) = Some r'" "wreg_ok r'"
      "consistent (wholders r') ((\<lambda>c'. watched (clients s c'))(c := ws))"
    using assms(2) by auto
  then obtain cs where cs: "wkeys (db s i) k = Some cs" "c \<in> set cs"
    by (auto simp: wreg_del_def wreg_of_def split: option.splits if_splits)
  define s' where "s' = upd_client c (\<lambda>cl. cl\<lparr>watched := remove1 ?x (watched cl)\<rparr>)
    (upd_db i (\<lambda>d. d\<lparr>wkeys := (wkeys d)(k := if remove1 c cs = [] then None else Some (remove1 c cs))\<rparr>) s)"
  have run: "unwatch_key c i k s = Some s'" using cs by (simp add: unwatch_key_def s'_def serverAssert_def Let_def)
  have "r' = (wreg_of s)(i := (wreg_of s i)(k := if remove1 c cs = [] then None else Some (remove1 c cs)))"
    using r(1) cs by (simp add: wreg_del_def wreg_of_def)
  then have w: "wreg_of s' = r'" by (auto simp: s'_def wreg_of_def upd_client_def fun_eq_iff)
  have cl: "clients s' = (clients s)(c := (clients s c)\<lparr>watched := ws\<rparr>)" using assms(2) by (simp add: s'_def upd_client_def upd_db_def)
  have f: "(\<lambda>c'. watched (clients s' c')) = (\<lambda>c'. watched (clients s c'))(c := ws)" by (auto simp: cl)
  have o: "config s' = config s" "pubsub_channels s' = pubsub_channels s" "pubsub_patterns s' = pubsub_patterns s"
      "pubsub_patterns_dict s' = pubsub_patterns_dict s" "entry s' = entry s" "\<And>j. kv (db s' j) = kv (db s j)" "dirty s' = dirty s" "mstime s' = mstime s"
    by (simp_all add: s'_def upd_client_def upd_db_def config_def entry_def fun_eq_iff)
  have "watch_inv s'"
    using inv r(2,3) o(1) assms(2) unfolding watch_inv_def w f by (auto simp: cl config_def)
  moreover have "pubsub_inv s'" by (rule pubsub_inv_other [of s]) (use assms(1) o in \<open>simp_all add: srv_inv_def cl\<close>)
  ultimately have "good K {c} s s'"
    using assms(1) o by (intro good_ctl) (auto simp: cl srv_inv_def)
  then show ?thesis by (simp add: run unwatched_def o cl np_def fun_eq_iff)
qed

lemma unwatchAllKeys_good:
  assumes "srv_inv s"
  shows "wp (unwatchAllKeys c s) (\<lambda>s'. good K {c} s s' \<and> unwatched c s s' \<and> watched (clients s' c) = [])"
proof -
  have "wp (unwatch_loop c ws s) (\<lambda>s'. good K {c} s s' \<and> unwatched c s s' \<and> watched (clients s' c) = [])"
    if "srv_inv s" "watched (clients s c) = ws" for ws s
    using that
  proof (induction ws arbitrary: s)
    case Nil
    then show ?case by (simp add: good_def unwatched_def)
  next
    case (Cons x ws)
    obtain i k where x: "x = (i, k)" by (cases x)
    show ?case
      unfolding x unwatch_loop.simps wp_bind
    proof (rule wp_mono [OF unwatch_key_good [of s c i k ws K]], goal_cases)
      case (3 s1)
      have "srv_inv s1" using 3 by (simp add: good_def)
      from Cons.IH [OF this] 3 show ?case
        by (auto elim!: wp_mono intro: good_trans simp: unwatched_def)
    qed (use Cons.prems x in simp_all)
  qed
  then show ?thesis using assms by (simp add: unwatchAllKeys_def)
qed

end
