(* ===== verification/Server_Control.thy ===== *)
theory Server_Control
  imports Server_Inv
begin

unbundle bit_operations_syntax

text \<open>
  Subscriptions, transactions, the execution of commands and the processing of a request keep the
  invariant of the server.
\<close>

subsection \<open>Subscriptions\<close>

text \<open>A change of the tables of subscriptions and of the subscriptions of one client.\<close>

lemma good_sub:
  assumes "srv_inv s" "db s' = db s" "config s' = config s" "pubsub_inv s'"
    and cl: "clients s' = (clients s)(c := (clients s c)\<lparr>sub_channels := xs, sub_patterns := ys\<rparr>)"
    and l: "c \<in> set (client_list s)"
  shows "good K A s s'"
proof (rule good_ctl [where c = c])
  show "watch_inv s'"
    by (rule watch_inv_other [of s]) (use assms(1-3) in \<open>simp_all add: srv_inv_def cl wreg_of_def config_def\<close>)
qed (use assms in \<open>auto simp: srv_inv_def entry_def fun_eq_iff\<close>)

lemma good_then:
  assumes "good K A s s1"
  shows "good K A s (addReply c r s1)" "good K A s (set_flags c m s1)"
    "c \<in> A \<or> \<not> has_flag m CLIENT_DIRTY_CAS \<Longrightarrow> good K A s (clear_flags c m s1)"
  using good_trans [OF assms] reply_good set_flags_good clear_flags_good goodD(1) [OF assms] by blast+

lemma srv_inv_channels: "srv_inv s \<Longrightarrow> sub_ok (pubsub_channels s) \<and> consistent (subscribers (pubsub_channels s)) (\<lambda>c. sub_channels (clients s c))"
  by (simp add: srv_inv_def pubsub_inv_def)

lemma srv_inv_patterns: "srv_inv s \<Longrightarrow> sub_ok (pubsub_patterns_dict s) \<and> consistent (subscribers (pubsub_patterns_dict s)) (\<lambda>c. sub_patterns (clients s c))"
  by (simp add: srv_inv_def pubsub_inv_def)

lemma subscribed_client: "srv_inv s \<Longrightarrow> k \<in> set (sub_channels (clients s c)) \<or> k \<in> set (sub_patterns (clients s c)) \<Longrightarrow> c \<in> set (client_list s)"
  unfolding srv_inv_def by force

lemma pubsub_inv_channels:
  assumes "pubsub_inv s" "sub_ok (pubsub_channels s')"
    "consistent (subscribers (pubsub_channels s')) ((\<lambda>c. sub_channels (clients s c))(c := xs))"
    "clients s' = (clients s)(c := (clients s c)\<lparr>sub_channels := xs\<rparr>)"
    "pubsub_patterns s' = pubsub_patterns s" "pubsub_patterns_dict s' = pubsub_patterns_dict s"
  shows "pubsub_inv s'"
proof -
  have "(\<lambda>c. sub_channels (clients s' c)) = (\<lambda>c. sub_channels (clients s c))(c := xs)"
    "\<And>c. sub_patterns (clients s' c) = sub_patterns (clients s c)"
    using assms(4) by auto
  then show ?thesis using assms(1-3,5,6) by (simp add: pubsub_inv_def)
qed

lemma pubsub_inv_patterns:
  assumes "pubsub_inv s" "sub_ok (pubsub_patterns_dict s')"
    "consistent (subscribers (pubsub_patterns_dict s')) ((\<lambda>c. sub_patterns (clients s c))(c := xs))"
    "clients s' = (clients s)(c := (clients s c)\<lparr>sub_patterns := xs\<rparr>)"
    "distinct (pubsub_patterns s')" "set (pubsub_patterns s') = {(c', p). p \<in> set (if c' = c then xs else sub_patterns (clients s c'))}"
    "pubsub_channels s' = pubsub_channels s"
  shows "pubsub_inv s'"
proof -
  have "(\<lambda>c. sub_patterns (clients s' c)) = (\<lambda>c. sub_patterns (clients s c))(c := xs)"
    "\<And>c. sub_channels (clients s' c) = sub_channels (clients s c)"
    using assms(4) by auto
  then show ?thesis using assms(1-3,4,5,6,7) by (simp add: pubsub_inv_def)
qed

lemma pub_reply_good: "srv_inv s \<Longrightarrow> good K A s (pub_reply c items s)"
  by (rule quiet_good [OF _ quiet_pub_reply])

lemma pubsubSubscribeChannel_good:
  assumes "srv_inv s" and l: "c \<in> set (client_list s)"
  shows "good K A s (fst (pubsubSubscribeChannel c ch s))"
proof -
  let ?cl = "clients s c"
  define s1 where "s1 = (if ch \<in> set (sub_channels ?cl) then s else
    (upd_client c (\<lambda>cl. cl\<lparr>sub_channels := sub_channels cl @ [ch]\<rparr>) s)\<lparr>pubsub_channels := list_add ch c (pubsub_channels s)\<rparr>)"
  have "good K A s s1"
  proof (cases "ch \<in> set (sub_channels ?cl)")
    case False
    have "sub_ok (list_add ch c (pubsub_channels s)) \<and>
        consistent (subscribers (list_add ch c (pubsub_channels s))) ((\<lambda>c. sub_channels (clients s c))(c := sub_channels ?cl @ [ch]))"
      using srv_inv_channels [OF assms(1)] False by (intro sub.consistent_add) simp_all
    then have "pubsub_inv s1"
      using assms False by (intro pubsub_inv_channels [of s s1 c "sub_channels ?cl @ [ch]"])
        (simp_all add: srv_inv_def s1_def upd_client_def)
    then show ?thesis
      using assms False by (intro good_sub [where c = c and xs = "sub_channels ?cl @ [ch]" and ys = "sub_patterns ?cl"])
        (simp_all add: s1_def upd_client_def config_def)
  qed (use assms in \<open>simp add: s1_def good_refl\<close>)
  moreover have "fst (pubsubSubscribeChannel c ch s) = addReplyPubsubSubscribed c ch s1"
    by (simp add: pubsubSubscribeChannel_def s1_def Let_def upd_client_def)
  ultimately show ?thesis
    unfolding addReplyPubsubSubscribed_def by (auto intro: good_trans pub_reply_good dest: goodD)
qed

lemma pubsubUnsubscribeChannel_good:
  assumes "srv_inv s"
  shows "wp (pubsubUnsubscribeChannel c ch notify s) (\<lambda>r. good K A s (fst r))"
proof -
  let ?cl = "clients s c"
  have fin: "good K A s (if notify then addReplyPubsubUnsubscribed c (Some ch) s1 else s1)" if "good K A s s1" for s1
    using that unfolding addReplyPubsubUnsubscribed_def by (auto intro: good_trans pub_reply_good dest: goodD)
  show ?thesis
  proof (cases "ch \<in> set (sub_channels ?cl)")
    case True
    have u: "removeAll ch (sub_channels ?cl) = remove1 ch (sub_channels ?cl)"
      using srv_inv_channels [OF assms] by (simp add: consistent_def distinct_remove1_removeAll)
    obtain d where d: "list_del ch c (pubsub_channels s) = Some d" "sub_ok d"
        "consistent (subscribers d) ((\<lambda>c. sub_channels (clients s c))(c := remove1 ch (sub_channels ?cl)))"
      using sub.consistent_del [of "pubsub_channels s" "\<lambda>c. sub_channels (clients s c)" ch c] srv_inv_channels [OF assms] True by blast
    define s1 where "s1 = (upd_client c (\<lambda>cl. cl\<lparr>sub_channels := removeAll ch (sub_channels cl)\<rparr>) s)\<lparr>pubsub_channels := d\<rparr>"
    have "pubsub_inv s1"
      using assms d by (intro pubsub_inv_channels [of s s1 c "remove1 ch (sub_channels ?cl)"])
        (simp_all add: srv_inv_def s1_def upd_client_def u)
    then have "good K A s s1"
      using assms subscribed_client [OF assms, of ch c] True by (intro good_sub [where c = c and xs = "remove1 ch (sub_channels ?cl)" and ys = "sub_patterns ?cl"])
        (simp_all add: s1_def upd_client_def config_def u)
    moreover have "pubsubUnsubscribeChannel c ch notify s = Some (if notify then addReplyPubsubUnsubscribed c (Some ch) s1 else s1, 1)"
      using True d(1) by (simp add: pubsubUnsubscribeChannel_def s1_def upd_client_def)
    ultimately show ?thesis by (simp add: fin)
  qed (use fin [of s] assms in \<open>simp add: pubsubUnsubscribeChannel_def good_refl\<close>)
qed

lemma pubsubSubscribePattern_good:
  assumes "srv_inv s" and l: "c \<in> set (client_list s)"
  shows "good K A s (fst (pubsubSubscribePattern c p s))"
proof -
  let ?cl = "clients s c"
  define s1 where "s1 = (if p \<in> set (sub_patterns ?cl) then s else
    (upd_client c (\<lambda>cl. cl\<lparr>sub_patterns := sub_patterns cl @ [p]\<rparr>) s)\<lparr>
      pubsub_patterns := pubsub_patterns s @ [(c, p)], pubsub_patterns_dict := list_add p c (pubsub_patterns_dict s)\<rparr>)"
  have "good K A s s1"
  proof (cases "p \<in> set (sub_patterns ?cl)")
    case False
    have "sub_ok (list_add p c (pubsub_patterns_dict s)) \<and>
        consistent (subscribers (list_add p c (pubsub_patterns_dict s))) ((\<lambda>c. sub_patterns (clients s c))(c := sub_patterns ?cl @ [p]))"
      using srv_inv_patterns [OF assms(1)] False by (intro sub.consistent_add) simp_all
    then have "pubsub_inv s1"
      using assms False by (intro pubsub_inv_patterns [of s s1 c "sub_patterns ?cl @ [p]"])
        (auto simp: srv_inv_def pubsub_inv_def s1_def upd_client_def split: if_splits)
    then show ?thesis
      using assms False by (intro good_sub [where c = c and xs = "sub_channels ?cl" and ys = "sub_patterns ?cl @ [p]"])
        (simp_all add: s1_def upd_client_def config_def)
  qed (use assms in \<open>simp add: s1_def good_refl\<close>)
  moreover have "fst (pubsubSubscribePattern c p s) = addReplyPubsubPatSubscribed c p s1"
    by (simp add: pubsubSubscribePattern_def s1_def Let_def upd_client_def)
  ultimately show ?thesis
    unfolding addReplyPubsubPatSubscribed_def by (auto intro: good_trans pub_reply_good dest: goodD)
qed

lemma pubsubUnsubscribePattern_good:
  assumes "srv_inv s"
  shows "wp (pubsubUnsubscribePattern c p notify s) (\<lambda>r. good K A s (fst r))"
proof -
  let ?cl = "clients s c"
  have fin: "good K A s (if notify then addReplyPubsubPatUnsubscribed c (Some p) s1 else s1)" if "good K A s s1" for s1
    using that unfolding addReplyPubsubPatUnsubscribed_def by (auto intro: good_trans pub_reply_good dest: goodD)
  show ?thesis
  proof (cases "p \<in> set (sub_patterns ?cl)")
    case True
    have l: "distinct (pubsub_patterns s)" "\<And>c' q. (c', q) \<in> set (pubsub_patterns s) \<longleftrightarrow> q \<in> set (sub_patterns (clients s c'))"
      using assms by (simp_all add: srv_inv_def pubsub_inv_def)
    have dist: "distinct (sub_patterns ?cl)" using srv_inv_patterns [OF assms] by (simp add: consistent_def)
    obtain d where d: "list_del p c (pubsub_patterns_dict s) = Some d" "sub_ok d"
        "consistent (subscribers d) ((\<lambda>c. sub_patterns (clients s c))(c := remove1 p (sub_patterns ?cl)))"
      using sub.consistent_del [of "pubsub_patterns_dict s" "\<lambda>c. sub_patterns (clients s c)" p c] srv_inv_patterns [OF assms] True by blast
    define s1 where "s1 = (upd_client c (\<lambda>cl. cl\<lparr>sub_patterns := remove1 p (sub_patterns cl)\<rparr>) s)\<lparr>
      pubsub_patterns := remove1 (c, p) (pubsub_patterns s), pubsub_patterns_dict := d\<rparr>"
    have "set (pubsub_patterns s1) = {(c', q). q \<in> set (if c' = c then remove1 p (sub_patterns ?cl) else sub_patterns (clients s c'))}"
      using l dist by (auto simp: s1_def split: if_splits)
    then have "pubsub_inv s1"
      using assms d l(1) by (intro pubsub_inv_patterns [of s s1 c "remove1 p (sub_patterns ?cl)"])
        (simp_all add: srv_inv_def s1_def upd_client_def)
    then have "good K A s s1"
      using assms subscribed_client [OF assms, of p c] True by (intro good_sub [where c = c and xs = "sub_channels ?cl" and ys = "remove1 p (sub_patterns ?cl)"])
        (simp_all add: s1_def upd_client_def config_def)
    moreover have "pubsubUnsubscribePattern c p notify s = Some (if notify then addReplyPubsubPatUnsubscribed c (Some p) s1 else s1, 1)"
      using True d(1) l(2) by (simp add: pubsubUnsubscribePattern_def s1_def upd_client_def serverAssert_def)
    ultimately show ?thesis by (simp add: fin)
  qed (use fin [of s] assms in \<open>simp add: pubsubUnsubscribePattern_def good_refl\<close>)
qed

text \<open>Loops.\<close>

lemma subscribe_loop_good: "srv_inv s \<Longrightarrow> c \<in> set (client_list s) \<Longrightarrow> good K A s (subscribe_loop c chs s)"
proof (induction chs arbitrary: s)
  case (Cons ch chs)
  note g = pubsubSubscribeChannel_good [OF Cons.prems, of K A ch]
  then show ?case
    using good_trans [OF g Cons.IH [OF goodD(1) [OF g]]] Cons.prems(2) by (simp add: goodD(2) [OF g])
qed (simp add: good_refl)

lemma psubscribe_loop_good: "srv_inv s \<Longrightarrow> c \<in> set (client_list s) \<Longrightarrow> good K A s (psubscribe_loop c ps s)"
proof (induction ps arbitrary: s)
  case (Cons p ps)
  note g = pubsubSubscribePattern_good [OF Cons.prems, of K A p]
  then show ?case
    using good_trans [OF g Cons.IH [OF goodD(1) [OF g]]] Cons.prems(2) by (simp add: goodD(2) [OF g])
qed (simp add: good_refl)

lemma unsubscribe_channels_good: "srv_inv s \<Longrightarrow> wp (unsubscribe_channels c chs notify s) (\<lambda>r. good K A s (fst r))"
proof (induction chs arbitrary: s)
  case (Cons ch chs)
  show ?case
    unfolding unsubscribe_channels.simps wp_bind split_beta
  proof (rule wp_mono [OF pubsubUnsubscribeChannel_good [OF Cons.prems, of c ch notify K A]])
    fix r :: "server \<times> nat" assume r: "good K A s (fst r)"
    show "wp (unsubscribe_channels c chs notify (fst r)) (\<lambda>x. wp (Some (fst x, snd r + snd x)) (\<lambda>r. good K A s (fst r)))"
      by (rule wp_mono [OF Cons.IH [OF goodD(1) [OF r]]]) (simp add: good_trans [OF r])
  qed
qed (simp add: good_refl)

lemma unsubscribe_patterns_good: "srv_inv s \<Longrightarrow> wp (unsubscribe_patterns c ps notify s) (\<lambda>r. good K A s (fst r))"
proof (induction ps arbitrary: s)
  case (Cons p ps)
  show ?case
    unfolding unsubscribe_patterns.simps wp_bind split_beta
  proof (rule wp_mono [OF pubsubUnsubscribePattern_good [OF Cons.prems, of c p notify K A]])
    fix r :: "server \<times> nat" assume r: "good K A s (fst r)"
    show "wp (unsubscribe_patterns c ps notify (fst r)) (\<lambda>x. wp (Some (fst x, snd r + snd x)) (\<lambda>r. good K A s (fst r)))"
      by (rule wp_mono [OF Cons.IH [OF goodD(1) [OF r]]]) (simp add: good_trans [OF r])
  qed
qed (simp add: good_refl)

lemma pubsub_flag [simp]: "\<not> has_flag CLIENT_PUBSUB CLIENT_DIRTY_CAS"
  unfolding flag_simps by auto

lemma leave_pubsub_good: "srv_inv s \<Longrightarrow> good K A s (leave_pubsub c s)"
  by (simp add: leave_pubsub_def good_refl clear_flags_good)

lemma unsubscribeAll_good:
  assumes "srv_inv s"
  shows "wp (pubsubUnsubscribeAllChannels c True s) (\<lambda>r. good K A s (fst r))"
    and "wp (pubsubUnsubscribeAllPatterns c True s) (\<lambda>r. good K A s (fst r))"
  unfolding pubsubUnsubscribeAllChannels_def pubsubUnsubscribeAllPatterns_def wp_bind split_beta
    addReplyPubsubUnsubscribed_def addReplyPubsubPatUnsubscribed_def
  by (rule wp_mono [OF unsubscribe_channels_good [OF assms]] wp_mono [OF unsubscribe_patterns_good [OF assms]],
      auto intro: good_trans pub_reply_good dest: goodD)+

lemma subscription_commands_good:
  assumes "srv_inv s" "c \<in> set (client_list s)"
  shows "good K A s (subscribeCommand c s)" "good K A s (psubscribeCommand c s)"
    "wp (unsubscribeCommand c s) (good K A s)" "wp (punsubscribeCommand c s) (good K A s)"
proof -
  have l: "good K A s (leave_pubsub c (fst r))" if "good K A s (fst r)" for r :: "server \<times> nat"
    using that by (blast intro: good_trans leave_pubsub_good dest: goodD)
  show "good K A s (subscribeCommand c s)" "good K A s (psubscribeCommand c s)"
    unfolding subscribeCommand_def psubscribeCommand_def
    by (rule good_trans [OF subscribe_loop_good [OF assms] set_flags_good [OF goodD(1) [OF subscribe_loop_good [OF assms]]]]
        good_trans [OF psubscribe_loop_good [OF assms] set_flags_good [OF goodD(1) [OF psubscribe_loop_good [OF assms]]]])+
  show "wp (unsubscribeCommand c s) (good K A s)" "wp (punsubscribeCommand c s) (good K A s)"
    unfolding unsubscribeCommand_def punsubscribeCommand_def wp_bind split_beta
    using wp_mono [OF unsubscribeAll_good(1) [OF assms(1)] l] wp_mono [OF unsubscribeAll_good(2) [OF assms(1)] l]
      wp_mono [OF unsubscribe_channels_good [OF assms(1)] l] wp_mono [OF unsubscribe_patterns_good [OF assms(1)] l] by simp_all
qed

lemma publishCommand_good: "srv_inv s \<Longrightarrow> good K A s (publishCommand c ch m s)"
proof -
  assume s: "srv_inv s"
  let ?s1 = "fst (pubsubPublishMessage ch m s)"
  have "good K A s ?s1" by (rule quiet_good [OF s quiet_publish])
  then have "good K A s (set_flags c CLIENT_FORCE_REPL ?s1)" by (blast intro: good_trans set_flags_good dest: goodD)
  then show ?thesis
    unfolding publishCommand_def split_beta by (simp add: Let_def) (blast intro: good_trans reply_good dest: goodD)
qed

subsection \<open>Transactions\<close>

lemma discardTransaction_good:
  assumes "srv_inv s"
  shows "wp (discardTransaction c s) (\<lambda>s'. good K {c} s s' \<and> entry s' = entry s \<and> np s' = np s \<and> watched (clients s' c) = [] \<and>
    \<not> has_flag (flags (clients s' c)) CLIENT_MULTI \<and> mcommands (clients s' c) = [] \<and> dirty s' = dirty s)"
proof -
  define s1 where "s1 = upd_client c initClientMultiState s"
  define s2 where "s2 = clear_flags c (CLIENT_MULTI OR CLIENT_DIRTY_CAS OR CLIENT_DIRTY_EXEC) s1"
  have "watch_inv s1" "pubsub_inv s1"
    by (rule watch_inv_other [of s], use assms in \<open>auto simp: s1_def srv_inv_def initClientMultiState_def upd_client_def wreg_of_def\<close>)
      (rule pubsub_inv_other [of s], use assms in \<open>auto simp: s1_def srv_inv_def initClientMultiState_def upd_client_def\<close>)
  then have g1: "good K {c} s s1"
    using assms by (intro good_ctl [where c = c])
      (auto simp: s1_def srv_inv_def initClientMultiState_def upd_client_def entry_def config_def fun_eq_iff)
  have g2: "good K {c} s s2"
    unfolding s2_def by (rule good_trans [OF g1 clear_flags_good [OF goodD(1) [OF g1]]]) simp
  have o: "entry s2 = entry s" "np s2 = np s" "dirty s2 = dirty s" "mcommands (clients s2 c) = []"
    by (simp_all add: s2_def s1_def initClientMultiState_def clear_flags_def upd_client_def entry_def np_def fun_eq_iff)
  have f: "\<not> has_flag (flags (clients s2 c)) CLIENT_MULTI"
    by (auto simp: s2_def clear_flags_def has_flag_iff bit_and_iff bit_not_iff)
  show ?thesis
    unfolding discardTransaction_def s1_def [symmetric] s2_def [symmetric]
    by (rule wp_mono [OF unwatchAllKeys_good [OF goodD(1) [OF g2], of c K]])
      (use o f g2 in \<open>auto intro: good_trans simp: unwatched_def\<close>)
qed

lemma multi_commands_good:
  assumes "srv_inv s"
  shows "good K A s (multiCommand c s)" "wp (discardCommand c s) (good K {c} s)" "wp (unwatchCommand c s) (good K {c} s)"
    "c \<in> set (client_list s) \<Longrightarrow> good K A s (watchCommand c ks s)"
proof -
  show "good K A s (multiCommand c s)"
    using assms by (simp add: multiCommand_def good_refl good_then)
  have "wp (discardTransaction c s) (\<lambda>s'. good K {c} s (addReply c Ok s'))"
    by (rule wp_mono [OF discardTransaction_good [OF assms]]) (rule good_then(1), blast)
  then show "wp (discardCommand c s) (good K {c} s)"
    using assms by (simp add: discardCommand_def good_refl good_then)
  have "wp (unwatchAllKeys c s) (\<lambda>s'. good K {c} s (addReply c Ok (clear_flags c CLIENT_DIRTY_CAS s')))"
    by (rule wp_mono [OF unwatchAllKeys_good [OF assms, of c K]]) (simp add: good_then)
  then show "wp (unwatchCommand c s) (good K {c} s)"
    by (simp add: unwatchCommand_def)
  show "good K A s (watchCommand c ks s)" if "c \<in> set (client_list s)"
    using assms good_mono [OF watch_loop_good [OF assms that], of K K A] by (simp add: watchCommand_def good_refl good_then)
qed

lemma wrap32_range: "- (2 ^ 31) \<le> wrap32 v" "wrap32 v < 2 ^ 31"
proof -
  have "0 \<le> (v + 2 ^ 31) mod 2 ^ 32" "(v + 2 ^ 31) mod 2 ^ 32 < 2 ^ 32" by simp_all
  then show "- (2 ^ 31) \<le> wrap32 v" "wrap32 v < 2 ^ 31" by (simp_all add: wrap32_def)
qed

lemma selectCommand_run:
  "selectCommand c a s = Some (case string2ll a of
      None \<Rightarrow> addReply c (Error (bstr ''invalid DB index'')) s
    | Some n \<Rightarrow> if 0 \<le> wrap32 n \<and> wrap32 n < int (dbnum s) then addReply c Ok (upd_client c (\<lambda>cl. cl\<lparr>cdb := nat (wrap32 n)\<rparr>) s)
        else addReply c (Error (bstr ''DB index is out of range'')) s)"
  by (auto simp: selectCommand_def getLongFromObjectOrReply_def getLongLongFromObjectOrReply_def getLongLong_ok selectDb_def
      int64_def dest!: int64_string2ll split: option.split)

lemma selectCommand_good:
  assumes "srv_inv s"
  shows "wp (selectCommand c a s) (good K A s)"
proof -
  have "good K A s (upd_client c (\<lambda>cl. cl\<lparr>cdb := i\<rparr>) s)" if "i < dbnum s" for i
  proof (rule good_ctl [where c = c])
    let ?s = "upd_client c (\<lambda>cl. cl\<lparr>cdb := i\<rparr>) s"
    show "watch_inv ?s" by (rule watch_inv_other [of s]) (use assms in \<open>auto simp: srv_inv_def upd_client_def wreg_of_def\<close>)
    show "pubsub_inv ?s" by (rule pubsub_inv_other [of s]) (use assms in \<open>auto simp: srv_inv_def upd_client_def\<close>)
  qed (use assms that in \<open>auto simp: srv_inv_def upd_client_def entry_def config_def fun_eq_iff\<close>)
  then show ?thesis
    using assms by (simp add: selectCommand_run good_refl good_then nat_less_iff split: option.split)
qed

subsection \<open>Commands\<close>

text \<open>The client that has a command to run, with its arguments.\<close>

definition ready :: "nat \<Rightarrow> server \<Rightarrow> bool" where
  "ready c s \<longleftrightarrow> srv_inv s \<and> c \<in> set (client_list s) \<and> cmd (clients s c) \<in> set redisCommandTable \<and> argv (clients s c) \<noteq> [] \<and>
     \<not> arity_error (cmd (clients s c)) (length (argv (clients s c))) \<and> safe_args (cmd (clients s c)) (tl (argv (clients s c)))"

text \<open>The keys that PERSIST would change without notice, and the client whose watches end.\<close>

definition quiet_keys :: "nat \<Rightarrow> server \<Rightarrow> (nat \<times> bytes) set" where
  "quiet_keys c s = unsignalled (cmd (clients s c)) (tl (argv (clients s c))) (cdb (clients s c))"

definition unwatching :: "redisCommand \<Rightarrow> nat \<Rightarrow> nat set" where
  "unwatching cm c = (if proc cm \<in> {p_discardCommand, p_unwatchCommand, p_execCommand} then {c} else {})"

lemma publish_args: "cm \<in> set redisCommandTable \<Longrightarrow> \<not> arity_error cm (length args) \<Longrightarrow> proc cm = p_publishCommand \<Longrightarrow>
    \<exists>ch m. tl args = [ch, m]"
  by (auto simp: command_table_defs arity_error_def list_len)

lemma select_args: "cm \<in> set redisCommandTable \<Longrightarrow> \<not> arity_error cm (length args) \<Longrightarrow> proc cm = p_selectCommand \<Longrightarrow>
    \<exists>a. tl args = [a]"
  by (auto simp: command_table_defs arity_error_def list_len)

lemma basic_proc_key:
  assumes "ready c s" "mstime s = clock s" "proc (cmd (clients s c)) \<notin> ctl_procs"
  obtains r where "key_spec (cmd (clients s c)) (tl (argv (clients s c))) (clock s) (dbnum s) (cdb (clients s c)) (vw (clock s) (entry s)) = Some r"
    "wp (basic_proc c s) (does (quiet_keys c s) s c r)"
proof -
  obtain r where r: "key_spec (cmd (clients s c)) (tl (argv (clients s c))) (clock s) (dbnum s) (cdb (clients s c)) (vw (clock s) (entry s)) = Some r"
    using key_spec_total assms(1,3) unfolding ready_def by blast
  moreover have "wp (basic_proc c s) (does (quiet_keys c s) s c r)"
    unfolding quiet_keys_def
    by (rule basic_proc_does) (use assms r in \<open>simp_all add: ready_def ctx_def srv_inv_def watch_inv_ok\<close>)
  ultimately show ?thesis by (rule that)
qed

lemma basic_proc_good:
  assumes "ready c s" "mstime s = clock s" "proc (cmd (clients s c)) \<noteq> p_execCommand" "quiet_keys c s \<subseteq> K"
  shows "wp (basic_proc c s) (good K (unwatching (cmd (clients s c)) c) s)"
proof (cases "proc (cmd (clients s c)) \<in> ctl_procs")
  case False
  obtain r where "wp (basic_proc c s) (does (quiet_keys c s) s c r)"
    using basic_proc_key [OF assms(1,2) False] by blast
  then show ?thesis
    using assms(1,4) by (auto simp: ready_def does_def elim!: wp_mono intro: good_mono [OF step_good])
next
  case True
  have s: "srv_inv s" "c \<in> set (client_list s)" using assms(1) by (simp_all add: ready_def)
  note a = publish_args [of "cmd (clients s c)" "argv (clients s c)"] select_args [of "cmd (clients s c)" "argv (clients s c)"]
  show ?thesis
    using True assms(1,3) a multi_commands_good [OF s(1)] s(2) subscription_commands_good [OF s]
    by (auto simp: ctl_procs_def ready_def basic_proc_def unwatching_def publishCommand_good selectCommand_good)
qed

text \<open>\<open>call\<close> before and after the implementation of the command.\<close>

definition call_start :: "nat \<Rightarrow> server \<Rightarrow> server" where
  "call_start c s = (clear_flags c propagation_flags s)\<lparr>mstime := clock s\<rparr>"

definition call_end :: "nat \<Rightarrow> bool \<Rightarrow> u64 \<Rightarrow> int \<Rightarrow> server \<Rightarrow> server" where
  "call_end c full old d s =
     (let cl = clients s c;
          fl = (if dirty s - d > 0 then PROPAGATE_AOF OR PROPAGATE_REPL else 0) OR
               (if has_flag (flags cl) CLIENT_FORCE_REPL then PROPAGATE_REPL else 0) OR
               (if has_flag (flags cl) CLIENT_FORCE_AOF then PROPAGATE_AOF else 0);
          s1 = (if full then propagate (cdb cl) (argv cl) fl s else s);
          s2 = set_flags c (old AND propagation_flags) (clear_flags c propagation_flags s1)
      in s2\<lparr>stat_numcommands := stat_numcommands s2 + 1\<rparr>)"

lemma call_with_eq:
  "call_with run c full s = map_option (call_end c full (flags (clients s c)) (dirty s)) (run c (call_start c s))"
  by (cases "run c (call_start c s)")
    (simp_all add: call_with_def call_end_def call_start_def Let_def clear_flags_def upd_client_def)

lemma propagation_no_cas [simp]: "\<not> has_flag propagation_flags CLIENT_DIRTY_CAS"
  unfolding propagation_flags_def flag_simps by auto

lemma propagate_other [simp]:
  "db (propagate i as fl s) = db s" "clients (propagate i as fl s) = clients s" "inv_part (propagate i as fl s) = inv_part s"
  "clock (propagate i as fl s) = clock s" "mstime (propagate i as fl s) = mstime s" "dirty (propagate i as fl s) = dirty s"
  "np (propagate i as fl s) = np s" "entry (propagate i as fl s) = entry s" "loading (propagate i as fl s) = loading s"
  "dbnum (propagate i as fl s) = dbnum s"
  by (simp_all add: propagate_def Let_def inv_part_def np_def entry_def wreg_of_def fun_eq_iff)

lemma propagate_good: "srv_inv s \<Longrightarrow> good K A s (propagate i as fl s)"
  by (rule good_same) simp_all

lemma call_start_good: "srv_inv s \<Longrightarrow> good K A s (call_start c s)"
  by (rule good_same)
    (auto simp: call_start_def clear_flags_def upd_part_defs fun_eq_iff has_flag_clear_other)

lemma stat_good: "srv_inv s \<Longrightarrow> good K A s (s\<lparr>stat_numcommands := n\<rparr>)"
  by (rule good_same) (simp_all add: inv_part_def wreg_of_def)

lemma call_end_good:
  assumes "srv_inv s"
  shows "good K A s (call_end c full old d s)"
proof -
  have f: "good K A s s1 \<Longrightarrow> good K A s (let s2 = set_flags c m (clear_flags c propagation_flags s1) in s2\<lparr>stat_numcommands := stat_numcommands s2 + 1\<rparr>)" for s1 m
    unfolding Let_def by (rule good_trans [OF _ stat_good [OF goodD(1)]]) (rule good_then; rule good_then; simp)+
  show ?thesis
    unfolding call_end_def by (simp only: Let_def [of "clients s c"] Let_def [of "_ OR _"] Let_def [of "if full then _ else _"])
      (rule f, use assms in \<open>simp add: propagate_good good_refl\<close>)
qed

lemma call_start_same:
  "clients (call_start c s) c' = (if c' = c then (clients s c)\<lparr>flags := flags (clients s c) AND NOT propagation_flags\<rparr> else clients s c')"
  "entry (call_start c s) = entry s" "np (call_start c s) = np s" "mstime (call_start c s) = clock s" "clock (call_start c s) = clock s"
  "dbnum (call_start c s) = dbnum s" "client_list (call_start c s) = client_list s" "dirty (call_start c s) = dirty s"
  by (simp_all add: call_start_def clear_flags_def upd_client_def entry_def np_def fun_eq_iff)

lemma set_flags_other [simp]:
  "entry (set_flags c m s) = entry s" "np (set_flags c m s) = np s" "clock (set_flags c m s) = clock s" "dirty (set_flags c m s) = dirty s"
  "client_part (clients (set_flags c m s) c') = client_part (clients s c')" "argv (clients (set_flags c m s) c') = argv (clients s c')"
  "repl_feed (set_flags c m s) = repl_feed s" "aof_feed (set_flags c m s) = aof_feed s"
  by (simp_all add: set_flags_def upd_client_def entry_def np_def client_part_def fun_eq_iff)

lemma clear_flags_other [simp]:
  "entry (clear_flags c m s) = entry s" "np (clear_flags c m s) = np s" "clock (clear_flags c m s) = clock s" "dirty (clear_flags c m s) = dirty s"
  "client_part (clients (clear_flags c m s) c') = client_part (clients s c')" "argv (clients (clear_flags c m s) c') = argv (clients s c')"
  "repl_feed (clear_flags c m s) = repl_feed s" "aof_feed (clear_flags c m s) = aof_feed s"
  by (simp_all add: clear_flags_def upd_client_def entry_def np_def client_part_def fun_eq_iff)

lemma stat_other [simp]: "entry (s\<lparr>stat_numcommands := n\<rparr>) = entry s" "np (s\<lparr>stat_numcommands := n\<rparr>) = np s"
  by (simp_all add: entry_def np_def fun_eq_iff)

lemma call_end_same:
  "entry (call_end c full old d s) = entry s" "np (call_end c full old d s) = np s" "clock (call_end c full old d s) = clock s"
  "dirty (call_end c full old d s) = dirty s" "client_part (clients (call_end c full old d s) c') = client_part (clients s c')"
  by (simp_all add: call_end_def Let_def)

lemma call_start_ready: "ready c s \<Longrightarrow> ready c (call_start c s)"
  using call_start_good [of s "{}" "{}" c] by (simp add: ready_def call_start_same goodD)

lemma call_with_good:
  assumes "srv_inv s" "wp (run c (call_start c s)) (good K A (call_start c s))"
  shows "wp (call_with run c full s) (good K A s)"
  unfolding call_with_eq wp_map
  by (rule wp_mono [OF assms(2)], rule good_trans [OF good_trans [OF call_start_good [OF assms(1)]]], assumption, rule call_end_good, erule goodD)

lemma call_basic_good:
  assumes "ready c s" "proc (cmd (clients s c)) \<noteq> p_execCommand" "quiet_keys c s \<subseteq> K"
  shows "wp (call_with basic_proc c full s) (good K (unwatching (cmd (clients s c)) c) s)"
proof (rule call_with_good)
  show "srv_inv s" using assms(1) by (simp add: ready_def)
  have "wp (basic_proc c (call_start c s)) (good K (unwatching (cmd (clients (call_start c s) c)) c) (call_start c s))"
    by (rule basic_proc_good [OF call_start_ready [OF assms(1)]]) (use assms(2,3) in \<open>simp_all add: call_start_same quiet_keys_def\<close>)
  then show "wp (basic_proc c (call_start c s)) (good K (unwatching (cmd (clients s c)) c) (call_start c s))"
    by (simp add: call_start_same)
qed

subsection \<open>EXEC\<close>

text \<open>The start of a turn of the loop: the queued command is the command of the client.\<close>

definition load_cmd :: "nat \<Rightarrow> multiCmd \<Rightarrow> server \<Rightarrow> server" where
  "load_cmd c m = upd_client c (\<lambda>cl. cl\<lparr>argv := mc_argv m, cmd := mc_cmd m\<rparr>)"

lemma load_cmd_good: "srv_inv s \<Longrightarrow> good K A s (load_cmd c m s)"
  by (rule good_same) (auto simp: load_cmd_def upd_part_defs fun_eq_iff)

lemma load_cmd_ready: "srv_inv s \<Longrightarrow> queued_ok m \<Longrightarrow> c \<in> set (client_list s) \<Longrightarrow> ready c (load_cmd c m s)"
  using goodD(1,2) [OF load_cmd_good [of s "{}" "{}" c m]] by (simp add: ready_def queued_ok_def load_cmd_def)

lemma ready_propagate: "ready c s \<Longrightarrow> ready c (propagate i as fl s)"
  using goodD(1,2) [OF propagate_good [of s "{}" "{}" i as fl]] by (simp add: ready_def)

text \<open>MULTI is propagated before the first command that may write.\<close>

definition exec_now :: "multiCmd \<Rightarrow> bool \<Rightarrow> bool" where
  "exec_now m must \<longleftrightarrow> \<not> must \<and> \<not> has_flag (cflags (mc_cmd m)) (CMD_READONLY OR CMD_ADMIN)"

definition exec_pre :: "nat \<Rightarrow> multiCmd \<Rightarrow> bool \<Rightarrow> server \<Rightarrow> server" where
  "exec_pre c m must s = (let s1 = load_cmd c m s in
     if exec_now m must then propagate (cdb (clients s1 c)) [bstr ''MULTI''] (PROPAGATE_AOF OR PROPAGATE_REPL) s1 else s1)"

lemma exec_loop_Cons:
  "exec_loop c (m # ms) must s =
     call_with basic_proc c (\<not> loading (exec_pre c m must s)) (exec_pre c m must s) \<bind> exec_loop c ms (must \<or> exec_now m must)"
  unfolding exec_loop.simps load_cmd_def [symmetric] exec_now_def [symmetric] exec_pre_def Let_def ..

lemma exec_pre_good: "srv_inv s \<Longrightarrow> good K A s (exec_pre c m must s)"
  using load_cmd_good [of s K A c m] by (auto simp: exec_pre_def Let_def intro: good_trans propagate_good dest: goodD)

lemma exec_pre_ready: "srv_inv s \<Longrightarrow> queued_ok m \<Longrightarrow> c \<in> set (client_list s) \<Longrightarrow> ready c (exec_pre c m must s)"
  by (simp add: exec_pre_def Let_def load_cmd_ready ready_propagate)

lemma exec_pre_same:
  "cmd (clients (exec_pre c m must s) c) = mc_cmd m" "argv (clients (exec_pre c m must s) c) = mc_argv m"
  "cdb (clients (exec_pre c m must s) c) = cdb (clients s c)"
  "entry (exec_pre c m must s) = entry s" "np (exec_pre c m must s) = np s" "clock (exec_pre c m must s) = clock s"
  "dbnum (exec_pre c m must s) = dbnum s"
  by (simp_all add: exec_pre_def Let_def load_cmd_def upd_client_def entry_def np_def fun_eq_iff)

definition queue_keys :: "multiCmd list \<Rightarrow> (nat \<times> bytes) set" where
  "queue_keys ms = (\<Union>m \<in> set ms. \<Union>i. unsignalled (mc_cmd m) (tl (mc_argv m)) i)"

lemma exec_loop_good:
  assumes "srv_inv s" "c \<in> set (client_list s)" "\<forall>m \<in> set ms. queued_ok m" "queue_keys ms \<subseteq> K"
  shows "wp (exec_loop c ms must s) (\<lambda>r. good K {c} s (fst r))"
  using assms
proof (induction ms arbitrary: must s)
  case (Cons m ms)
  let ?s2 = "exec_pre c m must s"
  have r: "ready c ?s2" using Cons.prems by (simp add: exec_pre_ready)
  have "wp (call_with basic_proc c (\<not> loading ?s2) ?s2) (good K (unwatching (mc_cmd m) c) ?s2)"
    using call_basic_good [OF r, of K "\<not> loading ?s2"] Cons.prems(3,4)
    by (fastforce simp: exec_pre_same queued_ok_def quiet_keys_def queue_keys_def)
  then have "wp (call_with basic_proc c (\<not> loading ?s2) ?s2) (good K {c} s)"
    by (rule wp_mono) (rule good_trans [OF exec_pre_good [OF Cons.prems(1)]], erule good_mono, auto simp: unwatching_def)
  then show ?case
    unfolding exec_loop_Cons wp_bind
  proof (rule wp_mono)
    fix s3 assume g3: "good K {c} s s3"
    have "wp (exec_loop c ms (must \<or> exec_now m must) s3) (\<lambda>r. good K {c} s3 (fst r))"
      by (rule Cons.IH) (use Cons.prems goodD [OF g3] in \<open>auto simp: queue_keys_def\<close>)
    then show "wp (exec_loop c ms (must \<or> exec_now m must) s3) (\<lambda>r. good K {c} s (fst r))"
      by (rule wp_mono) (rule good_trans [OF g3])
  qed
qed (simp add: good_refl)

text \<open>The end of EXEC.\<close>

lemma dirty_good: "srv_inv s \<Longrightarrow> good K A s (incr_dirty n s)"
  by (rule good_same) (auto simp: incr_dirty_def inv_part_def wreg_of_def)

lemma restore_good: "srv_inv s \<Longrightarrow> good K A s (upd_client c (\<lambda>x. x\<lparr>argv := as, cmd := cm\<rparr>) s)"
  by (rule good_same) (auto simp: upd_part_defs fun_eq_iff)

lemma discard_then:
  assumes "good K {c} s s1"
  shows "wp (discardTransaction c s1) (good K {c} s)"
  by (rule wp_mono [OF discardTransaction_good [OF goodD(1) [OF assms]]]) (blast intro: good_trans [OF assms])

lemma execCommand_good:
  assumes "srv_inv s" "c \<in> set (client_list s)" "queue_keys (mcommands (clients s c)) \<subseteq> K"
  shows "wp (execCommand c s) (good K {c} s)"
proof -
  have q: "\<forall>m \<in> set (mcommands (clients s c)). queued_ok m" using assms(1) by (simp add: srv_inv_def)
  have fin: "wp (discardTransaction c (upd_client c (\<lambda>x. x\<lparr>argv := as, cmd := cm\<rparr>) (fst r)))
      (\<lambda>s5. (snd r \<longrightarrow> good K {c} s (incr_dirty 1 s5)) \<and> (\<not> snd r \<longrightarrow> good K {c} s s5))"
    if "good K {c} s (fst r)" for as cm and r :: "server \<times> bool"
    by (rule wp_mono [OF discard_then [OF good_trans [OF that restore_good [OF goodD(1) [OF that]]]]])
      (auto intro: good_trans dirty_good dest: goodD)
  have loop: "wp (exec_loop c (mcommands (clients s c)) False s2) (\<lambda>r. good K {c} s (fst r))" if g: "good K {c} s s2" for s2
    by (rule wp_mono [OF exec_loop_good [OF goodD(1) [OF g] _ q assms(3)] good_trans [OF g]]) (use assms(2) goodD(2) [OF g] in simp_all)
  have "wp (unwatchAllKeys c s) (\<lambda>s1. wp (exec_loop c (mcommands (clients s c)) False (addReply c x s1))
      (\<lambda>r. wp (discardTransaction c (upd_client c (\<lambda>x. x\<lparr>argv := as, cmd := cm\<rparr>) (fst r)))
        (\<lambda>s5. (snd r \<longrightarrow> good K {c} s (incr_dirty 1 s5)) \<and> (\<not> snd r \<longrightarrow> good K {c} s s5))))" for x as cm
    by (rule wp_mono [OF unwatchAllKeys_good [OF assms(1), of c K]]) (rule wp_mono [OF loop fin], rule good_then, blast)
  then show ?thesis
    using assms(1) by (simp add: execCommand_def Let_def split_beta good_refl good_then discard_then)
qed

subsection \<open>Requests\<close>

lemma command_proc_good:
  assumes "ready c s" "mstime s = clock s" "quiet_keys c s \<subseteq> K" "queue_keys (mcommands (clients s c)) \<subseteq> K"
  shows "wp (command_proc c s) (good K (unwatching (cmd (clients s c)) c) s)"
  using assms execCommand_good [of s c K] basic_proc_good [OF assms(1,2) _ assms(3)]
  by (simp add: command_proc_def ready_def) (simp add: unwatching_def)

lemma call_good:
  assumes "ready c s" "quiet_keys c s \<subseteq> K" "queue_keys (mcommands (clients s c)) \<subseteq> K"
  shows "wp (call c full s) (good K (unwatching (cmd (clients s c)) c) s)"
  unfolding call_def
proof (rule call_with_good)
  show "srv_inv s" using assms(1) by (simp add: ready_def)
  show "wp (command_proc c (call_start c s)) (good K (unwatching (cmd (clients s c)) c) (call_start c s))"
    using command_proc_good [OF call_start_ready [OF assms(1)], of K] assms(2,3) by (simp add: call_start_same quiet_keys_def)
qed

text \<open>The requests that fail no assertion, and the keys that a request or a queued command may change without notice.\<close>

definition request_ok :: "bytes list \<Rightarrow> bool" where
  "request_ok args \<longleftrightarrow> args \<noteq> [] \<and> (\<forall>cm. lookupCommand (hd args) = Some cm \<longrightarrow> safe_args cm (tl args))"

definition request_keys :: "bytes list \<Rightarrow> (nat \<times> bytes) set" where
  "request_keys args = (case lookupCommand (hd args) of None \<Rightarrow> {} | Some cm \<Rightarrow> (\<Union>i. unsignalled cm (tl args) i))"

definition all_queue_keys :: "server \<Rightarrow> (nat \<times> bytes) set" where
  "all_queue_keys s = (\<Union>c. queue_keys (mcommands (clients s c)))"

definition request_ends :: "bytes list \<Rightarrow> nat \<Rightarrow> nat set" where
  "request_ends args c = (case lookupCommand (hd args) of None \<Rightarrow> {} | Some cm \<Rightarrow> unwatching cm c)"

definition after :: "(nat \<times> bytes) set \<Rightarrow> nat set \<Rightarrow> server \<Rightarrow> server \<Rightarrow> bool" where
  "after K A s s' \<longleftrightarrow> srv_inv s' \<and> marks K A s s' \<and> client_list s' = client_list s \<and> clock s' = clock s \<and> dbnum s' = dbnum s \<and>
     all_queue_keys s' \<subseteq> all_queue_keys s \<union> K"

lemma good_after: "good K A s s' \<Longrightarrow> after K A s s'"
  unfolding after_def good_def oth_def all_queue_keys_def queue_keys_def by blast

lemma after_trans: "after K A s s' \<Longrightarrow> after K A s' s'' \<Longrightarrow> after K A s s''"
  unfolding after_def using marks_trans [of K A s s' s''] by auto

lemma queue_keys_snoc: "queue_keys (ms @ [m]) = queue_keys ms \<union> (\<Union>i. unsignalled (mc_cmd m) (tl (mc_argv m)) i)"
  unfolding queue_keys_def by auto

lemma queue_after:
  assumes "ready c s" "proc (cmd (clients s c)) \<notin> {p_execCommand, p_discardCommand, p_multiCommand, p_watchCommand}"
    "(\<Union>i. unsignalled (cmd (clients s c)) (tl (argv (clients s c))) i) \<subseteq> K"
  shows "after K A s (queueMultiCommand c s)"
proof -
  let ?s' = "queueMultiCommand c s"
  have s: "srv_inv s" using assms(1) by (simp add: ready_def)
  have w: "watch_inv ?s'"
    by (rule watch_inv_other [of s]) (use s in \<open>auto simp: srv_inv_def queueMultiCommand_def upd_client_def wreg_of_def\<close>)
  have p: "pubsub_inv ?s'"
    by (rule pubsub_inv_other [of s]) (use s in \<open>auto simp: srv_inv_def queueMultiCommand_def upd_client_def\<close>)
  have e: "entry ?s' = entry s" "db_ok ?s'" using s by (simp_all add: queueMultiCommand_def upd_client_def entry_def srv_inv_def db_ok_def fun_eq_iff)
  have q: "queued_ok \<lparr>mc_cmd = cmd (clients s c), mc_argv = argv (clients s c)\<rparr>"
    using assms(1,2) by (simp add: ready_def queued_ok_def)
  have "srv_inv ?s'"
    using s w p e(2) q by (simp add: srv_inv_def queueMultiCommand_def upd_client_def)
  moreover have "marks K A s ?s'" unfolding marks_def e(1) by (auto simp: queueMultiCommand_def)
  moreover have "queue_keys (mcommands (clients ?s' c')) \<subseteq> all_queue_keys s \<union> K" for c'
    using assms(3) unfolding all_queue_keys_def by (auto simp: queue_keys_snoc queueMultiCommand_def split: if_splits)
  then have "all_queue_keys ?s' \<subseteq> all_queue_keys s \<union> K"
    unfolding all_queue_keys_def [of ?s'] by blast
  ultimately show ?thesis by (simp add: after_def queueMultiCommand_def upd_client_def)
qed

lemma reject_good: "srv_inv s \<Longrightarrow> good K A s (reject c r s)"
  by (simp add: reject_def flagTransaction_def good_refl good_then)

lemma queue_or_call_after:
  assumes "ready c s" "(\<Union>i. unsignalled (cmd (clients s c)) (tl (argv (clients s c))) i) \<subseteq> K" "queue_keys (mcommands (clients s c)) \<subseteq> K"
  shows "wp (queue_or_call c (cmd (clients s c)) s) (after K (unwatching (cmd (clients s c)) c) s)"
proof -
  have "quiet_keys c s \<subseteq> K" using assms(2) by (auto simp: quiet_keys_def)
  then have "wp (call c True s) (after K (unwatching (cmd (clients s c)) c) s)"
    using call_good [OF assms(1) _ assms(3), of True] by (blast intro: wp_mono good_after)
  moreover have "after K A s (addReply c Queued (queueMultiCommand c s))"
    if "proc (cmd (clients s c)) \<notin> {p_execCommand, p_discardCommand, p_multiCommand, p_watchCommand}" for A
    using queue_after [OF assms(1) that assms(2), of A] by (blast intro: after_trans good_after reply_good dest: after_def [THEN iffD1])
  ultimately show ?thesis unfolding queue_or_call_def by simp
qed

text \<open>The request as \<open>processCommand\<close> stores it.\<close>

definition set_request :: "nat \<Rightarrow> bytes list \<Rightarrow> server \<Rightarrow> server" where
  "set_request c args s = (upd_client c (\<lambda>cl. cl\<lparr>argv := args\<rparr>) s)\<lparr>current_client := Some c\<rparr>"

lemma set_request_good: "srv_inv s \<Longrightarrow> good K A s (set_request c args s)"
  by (rule good_same) (auto simp: set_request_def upd_part_defs fun_eq_iff)

lemma set_cmd_good: "srv_inv s \<Longrightarrow> good K A s (upd_client c (\<lambda>cl. cl\<lparr>cmd := cm\<rparr>) s)"
  by (rule good_same) (auto simp: upd_part_defs fun_eq_iff)

lemma processCommand_eq:
  "processCommand c args s =
     (let s1 = set_request c args s in
      if strcaseeq (hd args) ''quit'' then Some (set_flags c CLIENT_CLOSE_AFTER_REPLY (addReply c Ok s1))
      else case lookupCommand (hd args) of
          None \<Rightarrow> Some (reject c (unknown_command args, True) s1)
        | Some cm \<Rightarrow> let s2 = upd_client c (\<lambda>cl. cl\<lparr>cmd := cm\<rparr>) s1 in
            if arity_error cm (length args) then Some (reject c (arity_reply cm, True) s2)
            else (case denied c cm s2 of Some r \<Rightarrow> Some (reject c r s2) | None \<Rightarrow> queue_or_call c cm s2))"
  by (simp add: processCommand_def set_request_def)

lemma lookupCommand_in: "lookupCommand n = Some cm \<Longrightarrow> cm \<in> set redisCommandTable"
  unfolding lookupCommand_def by (auto simp: find_Some_iff)

lemma processCommand_after:
  assumes "srv_inv s" "c \<in> set (client_list s)" "request_ok args" "all_queue_keys s \<subseteq> K" "request_keys args \<subseteq> K"
  shows "wp (processCommand c args s) (after K (request_ends args c) s)"
proof -
  define s1 where "s1 = set_request c args s"
  have g1: "good K A s s1" for A unfolding s1_def by (rule set_request_good [OF assms(1)])
  have rej: "good K A s s2 \<Longrightarrow> after K A s (reject c r s2)" for A s2 r
    by (blast intro: good_after good_trans reject_good dest: goodD)
  show ?thesis
  proof (cases "strcaseeq (hd args) ''quit''")
    case True
    then show ?thesis using g1 by (simp add: processCommand_eq s1_def good_after good_then)
  next
    case nq: False
    show ?thesis
    proof (cases "lookupCommand (hd args)")
      case None
      then show ?thesis using nq rej [OF g1] by (simp add: processCommand_eq s1_def)
    next
      case (Some cm)
      define s2 where "s2 = upd_client c (\<lambda>cl. cl\<lparr>cmd := cm\<rparr>) s1"
      have g2: "good K A s s2" for A unfolding s2_def by (rule good_trans [OF g1 set_cmd_good [OF goodD(1) [OF g1]]])
      have cl: "cmd (clients s2 c) = cm" "argv (clients s2 c) = args" "mcommands (clients s2 c) = mcommands (clients s c)"
        by (simp_all add: s2_def s1_def set_request_def upd_client_def)
      have "wp (queue_or_call c cm s2) (after K (unwatching cm c) s)" if "\<not> arity_error cm (length args)"
      proof -
        have "ready c s2"
          using that assms(2,3) Some goodD(1,2) [OF g2] lookupCommand_in [OF Some] by (simp add: ready_def cl request_ok_def)
        moreover have "(\<Union>i. unsignalled cm (tl args) i) \<subseteq> K" using assms(5) Some by (simp add: request_keys_def)
        moreover have "queue_keys (mcommands (clients s c)) \<subseteq> K" using assms(4) unfolding all_queue_keys_def by blast
        ultimately have "wp (queue_or_call c cm s2) (after K (unwatching cm c) s2)"
          using queue_or_call_after [of c s2 K] unfolding cl by blast
        then show ?thesis by (rule wp_mono) (rule after_trans [OF good_after [OF g2]])
      qed
      then show ?thesis
        using nq Some rej [OF g2]
        by (simp add: processCommand_eq s1_def [symmetric] s2_def [symmetric] Let_def request_ends_def split: option.split)
    qed
  qed
qed

end
