(* ===== verification/Clients.thy ===== *)
theory Clients
  imports Multi
begin

unbundle bit_operations_syntax

text \<open>
  Clients that connect and disconnect (\<open>networking.c\<close>): \<open>createClient\<close> for a connection and
  \<open>freeClient\<close> for an ordinary client, that is neither protected nor blocked, neither our master
  nor a replica.  Sockets, buffers and memory are left out.  The command of a client is read only
  after a request has set it.
\<close>

definition linkClient :: "nat \<Rightarrow> server \<Rightarrow> server" where
  "linkClient c s = s\<lparr>client_list := client_list s @ [c]\<rparr>"

definition createClient :: "nat \<Rightarrow> server \<Rightarrow> server" where
  "createClient c s =
     linkClient c (upd_client c (\<lambda>cl. initClientMultiState (cl\<lparr>cdb := 0, resp := 2, argv := [], flags := 0,
       reply := [], watched := [], sub_channels := [], sub_patterns := []\<rparr>)) s)"

definition unlinkClient :: "nat \<Rightarrow> server \<Rightarrow> server" where
  "unlinkClient c s =
     (let s1 = (if current_client s = Some c then s\<lparr>current_client := None\<rparr> else s)
      in s1\<lparr>client_list := remove1 c (client_list s1)\<rparr>)"

definition freeClientMultiState :: "nat \<Rightarrow> server \<Rightarrow> server" where
  "freeClientMultiState c = upd_client c (\<lambda>cl. cl\<lparr>mcommands := []\<rparr>)"

definition freeClient :: "nat \<Rightarrow> server \<Rightarrow> server option" where
  "freeClient c s = do {
     s1 \<leftarrow> unwatchAllKeys c s;
     (s2, n) \<leftarrow> pubsubUnsubscribeAllChannels c False s1;
     (s3, m) \<leftarrow> pubsubUnsubscribeAllPatterns c False s2;
     let s4 = upd_client c (\<lambda>cl. cl\<lparr>reply := [], argv := []\<rparr>) s3;
     Some (freeClientMultiState c (unlinkClient c s4))
   }"

end
