(* ===== verification/Server_Run.thy ===== *)
theory Server_Run
  imports Server_Control Clients
begin

unbundle bit_operations_syntax

text \<open>
  Runs of the server: clients connect, send requests and disconnect, keys expire in the background,
  and time passes.  Every state of a run satisfies the invariant.
\<close>

subsection \<open>Connecting and disconnecting\<close>

lemma createClient_inv:
  assumes "srv_inv s" "c \<notin> set (client_list s)" "0 < dbnum s"
  shows "srv_inv (createClient c s)" "marks K {c} s (createClient c s)"
proof -
  have w: "watched (clients s c) = []" "sub_channels (clients s c) = []" "sub_patterns (clients s c) = []"
    using assms(1,2) by (auto simp: srv_inv_def watch_inv_def)
  define s' where "s' = createClient c s"
  have cl: "clients s' c' = (if c' = c then initClientMultiState ((clients s c)\<lparr>cdb := 0, resp := 2, argv := [], flags := 0,
      reply := [], watched := [], sub_channels := [], sub_patterns := []\<rparr>) else clients s c')" for c'
    by (simp add: s'_def createClient_def linkClient_def upd_client_def)
  have same: "db s' = db s" "dbnum s' = dbnum s" "masterhost s' = masterhost s" "loading s' = loading s" "pubsub_channels s' = pubsub_channels s"
      "pubsub_patterns s' = pubsub_patterns s" "pubsub_patterns_dict s' = pubsub_patterns_dict s" "client_list s' = client_list s @ [c]"
    by (simp_all add: s'_def createClient_def linkClient_def upd_client_def)
  have f: "watched (clients s' c') = watched (clients s c')" "sub_channels (clients s' c') = sub_channels (clients s c')"
      "sub_patterns (clients s' c') = sub_patterns (clients s c')" for c'
    using w by (simp_all add: cl initClientMultiState_def)
  have e: "entry s' = entry s" by (simp add: entry_def same fun_eq_iff)
  have "watch_inv s'" using assms(1) by (auto simp: srv_inv_def watch_inv_def f wreg_of_def same)
  moreover have "pubsub_inv s'" by (rule pubsub_inv_other [of s]) (use assms(1) f in \<open>simp_all add: srv_inv_def same\<close>)
  ultimately show "srv_inv s'"
    using assms(1,3) by (auto simp: srv_inv_def same f db_ok_def e cl initClientMultiState_def)
  show "marks K {c} s s'" by (auto simp: marks_def cl e)
qed

lemma client_same: "sub_channels cl = [] \<Longrightarrow> cl\<lparr>sub_channels := []\<rparr> = cl" "sub_patterns cl = [] \<Longrightarrow> cl\<lparr>sub_patterns := []\<rparr> = cl"
  by (cases cl; simp)+

lemma unsubscribe_effect:
  "pubsubUnsubscribeChannel c ch False s = Some r \<Longrightarrow>
     clients (fst r) = (clients s)(c := (clients s c)\<lparr>sub_channels := removeAll ch (sub_channels (clients s c))\<rparr>)"
  "pubsubUnsubscribePattern c p False s = Some r \<Longrightarrow>
     clients (fst r) = (clients s)(c := (clients s c)\<lparr>sub_patterns := remove1 p (sub_patterns (clients s c))\<rparr>)"
  by (auto simp: pubsubUnsubscribeChannel_def pubsubUnsubscribePattern_def bind_eq_Some_conv Let_def upd_client_def remove1_idem split: if_splits)

lemma unsubscribe_channels_effect:
  "unsubscribe_channels c chs False s = Some r \<Longrightarrow> set (sub_channels (clients s c)) \<subseteq> set chs \<Longrightarrow>
     clients (fst r) = (clients s)(c := (clients s c)\<lparr>sub_channels := []\<rparr>)"
proof (induction chs arbitrary: s r)
  case (Cons ch chs)
  then obtain r1 r2 where r: "pubsubUnsubscribeChannel c ch False s = Some r1" "unsubscribe_channels c chs False (fst r1) = Some r2" "fst r = fst r2"
    by (auto simp: bind_eq_Some_conv)
  have "set (sub_channels (clients (fst r1) c)) \<subseteq> set chs" using Cons.prems(2) by (auto simp: unsubscribe_effect(1) [OF r(1)])
  from Cons.IH [OF r(2) this] show ?case
    using r(3) by (simp add: unsubscribe_effect(1) [OF r(1)] fun_upd_same del: fun_upd_apply)
qed (simp add: client_same)

lemma unsubscribe_patterns_effect:
  "unsubscribe_patterns c ps False s = Some r \<Longrightarrow> set (sub_patterns (clients s c)) \<subseteq> set ps \<Longrightarrow> distinct (sub_patterns (clients s c)) \<Longrightarrow>
     clients (fst r) = (clients s)(c := (clients s c)\<lparr>sub_patterns := []\<rparr>)"
proof (induction ps arbitrary: s r)
  case (Cons p ps)
  then obtain r1 r2 where r: "pubsubUnsubscribePattern c p False s = Some r1" "unsubscribe_patterns c ps False (fst r1) = Some r2" "fst r = fst r2"
    by (auto simp: bind_eq_Some_conv)
  have "set (sub_patterns (clients (fst r1) c)) \<subseteq> set ps" "distinct (sub_patterns (clients (fst r1) c))"
    using Cons.prems(2,3) by (auto simp: unsubscribe_effect(2) [OF r(1)])
  from Cons.IH [OF r(2) this] show ?case
    using r(3) by (simp add: unsubscribe_effect(2) [OF r(1)] fun_upd_same del: fun_upd_apply)
qed (simp add: client_same)

lemma unsubscribe_all:
  assumes "srv_inv s"
  shows "wp (pubsubUnsubscribeAllChannels c False s) (\<lambda>r. good K A s (fst r) \<and> clients (fst r) = (clients s)(c := (clients s c)\<lparr>sub_channels := []\<rparr>))"
    and "wp (pubsubUnsubscribeAllPatterns c False s) (\<lambda>r. good K A s (fst r) \<and> clients (fst r) = (clients s)(c := (clients s c)\<lparr>sub_patterns := []\<rparr>))"
proof -
  have d: "distinct (sub_patterns (clients s c))" using srv_inv_patterns [OF assms] by (simp add: consistent_def)
  show "wp (pubsubUnsubscribeAllChannels c False s) (\<lambda>r. good K A s (fst r) \<and> clients (fst r) = (clients s)(c := (clients s c)\<lparr>sub_channels := []\<rparr>))"
    using unsubscribe_channels_good [OF assms, of c "sub_channels (clients s c)" False K A] unsubscribe_channels_effect [of c "sub_channels (clients s c)" s]
    by (auto simp: pubsubUnsubscribeAllChannels_def wp_iff)
  show "wp (pubsubUnsubscribeAllPatterns c False s) (\<lambda>r. good K A s (fst r) \<and> clients (fst r) = (clients s)(c := (clients s c)\<lparr>sub_patterns := []\<rparr>))"
    using unsubscribe_patterns_good [OF assms, of c "sub_patterns (clients s c)" False K A] unsubscribe_patterns_effect [of c "sub_patterns (clients s c)" s] d
    by (auto simp: pubsubUnsubscribeAllPatterns_def wp_iff)
qed

lemma unlink_inv:
  assumes "srv_inv s" "watched (clients s c) = []" "sub_channels (clients s c) = []" "sub_patterns (clients s c) = []"
  shows "srv_inv (unlinkClient c s)"
proof -
  define s' where "s' = unlinkClient c s"
  have same: "clients s' = clients s" "db s' = db s" "dbnum s' = dbnum s" "masterhost s' = masterhost s" "loading s' = loading s" "pubsub_channels s' = pubsub_channels s"
      "pubsub_patterns s' = pubsub_patterns s" "pubsub_patterns_dict s' = pubsub_patterns_dict s" "client_list s' = remove1 c (client_list s)"
    by (simp_all add: s'_def unlinkClient_def Let_def)
  have m: "c' \<in> set (client_list s')" if "c' \<in> set (client_list s)" "c' \<noteq> c" for c'
    using that by (simp add: same)
  have "watch_inv s'" using assms(1,2) m unfolding srv_inv_def watch_inv_def by (auto simp: same(1-8) wreg_of_def)
  moreover have "pubsub_inv s'" by (rule pubsub_inv_other [of s]) (use assms(1) in \<open>simp_all add: srv_inv_def same\<close>)
  moreover have "sub_channels (clients s c') = [] \<and> sub_patterns (clients s c') = []" if "c' \<notin> set (client_list s')" for c'
    using assms m [of c'] that unfolding srv_inv_def by blast
  ultimately show "srv_inv s'"
    using assms(1) by (simp add: srv_inv_def same(1-8) db_ok_def entry_def)
qed

lemma freeClient_inv:
  assumes "srv_inv s"
  shows "wp (freeClient c s) (\<lambda>s'. srv_inv s' \<and> marks K {c} s s' \<and> dbnum s' = dbnum s \<and> clock s' = clock s \<and> client_list s' = remove1 c (client_list s) \<and>
    (\<forall>c. set (mcommands (clients s' c)) \<subseteq> set (mcommands (clients s c))))"
proof -
  have fin: "srv_inv s' \<and> marks K {c} s s' \<and> dbnum s' = dbnum s \<and> clock s' = clock s \<and> client_list s' = remove1 c (client_list s) \<and>
      (\<forall>c. set (mcommands (clients s' c)) \<subseteq> set (mcommands (clients s c)))"
    if g: "good K {c} s s3" and e: "watched (clients s3 c) = []" "sub_channels (clients s3 c) = []" "sub_patterns (clients s3 c) = []"
      and s': "s' = freeClientMultiState c (unlinkClient c (upd_client c (\<lambda>cl. cl\<lparr>reply := [], argv := []\<rparr>) s3))" for s3 s'
  proof -
    define s4 where "s4 = freeClientMultiState c (upd_client c (\<lambda>cl. cl\<lparr>reply := [], argv := []\<rparr>) s3)"
    have w: "watch_inv s4" "pubsub_inv s4"
      by (rule watch_inv_other [of s3], use goodD(1) [OF g] in \<open>auto simp: s4_def freeClientMultiState_def srv_inv_def upd_client_def wreg_of_def\<close>)
        (rule pubsub_inv_other [of s3], use goodD(1) [OF g] in \<open>auto simp: s4_def freeClientMultiState_def srv_inv_def upd_client_def\<close>)
    have "good K {c} s3 s4"
      by (rule good_ctl [where c = c])
        (use goodD(1) [OF g] w e in \<open>auto simp: s4_def freeClientMultiState_def srv_inv_def upd_client_def entry_def config_def fun_eq_iff\<close>)
    then have g4: "good K {c} s s4" by (rule good_trans [OF g])
    have "srv_inv (unlinkClient c s4)"
      by (rule unlink_inv [OF goodD(1) [OF g4]]) (use e in \<open>simp_all add: s4_def freeClientMultiState_def upd_client_def\<close>)
    moreover have "s' = unlinkClient c s4"
      by (simp add: s' s4_def unlinkClient_def freeClientMultiState_def upd_client_def Let_def)
    moreover have "clients (unlinkClient c s4) = clients s4" "entry (unlinkClient c s4) = entry s4" "dbnum (unlinkClient c s4) = dbnum s4"
        "clock (unlinkClient c s4) = clock s4" "client_list (unlinkClient c s4) = remove1 c (client_list s4)"
      by (simp_all add: unlinkClient_def Let_def entry_def fun_eq_iff)
    ultimately show ?thesis using g4 by (simp add: good_def oth_def marks_def)
  qed
  show ?thesis
    unfolding freeClient_def wp_bind split_beta
  proof (rule wp_mono [OF unwatchAllKeys_good [OF assms, of c K]], goal_cases)
    case s1: (1 s1)
    then have i1: "srv_inv s1" by (blast dest: goodD)
    show ?case
    proof (rule wp_mono [OF unsubscribe_all(1) [OF i1, of c K "{c}"]], goal_cases)
      case s2: (1 r2)
      then have i2: "srv_inv (fst r2)" by (blast dest: goodD)
      have g2: "good K {c} s (fst r2)" using s1 s2 by (blast intro: good_trans)
      show ?case
        by (rule wp_mono [OF unsubscribe_all(2) [OF i2, of c K "{c}"]], unfold Let_def wp_simps, rule fin [OF _ _ _ _ refl])
          (use s1 s2 good_trans [OF g2] in auto)
    qed
  qed
qed

subsection \<open>Expiration in the background\<close>

lemma tryExpire_wp:
  assumes "ctx s" "expires (db s i) k = Some t" "now = mstime s"
  shows "wp (activeExpireCycleTryExpire i k now s)
    (\<lambda>r. if t < now then snd r \<and> tr s {(i, k)} {} (upd (entry s) i k (None, None)) (np s) (dirty s) (fst r) else r = (s, False))"
proof (cases "t < now")
  case True
  let ?s1 = "propagateExpire i k (lazyfree_lazy_expire s) s"
  have "tr s {} {} (entry s) (np s) (dirty s) ?s1"
    by (rule tr_misc [OF tr_start [OF assms(1)]]) (auto simp: propagateExpire_def Let_def server_part_def np_def)
  from tr_delete(1) [OF this, of i k "lazyfree_lazy_expire ?s1"]
  have "tr s {(i, k)} {} (upd (entry s) i k (None, None)) (np s) (dirty s) (fst (dbGenericDelete (lazyfree_lazy_expire ?s1) i k ?s1))" by simp
  then have "wp (notifyKeyspaceEvent NOTIFY_EXPIRED ''expired'' k i (fst (dbGenericDelete (lazyfree_lazy_expire ?s1) i k ?s1)))
     (\<lambda>s3. tr s {(i, k)} {} (upd (entry s) i k (None, None)) (np s) (dirty s) (s3\<lparr>stat_expiredkeys := stat_expiredkeys s3 + 1\<rparr>))"
  proof (rule notify_wp)
    fix s3 assume t: "tr s {(i, k)} {} (upd (entry s) i k (None, None)) (np s) (dirty s) s3"
    show "tr s {(i, k)} {} (upd (entry s) i k (None, None)) (np s) (dirty s) (s3\<lparr>stat_expiredkeys := stat_expiredkeys s3 + 1\<rparr>)"
      by (rule tr_misc [OF t]) (use tr_np [OF t] in \<open>auto simp: server_part_def np_def\<close>)
  qed
  then show ?thesis using assms(2) True by (simp add: activeExpireCycleTryExpire_def Let_def)
qed (use assms in \<open>simp add: activeExpireCycleTryExpire_def\<close>)

lemma set_time_good: "srv_inv s \<Longrightarrow> good K A s (s\<lparr>mstime := t\<rparr>)"
  by (rule good_same) (simp_all add: inv_part_def wreg_of_def)

lemma tryExpire_good:
  assumes "srv_inv s" "activeExpireCycleTryExpire i k (clock s) (s\<lparr>mstime := clock s\<rparr>) = Some r"
  shows "good {(i, k)} A s (fst r)"
proof -
  let ?s = "s\<lparr>mstime := clock s\<rparr>"
  have g: "good {(i, k)} A s ?s" by (rule set_time_good [OF assms(1)])
  have c: "ctx ?s" using goodD(1) [OF g] by (simp add: ctx_def srv_inv_def)
  obtain t where t: "expires (db ?s i) k = Some t"
    using assms(2) by (auto simp: activeExpireCycleTryExpire_def bind_eq_Some_conv)
  show ?thesis
    using tryExpire_wp [OF c t, of "clock s"] assms(2) g
    by (auto simp: tr_def split: if_splits intro!: good_trans [OF g] step_good [OF goodD(1) [OF g]])
qed

subsection \<open>Events and runs\<close>

datatype event = Connect nat | Disconnect nat | Request nat "bytes list" | Expire nat bytes | Tick int

inductive srv_step :: "event \<Rightarrow> server \<Rightarrow> server \<Rightarrow> bool" where
  connect: "c \<notin> set (client_list s) \<Longrightarrow> srv_step (Connect c) s (createClient c s)"
| disconnect: "c \<in> set (client_list s) \<Longrightarrow> freeClient c s = Some s' \<Longrightarrow> srv_step (Disconnect c) s s'"
| request: "c \<in> set (client_list s) \<Longrightarrow> request_ok args \<Longrightarrow> processCommand c args s = Some s' \<Longrightarrow> srv_step (Request c args) s s'"
| expire: "activeExpireCycleTryExpire i k (clock s) (s\<lparr>mstime := clock s\<rparr>) = Some (s', b) \<Longrightarrow> srv_step (Expire i k) s s'"
| tick: "0 \<le> d \<Longrightarrow> srv_step (Tick d) s (s\<lparr>clock := clock s + d\<rparr>)"

inductive_cases srv_stepE: "srv_step ev s s'"

inductive run :: "event list \<Rightarrow> server \<Rightarrow> server \<Rightarrow> bool" where
  run_Nil: "run [] s s"
| run_Cons: "srv_step ev s s1 \<Longrightarrow> run evs s1 s' \<Longrightarrow> run (ev # evs) s s'"

inductive_simps run_simps: "run [] s s'" "run (ev # evs) s s'"

text \<open>The clients whose watches an event may end, and the keys it may change without notice.\<close>

fun event_ends :: "event \<Rightarrow> nat set" where
  "event_ends (Connect c) = {c}"
| "event_ends (Disconnect c) = {c}"
| "event_ends (Request c args) = request_ends args c"
| "event_ends (Expire i k) = {}"
| "event_ends (Tick d) = {}"

fun event_keys :: "event \<Rightarrow> (nat \<times> bytes) set" where
  "event_keys (Request c args) = request_keys args"
| "event_keys (Expire i k) = {(i, k)}"
| "event_keys ev = {}"

lemma tick_inv: "srv_inv s \<Longrightarrow> srv_inv (s\<lparr>clock := t\<rparr>)"
  by (rule srv_inv_cong) (simp_all add: inv_part_def wreg_of_def srv_inv_def db_ok_def entry_def)

lemma marks_mono: "marks K A s s' \<Longrightarrow> K \<subseteq> K' \<Longrightarrow> A \<subseteq> A' \<Longrightarrow> marks K' A' s s'"
  unfolding marks_def by (simp add: subset_iff, blast)

lemma queue_keys_mono: "(\<And>c. set (mcommands (clients s' c)) \<subseteq> set (mcommands (clients s c))) \<Longrightarrow> all_queue_keys s' \<subseteq> all_queue_keys s"
  unfolding all_queue_keys_def queue_keys_def by blast

lemma srv_step_marks:
  assumes "srv_step ev s s'" "srv_inv s" "all_queue_keys s \<subseteq> K" "event_keys ev \<subseteq> K"
  shows "srv_inv s' \<and> marks K (event_ends ev) s s' \<and> all_queue_keys s' \<subseteq> K"
  using assms(1)
proof cases
  case (connect c)
  have "0 < dbnum s" using assms(2) unfolding srv_inv_def by (metis gr_zeroI not_less_zero)
  moreover have "all_queue_keys s' \<subseteq> all_queue_keys s"
    by (rule queue_keys_mono) (simp add: connect createClient_def linkClient_def initClientMultiState_def)
  ultimately show ?thesis
    using createClient_inv [OF assms(2) connect(3)] assms(3) connect(1,2) by (auto simp: createClient_inv)
next
  case (disconnect c)
  then show ?thesis
    using freeClient_inv [OF assms(2), of c K] assms(3) queue_keys_mono [of s' s] by (auto simp: wp_iff)
next
  case (request c args)
  then show ?thesis
    using processCommand_after [OF assms(2) request(2,3) assms(3)] assms(3,4) by (auto simp: wp_iff after_def)
next
  case (expire i k b)
  then show ?thesis
    using tryExpire_good [OF assms(2) expire(2), of "{}"] assms(3,4) queue_keys_mono [of s' s]
    by (auto simp: good_def oth_def intro: marks_mono)
next
  case (tick d)
  then show ?thesis
    using assms(2,3) tick_inv [OF assms(2)] by (auto simp: marks_def entry_def all_queue_keys_def)
qed

lemma run_inv: "run evs s s' \<Longrightarrow> srv_inv s \<Longrightarrow> srv_inv s'"
  by (induction rule: run.induct) (use srv_step_marks [where K = UNIV] in auto)

lemma run_marks:
  assumes "run evs s s'" "srv_inv s" "x \<notin> all_queue_keys s" "\<forall>ev \<in> set evs. x \<notin> event_keys ev \<and> w \<notin> event_ends ev"
  shows "x \<notin> all_queue_keys s' \<and> marks (- {x}) (- {w}) s s'"
  using assms
proof (induction rule: run.induct)
  case (run_Cons ev s s1 evs s')
  have "srv_inv s1 \<and> marks (- {x}) (event_ends ev) s s1 \<and> all_queue_keys s1 \<subseteq> - {x}"
    by (rule srv_step_marks [OF run_Cons.hyps(1)]) (use run_Cons.prems in auto)
  moreover from this have "marks (- {x}) (- {w}) s s1"
    using run_Cons.prems(3) by (auto intro: marks_mono)
  ultimately show ?case using run_Cons.IH run_Cons.prems(3) by (auto intro: marks_trans)
qed (simp add: marks_def)

subsection \<open>The start of the server\<close>

text \<open>No client is connected; the databases are those that were loaded.\<close>

definition initial :: "server \<Rightarrow> bool" where
  "initial s \<longleftrightarrow> db_ok s \<and> \<not> masterhost s \<and> \<not> loading s \<and> 0 < dbnum s \<and> client_list s = [] \<and>
     (\<forall>c. cdb (clients s c) = 0 \<and> watched (clients s c) = [] \<and> mcommands (clients s c) = [] \<and>
       sub_channels (clients s c) = [] \<and> sub_patterns (clients s c) = []) \<and>
     (\<forall>i. wkeys (db s i) = Map.empty) \<and> pubsub_channels s = [] \<and> pubsub_patterns s = [] \<and> pubsub_patterns_dict s = []"

lemma initial_inv: "initial s \<Longrightarrow> srv_inv s"
  by (simp add: initial_def srv_inv_def watch_inv_def pubsub_inv_def wreg_ok_def wreg_of_def lists_ok_def consistent_def wholders_def
      sub_ok_def subscribers_def)

end
