(* ===== verification/Exec_Refine.thy ===== *)
theory Exec_Refine
  imports Server_Control
begin

unbundle bit_operations_syntax

text \<open>
  \<open>call\<close> and EXEC refine the abstract databases: a command has the effect of its specification, and a
  transaction that of the specifications of its commands one after the other.
\<close>

subsection \<open>Calling a command\<close>

definition spec_of :: "redisCommand \<Rightarrow> bytes list \<Rightarrow> nat \<Rightarrow> server \<Rightarrow> (astore \<times> reply list) option" where
  "spec_of cm args c s = key_spec cm (tl args) (clock s) (dbnum s) (cdb (clients s c)) (vw (clock s) (entry s))"

text \<open>What a propagated command adds to the streams to the replicas and to the append only file.\<close>

definition propagated :: "nat \<Rightarrow> nat \<Rightarrow> server \<Rightarrow> bool" where
  "propagated c i s \<longleftrightarrow> repl_feed s \<noteq> [] \<and> last (repl_feed s) = (i, argv (clients s c)) \<and>
     (aof_on s \<longrightarrow> aof_feed s \<noteq> [] \<and> last (aof_feed s) = (i, argv (clients s c)))"

lemma propagate_flags [simp]: "has_flag PROPAGATE_AOF PROPAGATE_AOF" "has_flag PROPAGATE_REPL PROPAGATE_REPL"
  by (simp_all add: has_flag_def PROPAGATE_AOF_def PROPAGATE_REPL_def)

lemma aof_on_flags [simp]: "aof_on (set_flags c m s) = aof_on s" "aof_on (clear_flags c m s) = aof_on s"
  by (simp_all add: set_flags_def clear_flags_def upd_client_def)

lemma call_end_propagated:
  assumes "d < dirty s"
  shows "propagated c (cdb (clients s c)) (call_end c True old d s)"
  using assms by (simp add: propagated_def call_end_def Let_def propagate_def)

definition served :: "nat \<Rightarrow> bool \<Rightarrow> server \<Rightarrow> astore \<times> reply list \<Rightarrow> server \<Rightarrow> bool" where
  "served c full s r s' \<longleftrightarrow> srv_inv s' \<and> vw (clock s) (entry s') = fst r \<and> np s' = (np s)(c := np s c @ snd r) \<and>
     clock s' = clock s \<and> dbnum s' = dbnum s \<and> client_list s' = client_list s \<and> cdb (clients s' c) = cdb (clients s c) \<and>
     (full \<longrightarrow> fst r \<noteq> vw (clock s) (entry s) \<longrightarrow> propagated c (cdb (clients s c)) s')"

lemma call_basic_served:
  assumes "ready c s" "proc (cmd (clients s c)) \<notin> ctl_procs" "spec_of (cmd (clients s c)) (argv (clients s c)) c s = Some r"
  shows "wp (call_with basic_proc c full s) (served c full s r)"
proof -
  let ?s0 = "call_start c s"
  have r0: "ready c ?s0" by (rule call_start_ready [OF assms(1)])
  have g0: "good UNIV {} s ?s0" by (rule call_start_good) (use assms(1) in \<open>simp add: ready_def\<close>)
  obtain r' where "key_spec (cmd (clients ?s0 c)) (tl (argv (clients ?s0 c))) (clock ?s0) (dbnum ?s0) (cdb (clients ?s0 c)) (vw (clock ?s0) (entry ?s0)) = Some r'"
    and w: "wp (basic_proc c ?s0) (does (quiet_keys c ?s0) ?s0 c r')"
    by (rule basic_proc_key [OF r0]) (use assms(2) in \<open>simp_all add: call_start_same\<close>)
  then have "r' = r" using assms(3) by (simp add: call_start_same spec_of_def)
  have "served c full s r (call_end c full (flags (clients s c)) (dirty s) s')" if d: "does (quiet_keys c ?s0) ?s0 c r s'" for s'
  proof -
    have st: "step (quiet_keys c ?s0) ?s0 s'" "db_ok s'" using d by (simp_all add: does_def)
    have g: "good UNIV {} ?s0 s'" by (rule good_mono [OF step_good [OF goodD(1) [OF g0] st(2,1)]]) simp_all
    let ?e = "call_end c full (flags (clients s c)) (dirty s) s'"
    have ge: "good UNIV {} s ?e" by (rule good_trans [OF good_trans [OF g0 g] call_end_good [OF goodD(1) [OF g]]])
    have cd: "cdb (clients s' c) = cdb (clients s c)"
      using st(1) by (simp add: step_def client_part_def call_start_same)
    moreover have "cdb (clients ?e c) = cdb (clients s' c)" using call_end_same(5) [of c full _ _ s' c] by (simp add: client_part_def)
    moreover have "propagated c (cdb (clients s c)) ?e" if "full" "fst r \<noteq> vw (clock s) (entry s)"
      using call_end_propagated [of "dirty s" s' c "flags (clients s c)"] d that cd by (simp add: does_def call_start_same)
    ultimately show ?thesis
      using d goodD(1-4) [OF ge] by (simp add: served_def does_def call_end_same call_start_same)
  qed
  then show ?thesis unfolding call_with_eq wp_map using w \<open>r' = r\<close> by (auto elim: wp_mono)
qed

lemma call_served:
  assumes "ready c s" "proc (cmd (clients s c)) \<notin> ctl_procs" "spec_of (cmd (clients s c)) (argv (clients s c)) c s = Some r"
  shows "wp (call c full s) (served c full s r)"
proof -
  have "proc (cmd (clients s c)) \<noteq> p_execCommand" using assms(2) by (auto simp: ctl_procs_def)
  then have "call c full s = call_with basic_proc c full s"
    by (simp add: call_def call_with_eq command_proc_def call_start_same)
  then show ?thesis using call_basic_served [OF assms] by simp
qed

subsection \<open>Transactions\<close>

fun exec_spec :: "multiCmd list \<Rightarrow> int \<Rightarrow> nat \<Rightarrow> nat \<Rightarrow> astore \<Rightarrow> (astore \<times> reply list) option" where
  "exec_spec [] now n i V = Some (V, [])"
| "exec_spec (m # ms) now n i V = do {
     (V1, rs) \<leftarrow> key_spec (mc_cmd m) (tl (mc_argv m)) now n i V;
     (V2, rs') \<leftarrow> exec_spec ms now n i V1;
     Some (V2, rs @ rs')
   }"

lemma exec_spec_total:
  assumes "\<forall>m \<in> set ms. queued_ok m \<and> proc (mc_cmd m) \<notin> ctl_procs"
  shows "\<exists>r. exec_spec ms now n i V = Some r"
  using assms
proof (induction ms arbitrary: V)
  case (Cons m ms)
  obtain V1 rs where "key_spec (mc_cmd m) (tl (mc_argv m)) now n i V = Some (V1, rs)"
    using key_spec_total [of "mc_cmd m" "mc_argv m"] Cons.prems by (force simp: queued_ok_def)
  then show ?case using Cons.IH [of V1] Cons.prems by auto
qed simp

lemma exec_loop_served:
  assumes "srv_inv s" "c \<in> set (client_list s)" "\<forall>m \<in> set ms. queued_ok m \<and> proc (mc_cmd m) \<notin> ctl_procs"
    "exec_spec ms (clock s) (dbnum s) (cdb (clients s c)) (vw (clock s) (entry s)) = Some r"
  shows "wp (exec_loop c ms must s) (\<lambda>x. served c False s r (fst x))"
  using assms
proof (induction ms arbitrary: must s r)
  case (Cons m ms)
  let ?s2 = "exec_pre c m must s"
  obtain V1 rs V2 rs' where r: "key_spec (mc_cmd m) (tl (mc_argv m)) (clock s) (dbnum s) (cdb (clients s c)) (vw (clock s) (entry s)) = Some (V1, rs)"
      "exec_spec ms (clock s) (dbnum s) (cdb (clients s c)) V1 = Some (V2, rs')" "r = (V2, rs @ rs')"
    using Cons.prems(4) by (auto simp: bind_eq_Some_conv)
  have "wp (call_with basic_proc c (\<not> loading ?s2) ?s2) (served c (\<not> loading ?s2) ?s2 (V1, rs))"
    by (rule call_basic_served) (use Cons.prems r in \<open>simp_all add: exec_pre_ready exec_pre_same spec_of_def\<close>)
  then show ?case
    unfolding exec_loop_Cons wp_bind
  proof (rule wp_mono)
    fix s3 assume d: "served c (\<not> loading ?s2) ?s2 (V1, rs) s3"
    have cl: "client_list ?s2 = client_list s" using goodD(2) [OF exec_pre_good [OF Cons.prems(1)]] .
    have "wp (exec_loop c ms (must \<or> exec_now m must) s3) (\<lambda>x. served c False s3 (V2, rs') (fst x))"
      by (rule Cons.IH) (use Cons.prems d r cl in \<open>simp_all add: served_def exec_pre_same\<close>)
    then show "wp (exec_loop c ms (must \<or> exec_now m must) s3) (\<lambda>x. served c False s r (fst x))"
      by (rule wp_mono) (use d r cl in \<open>simp add: served_def exec_pre_same\<close>)
  qed
qed (auto simp: served_def)

lemma np_addReply: "\<not> is_pub r \<Longrightarrow> np (addReply c r s) = (np s)(c := np s c @ [r])"
  by (simp add: np_def addReply_def fun_eq_iff)

lemma entry_addReply [simp]: "entry (addReply c r s) = entry s"
  by (simp add: entry_def addReply_def upd_client_def fun_eq_iff)

definition finished :: "nat \<Rightarrow> server \<Rightarrow> bool" where
  "finished c s \<longleftrightarrow> \<not> has_flag (flags (clients s c)) CLIENT_MULTI \<and> mcommands (clients s c) = [] \<and> watched (clients s c) = []"

lemma discard_finished:
  "srv_inv s \<Longrightarrow> wp (discardTransaction c s) (\<lambda>s'. srv_inv s' \<and> entry s' = entry s \<and> np s' = np s \<and> finished c s')"
  by (rule wp_mono [OF discardTransaction_good [where K = UNIV]]) (auto simp: finished_def dest: goodD)

lemma dirty_other [simp]: "entry (incr_dirty n s) = entry s" "np (incr_dirty n s) = np s" "clients (incr_dirty n s) = clients s"
  by (simp_all add: incr_dirty_def entry_def np_def fun_eq_iff)

lemma execCommand_served:
  assumes "srv_inv s" "c \<in> set (client_list s)" "has_flag (flags (clients s c)) CLIENT_MULTI"
    "\<not> has_flag (flags (clients s c)) (CLIENT_DIRTY_CAS OR CLIENT_DIRTY_EXEC)"
    "\<forall>m \<in> set (mcommands (clients s c)). proc (mc_cmd m) \<notin> ctl_procs"
    "exec_spec (mcommands (clients s c)) (clock s) (dbnum s) (cdb (clients s c)) (vw (clock s) (entry s)) = Some r"
  shows "wp (execCommand c s) (\<lambda>s'. srv_inv s' \<and> vw (clock s) (entry s') = fst r \<and>
    np s' = (np s)(c := np s c @ ArrayLen (length (mcommands (clients s c))) # snd r) \<and> finished c s')"
proof -
  let ?ms = "mcommands (clients s c)" and ?a = "ArrayLen (length (mcommands (clients s c)))"
  let ?Q = "\<lambda>s'. srv_inv s' \<and> vw (clock s) (entry s') = fst r \<and> np s' = (np s)(c := np s c @ ?a # snd r) \<and> finished c s'"
  have q: "\<forall>m \<in> set ?ms. queued_ok m \<and> proc (mc_cmd m) \<notin> ctl_procs" using assms(1,5) by (simp add: srv_inv_def)
  have fin: "wp (discardTransaction c (upd_client c (\<lambda>x. x\<lparr>argv := as, cmd := cm\<rparr>) s3)) (\<lambda>s5. ?Q (incr_dirty 1 s5) \<and> ?Q s5)"
    if "srv_inv s3" "vw (clock s) (entry s3) = fst r" "np s3 = (np s)(c := np s c @ ?a # snd r)" for s3 as cm
  proof -
    have g: "good UNIV {} s3 (upd_client c (\<lambda>x. x\<lparr>argv := as, cmd := cm\<rparr>) s3)" by (rule restore_good [OF that(1)])
    have o: "entry (upd_client c (\<lambda>x. x\<lparr>argv := as, cmd := cm\<rparr>) s3) = entry s3" "np (upd_client c (\<lambda>x. x\<lparr>argv := as, cmd := cm\<rparr>) s3) = np s3"
      by (simp_all add: upd_client_def entry_def np_def fun_eq_iff)
    show ?thesis
      by (rule wp_mono [OF discard_finished [OF goodD(1) [OF g]]])
        (use that o goodD(1) [OF dirty_good] in \<open>auto simp: finished_def\<close>)
  qed
  have "wp (unwatchAllKeys c s) (\<lambda>s1. wp (exec_loop c ?ms False (addReply c ?a s1)) (\<lambda>x.
      wp (discardTransaction c (upd_client c (\<lambda>x. x\<lparr>argv := argv (clients s c), cmd := cmd (clients s c)\<rparr>) (fst x))) (\<lambda>s5. ?Q (incr_dirty 1 s5) \<and> ?Q s5)))"
  proof (rule wp_mono [OF unwatchAllKeys_good [OF assms(1), of c UNIV]], goal_cases)
    case (1 s1)
    then have g: "good UNIV {c} s (addReply c ?a s1)" and u: "unwatched c s s1" by (auto intro: good_then)
    have o: "entry (addReply c ?a s1) = entry s" "np (addReply c ?a s1) = (np s)(c := np s c @ [?a])"
        "cdb (clients (addReply c ?a s1) c) = cdb (clients s c)"
      using u by (simp_all add: np_addReply unwatched_def) (simp add: addReply_def)
    have "wp (exec_loop c ?ms False (addReply c ?a s1)) (\<lambda>x. served c False (addReply c ?a s1) r (fst x))"
      by (rule exec_loop_served [OF goodD(1) [OF g]]) (use assms(2,6) q o goodD(2-4) [OF g] in simp_all)
    then show ?case
      by (rule wp_mono) (rule fin, use o goodD(3) [OF g] in \<open>simp_all add: served_def\<close>)
  qed
  then show ?thesis
    using assms(1,3,4) by (simp add: execCommand_def Let_def split_beta srv_inv_def) (erule wp_mono, erule wp_mono, erule wp_mono, simp)
qed

lemma execCommand_aborted:
  assumes "srv_inv s" "has_flag (flags (clients s c)) CLIENT_MULTI" "has_flag (flags (clients s c)) (CLIENT_DIRTY_CAS OR CLIENT_DIRTY_EXEC)"
  shows "wp (execCommand c s) (\<lambda>s'. srv_inv s' \<and> entry s' = entry s \<and>
    np s' = (np s)(c := np s c @ [if has_flag (flags (clients s c)) CLIENT_DIRTY_EXEC then ExecAbortErr else NullArray]) \<and> finished c s')"
proof -
  let ?r = "if has_flag (flags (clients s c)) CLIENT_DIRTY_EXEC then ExecAbortErr else NullArray"
  have "wp (discardTransaction c (addReply c ?r s)) (\<lambda>s'. srv_inv s' \<and> entry s' = entry s \<and> np s' = (np s)(c := np s c @ [?r]) \<and> finished c s')"
    by (rule wp_mono [OF discard_finished [OF goodD(1) [OF reply_good [OF assms(1), of UNIV "{}"]]]]) (simp add: np_addReply)
  then show ?thesis using assms(2,3) by (simp add: execCommand_def Let_def del: has_flag_or)
qed

subsection \<open>Requests\<close>

definition prepared :: "nat \<Rightarrow> bytes list \<Rightarrow> redisCommand \<Rightarrow> server \<Rightarrow> server" where
  "prepared c args cm s = upd_client c (\<lambda>cl. cl\<lparr>cmd := cm\<rparr>) (set_request c args s)"

lemma prepared_good: "srv_inv s \<Longrightarrow> good K A s (prepared c args cm s)"
  unfolding prepared_def using good_trans [OF set_request_good set_cmd_good] goodD(1) [OF set_request_good] by blast

lemma prepared_same:
  "clients (prepared c args cm s) c = (clients s c)\<lparr>argv := args, cmd := cm\<rparr>" "entry (prepared c args cm s) = entry s"
  "np (prepared c args cm s) = np s" "clock (prepared c args cm s) = clock s" "dbnum (prepared c args cm s) = dbnum s"
  "client_list (prepared c args cm s) = client_list s"
  by (simp_all add: prepared_def set_request_def upd_client_def entry_def np_def fun_eq_iff)

lemma denied_prepared: "denied c cm (prepared c args cm s) = denied c cm s"
  by (simp add: denied_def write_denied_def pubsub_denied_def state_denied_def prepared_def set_request_def upd_client_def)

text \<open>QUIT is not in the table.\<close>

lemma map_lower_cstr: "map lower (cstr b) = takeWhile (\<lambda>x. x \<noteq> 0) (map lower b)"
proof -
  have "lower x = 0 \<longleftrightarrow> x = 0" for x
    by (auto simp: lower_def word_le_nat_alt word_unat_eq_iff unat_word_ariths split: if_splits)
  then show ?thesis by (simp add: cstr_def takeWhile_map o_def)
qed

lemma table_no_quit:
  "list_all (\<lambda>cm. takeWhile (\<lambda>x. x \<noteq> 0) (map lower (bstr (cname cm))) \<noteq> map lower (bstr ''quit'')) redisCommandTable"
  by code_simp

lemma lookup_no_quit: "lookupCommand n = Some cm \<Longrightarrow> \<not> strcaseeq n ''quit''"
  using table_no_quit by (auto simp: strcaseeq_def map_lower_cstr lookupCommand_def find_Some_iff list_all_iff)

lemma processCommand_call:
  assumes "lookupCommand (hd args) = Some cm" "\<not> arity_error cm (length args)" "denied c cm s = None"
    "has_flag (flags (clients s c)) CLIENT_MULTI \<Longrightarrow> proc cm \<in> {p_execCommand, p_discardCommand, p_multiCommand, p_watchCommand}"
  shows "processCommand c args s = call c True (prepared c args cm s)"
  using assms denied_prepared [of c cm args s] lookup_no_quit [OF assms(1)]
  by (auto simp: processCommand_eq Let_def queue_or_call_def prepared_def set_request_def)

text \<open>A request that is not executed now.\<close>

lemma entry_prepared: "entry (set_request c args s) = entry s" "entry (upd_client c (\<lambda>cl. cl\<lparr>cmd := cm\<rparr>) s) = entry s"
  "entry (queueMultiCommand c s) = entry s" "entry (reject c r s) = entry s"
  by (simp_all add: set_request_def queueMultiCommand_def reject_def flagTransaction_def upd_client_def entry_def fun_eq_iff addReply_def set_flags_def)

lemma processCommand_rejected:
  assumes "\<not> (\<exists>cm. lookupCommand (hd args) = Some cm \<and> \<not> arity_error cm (length args) \<and> denied c cm s = None \<and>
      \<not> has_flag (flags (clients s c)) CLIENT_MULTI)"
    "\<forall>cm. lookupCommand (hd args) = Some cm \<longrightarrow> proc cm \<notin> ctl_procs" "processCommand c args s = Some s'"
  shows "entry s' = entry s"
proof (cases "lookupCommand (hd args)")
  case None
  then show ?thesis using assms(3) by (auto simp: processCommand_eq Let_def entry_prepared split: if_splits)
next
  case (Some cm)
  have p: "proc cm \<notin> {p_execCommand, p_discardCommand, p_multiCommand, p_watchCommand}" using assms(2) Some by (auto simp: ctl_procs_def)
  have "flags (clients (prepared c args cm s) c) = flags (clients s c)" by (simp add: prepared_same)
  then show ?thesis
    using assms(1,3) Some p lookup_no_quit [OF Some] denied_prepared [of c cm args s]
    by (auto simp: processCommand_eq Let_def entry_prepared queue_or_call_def prepared_def [symmetric] split: if_splits option.splits)
      (simp_all add: prepared_def entry_prepared)
qed

lemma prepared_ready:
  assumes "srv_inv s" "c \<in> set (client_list s)" "request_ok args" "lookupCommand (hd args) = Some cm" "\<not> arity_error cm (length args)"
  shows "ready c (prepared c args cm s)"
  using assms goodD(1) [OF prepared_good [OF assms(1), of UNIV "{}" c args cm]] lookupCommand_in [OF assms(4)]
  by (simp add: ready_def prepared_same request_ok_def)

lemma request_served:
  assumes "srv_inv s" "c \<in> set (client_list s)" "request_ok args" "\<not> has_flag (flags (clients s c)) CLIENT_MULTI"
    "lookupCommand (hd args) = Some cm" "\<not> arity_error cm (length args)" "denied c cm s = None"
    "proc cm \<notin> ctl_procs" "spec_of cm args c s = Some r"
  shows "wp (processCommand c args s) (served c True s r)"
proof -
  have "wp (call c True (prepared c args cm s)) (served c True (prepared c args cm s) r)"
    by (rule call_served [OF prepared_ready [OF assms(1-3,5,6)]]) (use assms(8,9) in \<open>simp_all add: prepared_same spec_of_def\<close>)
  then show ?thesis
    using processCommand_call [OF assms(5-7)] assms(4) by (auto elim!: wp_mono simp: served_def prepared_same)
qed

text \<open>EXEC.\<close>

lemma multi_flag: "\<not> has_flag propagation_flags CLIENT_MULTI" "\<not> has_flag propagation_flags CLIENT_DIRTY_EXEC"
  unfolding propagation_flags_def flag_simps by auto

lemma call_end_finished:
  assumes "finished c s"
  shows "finished c (call_end c full old d s)"
proof -
  have "\<not> has_flag (old AND propagation_flags) CLIENT_MULTI" using multi_flag(1) by (auto simp: has_flag_iff bit_and_iff)
  then have "\<not> has_flag (flags (clients (call_end c full old d s) c)) CLIENT_MULTI"
    using assms multi_flag(1) by (simp add: finished_def call_end_def Let_def set_flags_def clear_flags_def has_flag_clear_other)
  then show ?thesis
    using assms call_end_same(5) [of c full old d s c] by (simp add: finished_def client_part_def)
qed

lemma exec_request:
  assumes "lookupCommand (hd args) = Some cm" "proc cm = p_execCommand" "length args = 1" "denied c cm s = None"
    "wp (execCommand c (call_start c (prepared c args cm s))) (\<lambda>s'. srv_inv s' \<and> finished c s' \<and> P (entry s') (np s'))"
  shows "wp (processCommand c args s) (\<lambda>s'. srv_inv s' \<and> finished c s' \<and> P (entry s') (np s'))"
proof -
  have "\<not> arity_error cm (length args)"
    using lookupCommand_in [OF assms(1)] assms(2,3) by (auto simp: command_table_defs arity_error_def)
  then have "processCommand c args s = call c True (prepared c args cm s)"
    using assms(1,2,4) by (intro processCommand_call) simp_all
  also have "\<dots> = map_option (call_end c True (flags (clients s c)) (dirty s)) (execCommand c (call_start c (prepared c args cm s)))"
    using assms(2) by (simp add: call_def call_with_eq command_proc_def call_start_same prepared_same)
      (simp add: prepared_def set_request_def upd_client_def)
  finally show ?thesis
    using assms(5) goodD(1) [OF call_end_good] by (auto elim!: wp_mono simp: call_end_same call_end_finished)
qed

lemma lookup_exec: "lookupCommand (bstr ''EXEC'') = Some (command ''exec'' p_execCommand 1 (CMD_LOADING OR CMD_STALE))"
  by code_simp

lemma exec_not_denied:
  assumes "srv_inv s" "\<not> has_flag (flags (clients s c)) CLIENT_PUBSUB"
  shows "denied c (command ''exec'' p_execCommand 1 (CMD_LOADING OR CMD_STALE)) s = None"
proof -
  have "\<not> has_flag (CMD_LOADING OR CMD_STALE) CMD_WRITE" by (simp add: has_flag_def CMD_LOADING_def CMD_STALE_def CMD_WRITE_def)
  then show ?thesis using assms by (simp add: denied_def write_denied_def pubsub_denied_def state_denied_def command_def srv_inv_def)
qed

lemma exec_served:
  assumes "srv_inv s" "\<not> has_flag (flags (clients s c)) CLIENT_PUBSUB"
    "wp (execCommand c (call_start c (prepared c [bstr ''EXEC''] (command ''exec'' p_execCommand 1 (CMD_LOADING OR CMD_STALE)) s)))
      (\<lambda>s'. srv_inv s' \<and> finished c s' \<and> P (entry s') (np s'))"
  shows "\<exists>s'. processCommand c [bstr ''EXEC''] s = Some s' \<and> srv_inv s' \<and> finished c s' \<and> P (entry s') (np s')"
  using exec_request [of "[bstr ''EXEC'']" _ c s P, OF _ _ _ exec_not_denied [OF assms(1,2)] assms(3)] lookup_exec
  by (simp add: wp_iff) (simp add: command_def)

definition start_exec :: "nat \<Rightarrow> server \<Rightarrow> server" where
  "start_exec c s = call_start c (prepared c [bstr ''EXEC''] (command ''exec'' p_execCommand 1 (CMD_LOADING OR CMD_STALE)) s)"

lemma start_exec_good: "srv_inv s \<Longrightarrow> good UNIV {} s (start_exec c s)"
  unfolding start_exec_def by (rule good_trans [OF prepared_good call_start_good [OF goodD(1) [OF prepared_good]]])

lemma start_exec_same:
  "mcommands (clients (start_exec c s) c) = mcommands (clients s c)" "cdb (clients (start_exec c s) c) = cdb (clients s c)"
  "entry (start_exec c s) = entry s" "np (start_exec c s) = np s" "clock (start_exec c s) = clock s" "dbnum (start_exec c s) = dbnum s"
  "m \<in> {CLIENT_MULTI, CLIENT_DIRTY_CAS, CLIENT_DIRTY_EXEC} \<Longrightarrow> has_flag (flags (clients (start_exec c s) c)) m = has_flag (flags (clients s c)) m"
  by (auto simp: start_exec_def call_start_same prepared_same has_flag_clear_other multi_flag)

end
