(* ===== verification/Examples.thy ===== *)
theory Examples
  imports Server_Run Exec_Refine
begin

unbundle bit_operations_syntax

text \<open>
  Concrete states of the server on which the theorems about it are instantiated.
\<close>

definition ex_client :: client where
  "ex_client = \<lparr>flags = 0, cdb = 0, resp = 2, argv = [], cmd = del_cmd, watched = [], mcommands = [], mcmd_flags = 0,
     sub_channels = [], sub_patterns = [], reply = []\<rparr>"

definition ex_db :: redisDb where
  "ex_db = \<lparr>kv = [], expires = Map.empty, wkeys = Map.empty, blocking_keys = {}, ready_keys = {}\<rparr>"

definition ex_start :: server where
  "ex_start = \<lparr>db = (\<lambda>i. ex_db), dbnum = 16, clients = (\<lambda>c. ex_client), client_list = [], current_client = None,
     masterhost = False, master_link_up = True, repl_slave_ro = True, repl_serve_stale_data = True, min_slaves_to_write = 0,
     min_slaves_max_lag = 10, good_slaves_count = 0, loading = False, lazyfree_lazy_expire = False, lazyfree_lazy_server_del = False,
     lazyfree_lazy_user_del = False, aof_on = True, notify_keyspace_events = 0, mstime = 1000, clock = 1000, dirty = 0,
     stat_keyspace_hits = 0, stat_keyspace_misses = 0, stat_expiredkeys = 0, stat_numcommands = 0, aof_feed = [], repl_feed = [],
     slave_keys = Map.empty, ready_list = [], pubsub_channels = [], pubsub_patterns = [], pubsub_patterns_dict = []\<rparr>"

lemma ex_initial: "initial ex_start"
  by (simp add: initial_def ex_start_def ex_client_def ex_db_def db_ok_def entry_def ent_ok_def)

text \<open>Two clients are connected.\<close>

definition ex_two :: server where
  "ex_two = createClient 1 (createClient 0 ex_start)"

lemma ex_two_run: "run [Connect 0, Connect 1] ex_start ex_two"
  unfolding ex_two_def by (rule run_Cons [OF connect run_Cons [OF connect run_Nil]])
    (simp_all add: ex_start_def createClient_def linkClient_def upd_client_def)

lemma ex_two_inv: "srv_inv ex_two"
  by (rule run_inv [OF ex_two_run initial_inv [OF ex_initial]])

lemma ex_two_simps [simp]:
  "client_list ex_two = [0, 1]" "dbnum ex_two = 16" "clock ex_two = 1000" "entry ex_two i k = (None, None)" "masterhost ex_two = False"
  "loading ex_two = False" "min_slaves_to_write ex_two = 0" "cdb (clients ex_two c) = 0" "flags (clients ex_two c) = 0" "np ex_two c = []"
  "pubsub_channels ex_two = []" "pubsub_patterns ex_two = []" "pubsub_patterns_dict ex_two = []" "db ex_two i = ex_db"
  "sub_channels (clients ex_two c) = []" "sub_patterns (clients ex_two c) = []" "mcommands (clients ex_two c) = []" "watched (clients ex_two c) = []"
  by (simp_all add: ex_two_def ex_start_def createClient_def linkClient_def upd_client_def entry_def ex_db_def ex_client_def np_def
      initClientMultiState_def)

text \<open>Client 0 watches the key \<open>k\<close> and has queued an increment of it.\<close>

definition ex_key :: bytes where "ex_key = bstr ''k''"

definition ex_incr :: multiCmd where
  "ex_incr = \<lparr>mc_cmd = command ''incr'' p_incrCommand 2 CMD_WRITE, mc_argv = [bstr ''INCR'', ex_key]\<rparr>"

definition ex_watch :: server where
  "ex_watch = upd_db 0 (\<lambda>d. d\<lparr>wkeys := [ex_key \<mapsto> [0]]\<rparr>)
     (upd_client 0 (\<lambda>cl. cl\<lparr>flags := CLIENT_MULTI, watched := [(0, ex_key)], mcommands := [ex_incr]\<rparr>) ex_two)"

lemma ex_watch_simps [simp]:
  "client_list ex_watch = [0, 1]" "dbnum ex_watch = 16" "clock ex_watch = 1000" "entry ex_watch i k = (None, None)" "masterhost ex_watch = False"
  "loading ex_watch = False" "min_slaves_to_write ex_watch = 0" "cdb (clients ex_watch c) = 0" "np ex_watch c = []"
  "clients ex_watch 0 = (clients ex_two 0)\<lparr>flags := CLIENT_MULTI, watched := [(0, ex_key)], mcommands := [ex_incr]\<rparr>"
  "c \<noteq> 0 \<Longrightarrow> clients ex_watch c = clients ex_two c"
  "pubsub_channels ex_watch = []" "pubsub_patterns ex_watch = []" "pubsub_patterns_dict ex_watch = []"
  "db ex_watch i = (if i = 0 then ex_db\<lparr>wkeys := [ex_key \<mapsto> [0]]\<rparr> else ex_db)"
  by (simp_all add: ex_watch_def upd_client_def upd_db_def entry_def np_def ex_two_simps [unfolded entry_def np_def] ex_db_def)

lemma ex_incr_ok: "queued_ok ex_incr"
  by (simp add: queued_ok_def ex_incr_def redisCommandTable_def table_ranges_def arity_error_def command_def safe_args_def)

lemma ex_watch_inv: "srv_inv ex_watch"
proof -
  have w: "watched (clients ex_watch c) = (if c = 0 then [(0, ex_key)] else [])" for c by simp
  have m: "mcommands (clients ex_watch c) = (if c = 0 then [ex_incr] else [])" for c by simp
  have "sub_channels (clients ex_watch c) = []" "sub_patterns (clients ex_watch c) = []" for c by (cases "c = 0"; simp)+
  moreover have "wreg_ok (wreg_of ex_watch)" by (auto simp: wreg_ok_def wreg_of_def lists_ok_def ex_db_def)
  moreover have "consistent (wholders (wreg_of ex_watch)) (\<lambda>c. watched (clients ex_watch c))"
    unfolding w by (auto simp: consistent_def wholders_def wreg_of_def ex_db_def)
  ultimately show ?thesis
    by (simp add: srv_inv_def watch_inv_def pubsub_inv_def w m ex_incr_ok db_ok_def ent_ok_def ex_db_def sub_ok_def lists_ok_def consistent_def
        subscribers_def)
qed

text \<open>The key \<open>k\<close> exists; its expire time is \<open>t\<close>.\<close>

definition ex_volatile :: "int \<Rightarrow> server" where
  "ex_volatile t = upd_db 0 (\<lambda>d. d\<lparr>kv := [(ex_key, StrInt 7)], expires := [ex_key \<mapsto> t]\<rparr>) ex_two"

lemma ex_volatile_simps [simp]:
  "client_list (ex_volatile t) = [0, 1]" "dbnum (ex_volatile t) = 16" "clock (ex_volatile t) = 1000" "masterhost (ex_volatile t) = False"
  "loading (ex_volatile t) = False" "min_slaves_to_write (ex_volatile t) = 0" "clients (ex_volatile t) = clients ex_two" "np (ex_volatile t) c = []"
  "pubsub_channels (ex_volatile t) = []" "pubsub_patterns (ex_volatile t) = []" "pubsub_patterns_dict (ex_volatile t) = []"
  "db (ex_volatile t) i = (if i = 0 then ex_db\<lparr>kv := [(ex_key, StrInt 7)], expires := [ex_key \<mapsto> t]\<rparr> else ex_db)"
  "entry (ex_volatile t) i k = (if i = 0 \<and> k = ex_key then (Some (StrInt 7), Some t) else (None, None))"
  by (simp_all add: ex_volatile_def upd_db_def entry_def np_def ex_two_simps [unfolded np_def] ex_db_def)

lemma ex_volatile_inv: "srv_inv (ex_volatile t)"
proof (rule srv_inv_cong [OF _ _ ex_two_inv])
  show "inv_part (ex_volatile t) = inv_part ex_two"
    by (simp add: inv_part_def wreg_of_def fun_eq_iff ex_db_def)
  show "db_ok (ex_volatile t)"
    by (simp add: db_ok_def ent_ok_def int64_def ex_db_def)
qed

definition ex_watch_volatile :: server where
  "ex_watch_volatile = upd_db 0 (\<lambda>d. d\<lparr>kv := [(ex_key, StrInt 7)], expires := [ex_key \<mapsto> 2000]\<rparr>) ex_watch"

text \<open>Client 0 subscribed to a channel and to a pattern.\<close>

definition ex_sub :: server where
  "ex_sub = (upd_client 0 (\<lambda>cl. cl\<lparr>sub_channels := [bstr ''news''], sub_patterns := [bstr ''n*'']\<rparr>) ex_two)\<lparr>
     pubsub_channels := [(bstr ''news'', [0])], pubsub_patterns := [(0, bstr ''n*'')], pubsub_patterns_dict := [(bstr ''n*'', [0])]\<rparr>"

lemma ex_sub_inv: "srv_inv ex_sub"
proof -
  have c: "sub_channels (clients ex_sub c) = (if c = 0 then [bstr ''news''] else [])" "sub_patterns (clients ex_sub c) = (if c = 0 then [bstr ''n*''] else [])"
      "watched (clients ex_sub c) = []" "mcommands (clients ex_sub c) = []" "cdb (clients ex_sub c) = 0" for c
    by (simp_all add: ex_sub_def upd_client_def)
  have s: "dbnum ex_sub = 16" "client_list ex_sub = [0, 1]" "masterhost ex_sub = False" "loading ex_sub = False" "db ex_sub = db ex_two"
      "pubsub_channels ex_sub = [(bstr ''news'', [0])]" "pubsub_patterns ex_sub = [(0, bstr ''n*'')]" "pubsub_patterns_dict ex_sub = [(bstr ''n*'', [0])]"
    by (simp_all add: ex_sub_def upd_client_def)
  have "db_ok ex_sub" "watch_inv ex_sub"
    by (simp_all add: db_ok_def entry_def ent_ok_def s ex_db_def watch_inv_def c wreg_ok_def wreg_of_def lists_ok_def consistent_def wholders_def)
  moreover have "pubsub_inv ex_sub"
    unfolding pubsub_inv_def c s by (auto simp: sub_ok_def lists_ok_def consistent_def subscribers_def)
  ultimately show ?thesis by (simp add: srv_inv_def s c)
qed

end
