(* ===== verification/Pubsub_Deliver.thy ===== *)
theory Pubsub_Deliver
  imports Server_Inv
begin

unbundle bit_operations_syntax

text \<open>
  What PUBLISH delivers: each client gets the message once for the channel, if it subscribed to it,
  and once for each matching pattern it subscribed to.  The text form of the notification classes.
\<close>

subsection \<open>Deliveries\<close>

definition pub_item :: "client \<Rightarrow> reply list \<Rightarrow> reply" where
  "pub_item cl items = (if resp cl = 2 then PubArray items else PushArray items)"

definition message_item :: "bytes \<Rightarrow> bytes \<Rightarrow> client \<Rightarrow> reply" where
  "message_item ch m cl = pub_item cl [Bulk (bstr ''message''), Bulk ch, Bulk m]"

definition pmessage_item :: "bytes \<Rightarrow> bytes \<Rightarrow> client \<Rightarrow> bytes \<Rightarrow> reply" where
  "pmessage_item ch m cl p = pub_item cl [Bulk (bstr ''pmessage''), Bulk p, Bulk ch, Bulk m]"

text \<open>The messages for a client in the order it gets them; the patterns in the order of the table.\<close>

definition deliveries :: "bytes \<Rightarrow> bytes \<Rightarrow> server \<Rightarrow> nat \<Rightarrow> reply list" where
  "deliveries ch m s c =
     (if ch \<in> set (sub_channels (clients s c)) then [message_item ch m (clients s c)] else []) @
     map (pmessage_item ch m (clients s c))
       (filter (\<lambda>p. p \<in> set (sub_patterns (clients s c)) \<and> stringmatchlen p ch False) (map fst (pubsub_patterns_dict s)))"

lemma pub_item_reply [simp]: "pub_item (cl\<lparr>reply := r\<rparr>) = pub_item cl" "message_item ch m (cl\<lparr>reply := r\<rparr>) = message_item ch m cl"
  "pmessage_item ch m (cl\<lparr>reply := r\<rparr>) = pmessage_item ch m cl"
  by (simp_all add: message_item_def pmessage_item_def pub_item_def fun_eq_iff)

lemma send_message_clients:
  "distinct cs \<Longrightarrow> clients (send_message cs ch m s) c =
     (if c \<in> set cs then (clients s c)\<lparr>reply := reply (clients s c) @ [message_item ch m (clients s c)]\<rparr> else clients s c)"
  by (induction cs arbitrary: s)
    (auto simp: addReplyPubsubMessage_def pub_reply_def addReply_def message_item_def pub_item_def)

lemma send_pmessage_clients:
  "distinct cs \<Longrightarrow> clients (send_pmessage cs p ch m s) c =
     (if c \<in> set cs then (clients s c)\<lparr>reply := reply (clients s c) @ [pmessage_item ch m (clients s c) p]\<rparr> else clients s c)"
  by (induction cs arbitrary: s)
    (auto simp: addReplyPubsubPatMessage_def pub_reply_def addReply_def pmessage_item_def pub_item_def)

lemma send_message_dict: "pubsub_patterns_dict (send_message cs ch m s) = pubsub_patterns_dict s"
  by (induction cs arbitrary: s)
    (auto simp: addReplyPubsubMessage_def pub_reply_def addReply_def upd_client_def)

lemma publish_patterns_clients:
  assumes "\<forall>(p, cs) \<in> set ps. distinct cs"
  shows "clients (fst (publish_patterns ps ch m s)) c = (clients s c)\<lparr>reply := reply (clients s c) @
    map (pmessage_item ch m (clients s c)) (map fst (filter (\<lambda>(p, cs). c \<in> set cs \<and> stringmatchlen p ch False) ps))\<rparr>"
  using assms
proof (induction ps arbitrary: s)
  case (Cons x ps)
  obtain p cs where x: "x = (p, cs)" by (cases x)
  show ?case
    using Cons.IH Cons.prems by (auto simp: x split_beta send_pmessage_clients)
qed simp

lemma publish_patterns_count:
  "snd (publish_patterns ps ch m s) = (\<Sum>(p, cs) \<leftarrow> ps. if stringmatchlen p ch False then length cs else 0)"
  by (induction ps arbitrary: s) (auto simp: split_beta)

lemma count_members: "finite C \<Longrightarrow> distinct cs \<Longrightarrow> set cs \<subseteq> C \<Longrightarrow> (\<Sum>c \<in> C. if c \<in> set cs then 1 else 0) = length cs"
  by (simp add: sum.If_cases distinct_card inf_absorb2)

lemma count_patterns:
  assumes "finite C" "\<forall>(p, cs) \<in> set ps. distinct cs \<and> set cs \<subseteq> C"
  shows "(\<Sum>c \<in> C. length (filter (\<lambda>(p, cs). c \<in> set cs \<and> P p) ps)) = (\<Sum>(p, cs) \<leftarrow> ps. if P p then length cs else 0)"
  using assms(2)
proof (induction ps)
  case (Cons x ps)
  obtain p cs where x: "x = (p, cs)" by (cases x)
  have "(\<Sum>c \<in> C. length (filter (\<lambda>(p, cs). c \<in> set cs \<and> P p) (x # ps))) =
      (\<Sum>c \<in> C. (if c \<in> set cs \<and> P p then 1 else 0) + length (filter (\<lambda>(p, cs). c \<in> set cs \<and> P p) ps))"
    by (rule sum.cong) (simp_all add: x)
  also have "\<dots> = (if P p then length cs else 0) + (\<Sum>(p, cs) \<leftarrow> ps. if P p then length cs else 0)"
    using Cons count_members [OF assms(1), of cs] by (simp add: sum.distrib x)
  finally show ?case by (simp add: x)
qed simp

text \<open>The clients in the two tables.\<close>

definition channel_clients :: "bytes \<Rightarrow> server \<Rightarrow> nat list" where
  "channel_clients ch s = (case map_of (pubsub_channels s) ch of None \<Rightarrow> [] | Some cs \<Rightarrow> cs)"

lemma channel_clients_ok:
  assumes "srv_inv s"
  shows "distinct (channel_clients ch s)" "c \<in> set (channel_clients ch s) \<longleftrightarrow> ch \<in> set (sub_channels (clients s c))"
    "set (channel_clients ch s) \<subseteq> set (client_list s)"
proof -
  have p: "sub_ok (pubsub_channels s)" "consistent (subscribers (pubsub_channels s)) (\<lambda>c. sub_channels (clients s c))"
    using assms by (simp_all add: srv_inv_def pubsub_inv_def)
  have "set (channel_clients ch s) = subscribers (pubsub_channels s) ch" by (simp add: channel_clients_def subscribers_def split: option.split)
  then show m: "c \<in> set (channel_clients ch s) \<longleftrightarrow> ch \<in> set (sub_channels (clients s c))" for c
    using consistentD [OF p(2), of c ch] by simp
  show "distinct (channel_clients ch s)"
    using p(1) by (auto simp: channel_clients_def sub_ok_def dest: lists_ok_get simp del: map_of_eq_Some_iff split: option.splits)
  show "set (channel_clients ch s) \<subseteq> set (client_list s)"
    using m assms unfolding srv_inv_def by force
qed

lemma pattern_clients_ok:
  assumes "srv_inv s" "(q, ds) \<in> set (pubsub_patterns_dict s)"
  shows "c \<in> set ds \<longleftrightarrow> q \<in> set (sub_patterns (clients s c))" "distinct ds \<and> set ds \<subseteq> set (client_list s)"
proof -
  have p: "sub_ok (pubsub_patterns_dict s)" "consistent (subscribers (pubsub_patterns_dict s)) (\<lambda>c. sub_patterns (clients s c))"
    using assms(1) by (simp_all add: srv_inv_def pubsub_inv_def)
  have q: "map_of (pubsub_patterns_dict s) q = Some ds" using p(1) assms(2) by (simp add: sub_ok_def)
  show m: "c \<in> set ds \<longleftrightarrow> q \<in> set (sub_patterns (clients s c))" for c
    using consistentD [OF p(2), of c q] q by (simp add: subscribers_def)
  have "distinct ds" using p(1) q lists_ok_get [of "map_of (pubsub_patterns_dict s)" q ds] unfolding sub_ok_def by blast
  moreover have "set ds \<subseteq> set (client_list s)" using m assms(1) unfolding srv_inv_def by force
  ultimately show "distinct ds \<and> set ds \<subseteq> set (client_list s)" by simp
qed

lemma pubsubPublishMessage_eq:
  "pubsubPublishMessage ch m s = (let s1 = send_message (channel_clients ch s) ch m s; r = publish_patterns (pubsub_patterns_dict s) ch m s1
     in (fst r, length (channel_clients ch s) + snd r))"
  by (auto simp: pubsubPublishMessage_def channel_clients_def send_message_dict Let_def split_beta split: option.splits)

lemma filter_patterns:
  assumes "srv_inv s"
  shows "map fst (filter (\<lambda>(p, cs). c \<in> set cs \<and> P p) (pubsub_patterns_dict s)) =
    filter (\<lambda>p. p \<in> set (sub_patterns (clients s c)) \<and> P p) (map fst (pubsub_patterns_dict s))"
  using pattern_clients_ok(1) [OF assms]
  by (auto simp: filter_map o_def split_beta intro!: arg_cong [where f = "map fst"] filter_cong)

lemma publish_effect:
  assumes "srv_inv s"
  shows "reply (clients (fst (pubsubPublishMessage ch m s)) c) = reply (clients s c) @ deliveries ch m s c \<and>
    snd (pubsubPublishMessage ch m s) = (\<Sum>c \<in> set (client_list s). length (deliveries ch m s c))"
proof
  let ?ps = "pubsub_patterns_dict s" and ?cs = "channel_clients ch s" and ?f = "\<lambda>c (p, cs). c \<in> set cs \<and> stringmatchlen p ch False"
  have ps: "\<forall>(q, ds) \<in> set ?ps. distinct ds \<and> set ds \<subseteq> set (client_list s)" using pattern_clients_ok(2) [OF assms] by blast
  then have d: "\<forall>(q, ds) \<in> set ?ps. distinct ds" by blast
  show "reply (clients (fst (pubsubPublishMessage ch m s)) c) = reply (clients s c) @ deliveries ch m s c"
    using publish_patterns_clients [OF d, of ch m "send_message ?cs ch m s" c] channel_clients_ok(1) [OF assms, of ch] channel_clients_ok(2) [OF assms, of c ch]
    by (simp add: pubsubPublishMessage_eq Let_def send_message_clients deliveries_def filter_patterns [OF assms])
  have "length (deliveries ch m s c) = (if c \<in> set ?cs then 1 else 0) + length (filter (?f c) ?ps)" for c
    using arg_cong [OF filter_patterns [OF assms, of c "\<lambda>p. stringmatchlen p ch False"], of length]
    by (simp add: deliveries_def channel_clients_ok(2) [OF assms])
  then have "(\<Sum>c \<in> set (client_list s). length (deliveries ch m s c)) =
      length ?cs + (\<Sum>(q, ds) \<leftarrow> ?ps. if stringmatchlen q ch False then length ds else 0)"
    using count_members [OF _ channel_clients_ok(1,3) [OF assms], of ch] count_patterns [OF _ ps, of "\<lambda>q. stringmatchlen q ch False"]
    by (simp add: sum.distrib)
  then show "snd (pubsubPublishMessage ch m s) = (\<Sum>c \<in> set (client_list s). length (deliveries ch m s c))"
    by (simp add: pubsubPublishMessage_eq Let_def publish_patterns_count)
qed

subsection \<open>The classes of notifications\<close>

lemmas notify_flags = NOTIFY_KEYSPACE_def NOTIFY_KEYEVENT_def NOTIFY_GENERIC_def NOTIFY_STRING_def NOTIFY_LIST_def NOTIFY_SET_def
  NOTIFY_HASH_def NOTIFY_ZSET_def NOTIFY_EXPIRED_def NOTIFY_EVICTED_def NOTIFY_STREAM_def NOTIFY_KEY_MISS_def

lemma StringToFlags_append:
  "keyspaceEventsStringToFlags_loop (a @ b) fl =
     (case keyspaceEventsStringToFlags_loop a fl of None \<Rightarrow> None | Some f \<Rightarrow> keyspaceEventsStringToFlags_loop b f)"
  by (induction a arbitrary: fl) (auto split: option.splits)

lemma class_flag_simps:
  "class_flag (of_char CHR ''A'') = Some NOTIFY_ALL" "class_flag (of_char CHR ''g'') = Some NOTIFY_GENERIC" "class_flag (of_char CHR ''$'') = Some NOTIFY_STRING"
  "class_flag (of_char CHR ''l'') = Some NOTIFY_LIST" "class_flag (of_char CHR ''s'') = Some NOTIFY_SET" "class_flag (of_char CHR ''h'') = Some NOTIFY_HASH"
  "class_flag (of_char CHR ''z'') = Some NOTIFY_ZSET" "class_flag (of_char CHR ''x'') = Some NOTIFY_EXPIRED" "class_flag (of_char CHR ''e'') = Some NOTIFY_EVICTED"
  "class_flag (of_char CHR ''K'') = Some NOTIFY_KEYSPACE" "class_flag (of_char CHR ''E'') = Some NOTIFY_KEYEVENT" "class_flag (of_char CHR ''t'') = Some NOTIFY_STREAM"
  "class_flag (of_char CHR ''m'') = Some NOTIFY_KEY_MISS"
  by code_simp+

lemma and_bit: "fl AND push_bit n 1 = 0 \<or> fl AND push_bit n 1 = push_bit n 1" for fl :: u64
proof -
  have "fl AND push_bit n 1 = (if bit fl n then push_bit n 1 else 0)"
    by (rule bit_word_eqI) (auto simp: bit_and_iff bit_exp_iff)
  then show ?thesis by simp
qed

lemma class_char_loop:
  assumes "class_flag (of_char ch) = Some m" "fl AND m = 0 \<or> fl AND m = m"
  shows "keyspaceEventsStringToFlags_loop (class_char fl m ch) acc = Some (acc OR (fl AND m))"
  using assms by (auto simp: class_char_def has_flag_def)

lemma class_chars:
  "keyspaceEventsStringToFlags_loop (class_char fl NOTIFY_GENERIC CHR ''g'') acc = Some (acc OR (fl AND NOTIFY_GENERIC))"
  "keyspaceEventsStringToFlags_loop (class_char fl NOTIFY_STRING CHR ''$'') acc = Some (acc OR (fl AND NOTIFY_STRING))"
  "keyspaceEventsStringToFlags_loop (class_char fl NOTIFY_LIST CHR ''l'') acc = Some (acc OR (fl AND NOTIFY_LIST))"
  "keyspaceEventsStringToFlags_loop (class_char fl NOTIFY_SET CHR ''s'') acc = Some (acc OR (fl AND NOTIFY_SET))"
  "keyspaceEventsStringToFlags_loop (class_char fl NOTIFY_HASH CHR ''h'') acc = Some (acc OR (fl AND NOTIFY_HASH))"
  "keyspaceEventsStringToFlags_loop (class_char fl NOTIFY_ZSET CHR ''z'') acc = Some (acc OR (fl AND NOTIFY_ZSET))"
  "keyspaceEventsStringToFlags_loop (class_char fl NOTIFY_EXPIRED CHR ''x'') acc = Some (acc OR (fl AND NOTIFY_EXPIRED))"
  "keyspaceEventsStringToFlags_loop (class_char fl NOTIFY_EVICTED CHR ''e'') acc = Some (acc OR (fl AND NOTIFY_EVICTED))"
  "keyspaceEventsStringToFlags_loop (class_char fl NOTIFY_STREAM CHR ''t'') acc = Some (acc OR (fl AND NOTIFY_STREAM))"
  "keyspaceEventsStringToFlags_loop (class_char fl NOTIFY_KEYSPACE CHR ''K'') acc = Some (acc OR (fl AND NOTIFY_KEYSPACE))"
  "keyspaceEventsStringToFlags_loop (class_char fl NOTIFY_KEYEVENT CHR ''E'') acc = Some (acc OR (fl AND NOTIFY_KEYEVENT))"
  "keyspaceEventsStringToFlags_loop (class_char fl NOTIFY_KEY_MISS CHR ''m'') acc = Some (acc OR (fl AND NOTIFY_KEY_MISS))"
  by (rule class_char_loop; (rule class_flag_simps | simp only: notify_flags and_bit))+

definition NOTIFY_MASK :: u64 where
  "NOTIFY_MASK = NOTIFY_ALL OR NOTIFY_KEYSPACE OR NOTIFY_KEYEVENT OR NOTIFY_KEY_MISS"

text \<open>
  C21: reading back the text that the configuration shows for a set of notification classes gives
  the same classes, without the bits that stand for no class.
\<close>

theorem notify_flags_roundtrip:
  "keyspaceEventsStringToFlags (keyspaceEventsFlagsToString fl) = Some (fl AND NOTIFY_MASK)"
proof (cases "fl AND NOTIFY_ALL = NOTIFY_ALL")
  case True
  have "keyspaceEventsStringToFlags (keyspaceEventsFlagsToString fl) =
      Some (((NOTIFY_ALL OR (fl AND NOTIFY_KEYSPACE)) OR (fl AND NOTIFY_KEYEVENT)) OR (fl AND NOTIFY_KEY_MISS))"
    using True class_flag_simps(1) by (simp add: keyspaceEventsStringToFlags_def keyspaceEventsFlagsToString_def StringToFlags_append class_chars)
  then show ?thesis
    by (simp add: NOTIFY_MASK_def bit.conj_disj_distrib True or.assoc)
next
  case False
  then show ?thesis
    by (simp add: keyspaceEventsStringToFlags_def keyspaceEventsFlagsToString_def StringToFlags_append class_chars
        NOTIFY_MASK_def NOTIFY_ALL_def bit.conj_disj_distrib or.assoc)
qed

end
