(* ===== verification/Rio.thy ===== *)
theory Rio
  imports Crc "HOL-Library.Monad_Syntax"
begin

unbundle bit_operations_syntax

text \<open>
  Streams with a checksum (\<open>rio.h\<close>, \<open>rio.c\<close>), with a buffer in memory as their target.  The host is
  little endian.  Reading past the end is \<^term>\<open>None\<close>.
\<close>

subsection \<open>The model\<close>

text \<open>The address of the block passed to the checksum is arbitrary.\<close>

record rio =
  r_buf :: bytes
  r_pos :: nat
  r_cksum :: u64
  r_update_cksum :: bool
  r_chunk :: nat
  r_addr :: u64

definition rioInitWithBuffer :: "u64 \<Rightarrow> bytes \<Rightarrow> rio" where
  "rioInitWithBuffer a s = \<lparr>r_buf = s, r_pos = 0, r_cksum = 0, r_update_cksum = False, r_chunk = 0, r_addr = a\<rparr>"

definition rioGenericUpdateChecksum :: "bytes \<Rightarrow> rio \<Rightarrow> rio" where
  "rioGenericUpdateChecksum b r = r\<lparr>r_cksum := crc64 True (r_addr r) (r_cksum r) b\<rparr>"

definition rioBufferWrite :: "bytes \<Rightarrow> rio \<Rightarrow> rio" where
  "rioBufferWrite b r = r\<lparr>r_buf := r_buf r @ b, r_pos := r_pos r + length b\<rparr>"

definition rioBufferRead :: "nat \<Rightarrow> rio \<Rightarrow> (bytes \<times> rio) option" where
  "rioBufferRead n r =
     (if length (r_buf r) - r_pos r < n then None
      else Some (take n (drop (r_pos r) (r_buf r)), r\<lparr>r_pos := r_pos r + n\<rparr>))"

definition chunk_len :: "rio \<Rightarrow> nat \<Rightarrow> nat" where
  "chunk_len r len = (if r_chunk r \<noteq> 0 \<and> r_chunk r < len then r_chunk r else len)"

definition update_cksum :: "bytes \<Rightarrow> rio \<Rightarrow> rio" where
  "update_cksum b r = (if r_update_cksum r then rioGenericUpdateChecksum b r else r)"

function rioWrite :: "bytes \<Rightarrow> rio \<Rightarrow> rio" where
  "rioWrite b r =
     (if b = [] then r
      else let n = chunk_len r (length b)
        in rioWrite (drop n b) (rioBufferWrite (take n b) (update_cksum (take n b) r)))"
  by auto

termination
  by (relation "measure (\<lambda>(b, r). length b)") (auto simp: chunk_len_def)

text \<open>The bytes read so far are an argument.\<close>

function rioRead_loop :: "nat \<Rightarrow> bytes \<Rightarrow> rio \<Rightarrow> (bytes \<times> rio) option" where
  "rioRead_loop len acc r =
     (if len = 0 then Some (acc, r)
      else let n = chunk_len r len
        in do {
          (b, r1) \<leftarrow> rioBufferRead n r;
          rioRead_loop (len - n) (acc @ b) (update_cksum b r1)
        })"
  by auto

termination
  by (relation "measure (\<lambda>(len, acc, r). len)") (auto simp: chunk_len_def)

declare rioWrite.simps [simp del] rioRead_loop.simps [simp del]

definition rioRead :: "nat \<Rightarrow> rio \<Rightarrow> (bytes \<times> rio) option" where
  "rioRead len r = rioRead_loop len [] r"

subsection \<open>Writing and reading in one piece\<close>

text \<open>
  The chunks do not show: a write appends the block and a read takes it from the position on, and
  the checksum is that of all bytes so far.
\<close>

definition add_cksum :: "bytes \<Rightarrow> rio \<Rightarrow> rio" where
  "add_cksum b r = r\<lparr>r_cksum := if r_update_cksum r then foldl byte_update (r_cksum r) b else r_cksum r\<rparr>"

definition wrote :: "bytes \<Rightarrow> rio \<Rightarrow> rio" where
  "wrote b r = (add_cksum b r)\<lparr>r_buf := r_buf r @ b, r_pos := r_pos r + length b\<rparr>"

definition skip :: "bytes \<Rightarrow> rio \<Rightarrow> rio" where
  "skip b r = (add_cksum b r)\<lparr>r_pos := r_pos r + length b\<rparr>"

lemma update_cksum_eq: "update_cksum b r = add_cksum b r"
  by (simp add: update_cksum_def rioGenericUpdateChecksum_def add_cksum_def crc64_eq)

lemma wrote_wrote [simp]: "wrote b (wrote a r) = wrote (a @ b) r" "wrote [] r = r"
  by (simp_all add: wrote_def add_cksum_def)

lemma skip_skip [simp]: "skip b (skip a r) = skip (a @ b) r" "skip [] r = r"
  by (simp_all add: skip_def add_cksum_def)

lemma rioWrite_eq: "rioWrite b r = wrote b r"
proof (induction b r rule: rioWrite.induct)
  case (1 b r)
  show ?case
  proof (cases "b = []")
    case True
    then show ?thesis by (simp add: rioWrite.simps)
  next
    case False
    let ?n = "chunk_len r (length b)"
    have "rioBufferWrite (take ?n b) (update_cksum (take ?n b) r) = wrote (take ?n b) r"
      by (simp add: rioBufferWrite_def update_cksum_eq wrote_def add_cksum_def)
    then show ?thesis using 1 [OF False] False by (subst rioWrite.simps) (simp add: Let_def)
  qed
qed

text \<open>The bytes still to be read.\<close>

definition rest :: "rio \<Rightarrow> bytes" where
  "rest r = drop (r_pos r) (r_buf r)"

lemma rest_skip [simp]: "rest (skip b r) = drop (length b) (rest r)"
  by (simp add: rest_def skip_def add_cksum_def add.commute)

lemma rioRead_loop_eq:
  "rioRead_loop len acc r = (if length (rest r) < len then None else Some (acc @ take len (rest r), skip (take len (rest r)) r))"
proof (induction len acc r rule: rioRead_loop.induct)
  case (1 len acc r)
  show ?case
  proof (cases "len = 0")
    case True
    then show ?thesis by (simp add: rioRead_loop.simps)
  next
    case False
    let ?n = "chunk_len r len" and ?b = "take (chunk_len r len) (rest r)"
    have n: "?n \<le> len" by (simp add: chunk_len_def)
    show ?thesis
    proof (cases "length (rest r) < ?n")
      case True
      then show ?thesis using False n by (subst rioRead_loop.simps) (simp add: Let_def rioBufferRead_def rest_def)
    next
      case room: False
      let ?r = "skip ?b r"
      have b: "rioBufferRead ?n r = Some (?b, r\<lparr>r_pos := r_pos r + ?n\<rparr>)" using room by (simp add: rioBufferRead_def rest_def)
      moreover have r: "update_cksum ?b (r\<lparr>r_pos := r_pos r + ?n\<rparr>) = ?r" using room by (simp add: update_cksum_eq skip_def add_cksum_def)
      ultimately have "rioRead_loop len acc r = rioRead_loop (len - ?n) (acc @ ?b) ?r"
        using False by (subst rioRead_loop.simps) (simp add: Let_def)
      also have "\<dots> = (if length (rest ?r) < len - ?n then None
          else Some ((acc @ ?b) @ take (len - ?n) (rest ?r), skip (take (len - ?n) (rest ?r)) ?r))"
        using 1 [OF False refl b refl] r by simp
      also have "take ?n (rest r) @ take (len - ?n) (drop ?n (rest r)) = take len (rest r)"
        using n by (simp flip: take_add)
      ultimately show ?thesis using room n by (auto simp: not_less)
    qed
  qed
qed

lemma rioRead_eq: "rioRead len r = (if length (rest r) < len then None else Some (take len (rest r), skip (take len (rest r)) r))"
  by (simp add: rioRead_def rioRead_loop_eq)

end
