(* ===== verification/Rdb.thy ===== *)
theory Rdb
  imports Rio Lzf Key_Commands
begin

unbundle bit_operations_syntax

text \<open>
  Dump files (\<open>rdb.c\<close>): lengths, integers and strings, plain or compressed, and the saving and
  loading of whole databases.  The target of the stream is a buffer, the host is little endian,
  and values are strings; the other types, modules and the replication information are left out.

  A load function fails with the reason: a read error (the data ends too early), a file that is not
  a dump of a known version, a corrupt file (the server exits), a key that occurs twice, data of another
  configuration (the server exits), memory outside of a block is touched, or a value of a type that is not
  modelled.
\<close>

subsection \<open>Parameters and results\<close>

datatype rdb_error = ReadError | WrongFormat | CorruptRDB | DuplicateKey | RdbExit | MemoryError | OtherType

type_synonym 'a loaded = "rdb_error + 'a \<times> rio"

definition rbind :: "rdb_error + 'a \<Rightarrow> ('a \<Rightarrow> rdb_error + 'b) \<Rightarrow> rdb_error + 'b" where
  "rbind m f = (case m of Inl e \<Rightarrow> Inl e | Inr x \<Rightarrow> f x)"

text \<open>
  What the functions take from the configuration and from elsewhere: compression and checksums, the
  statistics kept for eviction, the time and the memory in use, the contents of fresh
  memory and of the uninitialised table of the compressor, and whether the interpreter accepts a script.
\<close>

record rdb_env =
  rdb_compression :: bool
  rdb_checksum :: bool
  save_lru :: bool
  save_lfu :: bool
  idle_time :: "bytes \<Rightarrow> nat"
  lfu_counter :: "bytes \<Rightarrow> byte"
  lzf_table :: "nat \<Rightarrow> u32"
  fresh_mem :: "nat \<Rightarrow> byte"
  unix_time :: int
  used_memory :: int
  aof_preamble :: bool
  allow_dup :: bool
  events_interval :: nat
  lua_accepts :: "bytes \<Rightarrow> bool"

definition RDB_LENERR :: nat where "RDB_LENERR = 2 ^ 64 - 1"

definition RDB_OPCODE_MODULE_AUX :: byte where "RDB_OPCODE_MODULE_AUX = 247"
definition RDB_OPCODE_IDLE :: byte where "RDB_OPCODE_IDLE = 248"
definition RDB_OPCODE_FREQ :: byte where "RDB_OPCODE_FREQ = 249"
definition RDB_OPCODE_AUX :: byte where "RDB_OPCODE_AUX = 250"
definition RDB_OPCODE_RESIZEDB :: byte where "RDB_OPCODE_RESIZEDB = 251"
definition RDB_OPCODE_EXPIRETIME_MS :: byte where "RDB_OPCODE_EXPIRETIME_MS = 252"
definition RDB_OPCODE_EXPIRETIME :: byte where "RDB_OPCODE_EXPIRETIME = 253"
definition RDB_OPCODE_SELECTDB :: byte where "RDB_OPCODE_SELECTDB = 254"
definition RDB_OPCODE_EOF :: byte where "RDB_OPCODE_EOF = 255"

lemmas rdb_opcodes = RDB_OPCODE_MODULE_AUX_def RDB_OPCODE_IDLE_def RDB_OPCODE_FREQ_def RDB_OPCODE_AUX_def RDB_OPCODE_RESIZEDB_def
  RDB_OPCODE_EXPIRETIME_MS_def RDB_OPCODE_EXPIRETIME_def RDB_OPCODE_SELECTDB_def RDB_OPCODE_EOF_def

subsection \<open>Bytes, times and lengths\<close>

text \<open>A write to the buffer does not fail.\<close>

definition rdbWriteRaw :: "bytes \<Rightarrow> rio \<Rightarrow> rio" where
  "rdbWriteRaw b rdb = rioWrite b rdb"

definition rdb_read :: "nat \<Rightarrow> rio \<Rightarrow> bytes loaded" where
  "rdb_read n rdb = (case rioRead n rdb of None \<Rightarrow> Inl ReadError | Some x \<Rightarrow> Inr x)"

definition rdbSaveType :: "byte \<Rightarrow> rio \<Rightarrow> rio" where
  "rdbSaveType t = rdbWriteRaw [t]"

definition rdbLoadType :: "rio \<Rightarrow> byte loaded" where
  "rdbLoadType rdb = rbind (rdb_read 1 rdb) (\<lambda>(b, r). Inr (hd b, r))"

definition rdbLoadTime :: "rio \<Rightarrow> int loaded" where
  "rdbLoadTime rdb = rbind (rdb_read 4 rdb) (\<lambda>(b, r). Inr (le_sint b, r))"

definition rdbSaveMillisecondTime :: "int \<Rightarrow> rio \<Rightarrow> rio" where
  "rdbSaveMillisecondTime t = rdbWriteRaw (le_bytes 8 t)"

text \<open>The byte order is the same for all versions on a little endian host.\<close>

definition rdbLoadMillisecondTime :: "rio \<Rightarrow> int loaded" where
  "rdbLoadMillisecondTime rdb = rbind (rdb_read 8 rdb) (\<lambda>(b, r). Inr (le_sint b, r))"

text \<open>Numbers in network byte order are the reversed little endian bytes.\<close>

definition rdbSaveLen :: "nat \<Rightarrow> rio \<Rightarrow> rio" where
  "rdbSaveLen len rdb =
     (if len < 2 ^ 6 then rdbWriteRaw [word_of_nat len] rdb
      else if len < 2 ^ 14 then rdbWriteRaw [word_of_nat (len div 256) OR 0x40, word_of_nat len] rdb
      else if len \<le> 2 ^ 32 - 1 then rdbWriteRaw (rev (le_bytes 4 (int len))) (rdbWriteRaw [0x80] rdb)
      else rdbWriteRaw (rev (le_bytes 8 (int len))) (rdbWriteRaw [0x81] rdb))"

text \<open>The result is whether a special encoding follows, and the length or the encoding.\<close>

definition rdbLoadLenByRef :: "rio \<Rightarrow> (bool \<times> nat) loaded" where
  "rdbLoadLenByRef rdb = rbind (rdb_read 1 rdb) (\<lambda>(b, r).
     let b0 = hd b; type = drop_bit 6 (b0 AND 0xC0)
     in if type = 3 then Inr ((True, unat (b0 AND 0x3F)), r)
        else if type = 0 then Inr ((False, unat (b0 AND 0x3F)), r)
        else if type = 1 then rbind (rdb_read 1 r) (\<lambda>(b', r'). Inr ((False, unat (b0 AND 0x3F) * 256 + unat (hd b')), r'))
        else if b0 = 0x80 then rbind (rdb_read 4 r) (\<lambda>(b', r'). Inr ((False, nat (le_uint (rev b'))), r'))
        else if b0 = 0x81 then rbind (rdb_read 8 r) (\<lambda>(b', r'). Inr ((False, nat (le_uint (rev b'))), r'))
        else Inl CorruptRDB)"

text \<open>The largest number stands for an error.\<close>

definition rdbLoadLen :: "rio \<Rightarrow> nat loaded" where
  "rdbLoadLen rdb = rbind (rdbLoadLenByRef rdb) (\<lambda>((enc, len), r). if len = RDB_LENERR then Inl ReadError else Inr (len, r))"

subsection \<open>Integers\<close>

definition rdbEncodeInteger :: "int \<Rightarrow> bytes option" where
  "rdbEncodeInteger v =
     (if v \<ge> - (2 ^ 7) \<and> v \<le> 2 ^ 7 - 1 then Some (0xC0 # le_bytes 1 v)
      else if v \<ge> - (2 ^ 15) \<and> v \<le> 2 ^ 15 - 1 then Some (0xC1 # le_bytes 2 v)
      else if v \<ge> - (2 ^ 31) \<and> v \<le> 2 ^ 31 - 1 then Some (0xC2 # le_bytes 4 v)
      else None)"

text \<open>The kinds of results of loading a string; a plain string is wrapped as a raw object.\<close>

datatype load_kind = LOAD_NONE | LOAD_ENC | LOAD_PLAIN | LOAD_SDS

definition ll_bytes :: "int \<Rightarrow> bytes option" where
  "ll_bytes v = do { (b, n) \<leftarrow> ll2string (replicate 21 0) 21 v; Some (take n b) }"

definition rdbLoadIntegerObject :: "nat \<Rightarrow> load_kind \<Rightarrow> rio \<Rightarrow> robj loaded" where
  "rdbLoadIntegerObject enctype kind rdb =
     rbind (if enctype = 0 then rdb_read 1 rdb else if enctype = 1 then rdb_read 2 rdb
            else if enctype = 2 then rdb_read 4 rdb else Inl CorruptRDB) (\<lambda>(b, r).
       let v = le_sint b
       in if kind = LOAD_ENC then Inr (createStringObjectFromLongLong v, r)
          else (case ll_bytes v of None \<Rightarrow> Inl MemoryError | Some s \<Rightarrow> Inr (StrRaw s, r)))"

text \<open>\<open>strtoll\<close> with base 10: the number and what follows it.\<close>

definition is_space :: "byte \<Rightarrow> bool" where
  "is_space c \<longleftrightarrow> c = 32 \<or> 9 \<le> c \<and> c \<le> 13"

definition strtoll :: "bytes \<Rightarrow> int \<times> bytes" where
  "strtoll s =
     (let s1 = dropWhile is_space s;
          neg = (s1 \<noteq> [] \<and> hd s1 = of_char CHR ''-'');
          s2 = (if s1 \<noteq> [] \<and> (neg \<or> hd s1 = of_char CHR ''+'') then tl s1 else s1);
          ds = takeWhile is_digit s2;
          v = int (dval ds 0)
      in if ds = [] then (0, s)
         else (max (- (2 ^ 63)) (min (2 ^ 63 - 1) (if neg then - v else v)), drop (length ds) s2))"

definition rdbTryIntegerEncoding :: "bytes \<Rightarrow> bytes option" where
  "rdbTryIntegerEncoding s =
     (let (v, end) = strtoll s
      in if end \<noteq> [] \<and> hd end \<noteq> 0 then None
         else do {
           (b, n) \<leftarrow> ll2string (replicate 32 0) 32 v;
           if cstr b \<noteq> s then None else rdbEncodeInteger v
         })"

subsection \<open>Strings\<close>

definition rdbSaveLzfBlob :: "bytes \<Rightarrow> nat \<Rightarrow> rio \<Rightarrow> rio" where
  "rdbSaveLzfBlob data original_len rdb =
     rdbWriteRaw data (rdbSaveLen original_len (rdbSaveLen (length data) (rdbWriteRaw [0xC3] rdb)))"

text \<open>The inner \<^term>\<open>None\<close> is a string that does not compress, the outer one an access out of bounds.\<close>

definition rdbSaveLzfStringObject :: "rdb_env \<Rightarrow> bytes \<Rightarrow> rio \<Rightarrow> rio option option" where
  "rdbSaveLzfStringObject env s rdb =
     (if length s \<le> 4 then Some None
      else let outlen = length s - 4
        in case lzf_compress (lzf_table env) s (map (fresh_mem env) [0..<outlen + 1]) outlen of
             None \<Rightarrow> None
           | Some None \<Rightarrow> Some None
           | Some (Some (n, b)) \<Rightarrow> Some (Some (rdbSaveLzfBlob (take n b) (length s) rdb)))"

definition rdbLoadLzfStringObject :: "rdb_env \<Rightarrow> rio \<Rightarrow> robj loaded" where
  "rdbLoadLzfStringObject env rdb =
     rbind (rdbLoadLen rdb) (\<lambda>(clen, r1). rbind (rdbLoadLen r1) (\<lambda>(len, r2). rbind (rdb_read clen r2) (\<lambda>(c, r3).
       case lzf_decompress c (map (fresh_mem env) [0..<len]) len of
         None \<Rightarrow> Inl MemoryError
       | Some (Inl e) \<Rightarrow> Inl CorruptRDB
       | Some (Inr (n, b)) \<Rightarrow> if n = 0 then Inl CorruptRDB else Inr (StrRaw b, r3))))"

definition rdbSaveRawString :: "rdb_env \<Rightarrow> bytes \<Rightarrow> rio \<Rightarrow> rio option" where
  "rdbSaveRawString env s rdb =
     (case (if length s \<le> 11 then rdbTryIntegerEncoding s else None) of
        Some b \<Rightarrow> Some (rdbWriteRaw b rdb)
      | None \<Rightarrow> do {
          r \<leftarrow> (if rdb_compression env \<and> length s > 20 then rdbSaveLzfStringObject env s rdb else Some None);
          case r of
            Some rdb1 \<Rightarrow> Some rdb1
          | None \<Rightarrow> Some (rdbWriteRaw s (rdbSaveLen (length s) rdb))
        })"

definition rdbSaveLongLongAsStringObject :: "int \<Rightarrow> rio \<Rightarrow> rio option" where
  "rdbSaveLongLongAsStringObject v rdb = (case rdbEncodeInteger v of
      Some b \<Rightarrow> Some (rdbWriteRaw b rdb)
    | None \<Rightarrow> do {
        (b, n) \<leftarrow> ll2string (replicate 32 0) 32 v;
        serverAssert (n < 32);
        Some (rdbWriteRaw (take n b) (rdbSaveLen n rdb))
      })"

fun rdbSaveStringObject :: "rdb_env \<Rightarrow> robj \<Rightarrow> rio \<Rightarrow> rio option" where
  "rdbSaveStringObject env (StrInt v) rdb = rdbSaveLongLongAsStringObject v rdb"
| "rdbSaveStringObject env (StrEmb s) rdb = rdbSaveRawString env s rdb"
| "rdbSaveStringObject env (StrRaw s) rdb = rdbSaveRawString env s rdb"
| "rdbSaveStringObject env obj rdb = None"

definition rdbGenericLoadStringObject :: "rdb_env \<Rightarrow> load_kind \<Rightarrow> rio \<Rightarrow> robj loaded" where
  "rdbGenericLoadStringObject env kind rdb = rbind (rdbLoadLenByRef rdb) (\<lambda>((isencoded, len), r).
     if isencoded then
       (if len \<le> 2 then rdbLoadIntegerObject len kind r
        else if len = 3 then rdbLoadLzfStringObject env r
        else Inl CorruptRDB)
     else if len = RDB_LENERR then Inl ReadError
     else rbind (if len = 0 then Inr ([], r) else rdb_read len r) (\<lambda>(b, r').
       Inr (if kind = LOAD_ENC then createStringObject b else StrRaw b, r')))"

definition rdbLoadStringObject :: "rdb_env \<Rightarrow> rio \<Rightarrow> robj loaded" where
  "rdbLoadStringObject env = rdbGenericLoadStringObject env LOAD_NONE"

definition rdbLoadEncodedStringObject :: "rdb_env \<Rightarrow> rio \<Rightarrow> robj loaded" where
  "rdbLoadEncodedStringObject env = rdbGenericLoadStringObject env LOAD_ENC"

subsection \<open>Saving a database\<close>

definition rdbSaveAuxField :: "rdb_env \<Rightarrow> bytes \<Rightarrow> bytes \<Rightarrow> rio \<Rightarrow> rio option" where
  "rdbSaveAuxField env key val rdb = do {
     r1 \<leftarrow> rdbSaveRawString env key (rdbSaveType RDB_OPCODE_AUX rdb);
     rdbSaveRawString env val r1
   }"

definition rdbSaveAuxFieldStrStr :: "rdb_env \<Rightarrow> string \<Rightarrow> string \<Rightarrow> rio \<Rightarrow> rio option" where
  "rdbSaveAuxFieldStrStr env key val = rdbSaveAuxField env (bstr key) (bstr val)"

definition rdbSaveAuxFieldStrInt :: "rdb_env \<Rightarrow> string \<Rightarrow> int \<Rightarrow> rio \<Rightarrow> rio option" where
  "rdbSaveAuxFieldStrInt env key v rdb = do { b \<leftarrow> ll_bytes v; rdbSaveAuxField env (bstr key) b rdb }"

definition rdbSaveInfoAuxFields :: "rdb_env \<Rightarrow> rio \<Rightarrow> rio option" where
  "rdbSaveInfoAuxFields env rdb = do {
     r1 \<leftarrow> rdbSaveAuxFieldStrStr env ''redis-ver'' ''6.0.1'' rdb;
     r2 \<leftarrow> rdbSaveAuxFieldStrInt env ''redis-bits'' 64 r1;
     r3 \<leftarrow> rdbSaveAuxFieldStrInt env ''ctime'' (unix_time env) r2;
     r4 \<leftarrow> rdbSaveAuxFieldStrInt env ''used-mem'' (used_memory env) r3;
     rdbSaveAuxFieldStrInt env ''aof-preamble'' (if aof_preamble env then 1 else 0) r4
   }"

text \<open>The type and the value, of a string.\<close>

definition rdbSaveObjectType :: "robj \<Rightarrow> rio \<Rightarrow> rio option" where
  "rdbSaveObjectType v rdb = (if otype_of v = OBJ_STRING then Some (rdbSaveType 0 rdb) else None)"

definition rdbSaveObject :: "rdb_env \<Rightarrow> robj \<Rightarrow> rio \<Rightarrow> rio option" where
  "rdbSaveObject env v rdb = (if otype_of v = OBJ_STRING then rdbSaveStringObject env v rdb else None)"

definition rdbSaveKeyValuePair :: "rdb_env \<Rightarrow> bytes \<Rightarrow> robj \<Rightarrow> int \<Rightarrow> rio \<Rightarrow> rio option" where
  "rdbSaveKeyValuePair env key val expiretime rdb = do {
     let r1 = (if expiretime \<noteq> -1 then rdbSaveMillisecondTime expiretime (rdbSaveType RDB_OPCODE_EXPIRETIME_MS rdb) else rdb);
     let r2 = (if save_lru env then rdbSaveLen (idle_time env key div 1000) (rdbSaveType RDB_OPCODE_IDLE r1) else r1);
     let r3 = (if save_lfu env then rdbWriteRaw [lfu_counter env key] (rdbSaveType RDB_OPCODE_FREQ r2) else r2);
     r4 \<leftarrow> rdbSaveObjectType val r3;
     r5 \<leftarrow> rdbSaveRawString env key r4;
     rdbSaveObject env val r5
   }"

fun save_entries :: "rdb_env \<Rightarrow> nat \<Rightarrow> server \<Rightarrow> (bytes \<times> robj) list \<Rightarrow> rio \<Rightarrow> rio option" where
  "save_entries env i s [] rdb = Some rdb"
| "save_entries env i s ((k, v) # es) rdb = do {
     t \<leftarrow> getExpire i k s;
     r1 \<leftarrow> rdbSaveKeyValuePair env k v t rdb;
     save_entries env i s es r1
   }"

text \<open>The number of expire times is counted over the keys; only existing keys have one.\<close>

definition save_db :: "rdb_env \<Rightarrow> nat \<Rightarrow> server \<Rightarrow> rio \<Rightarrow> rio option" where
  "save_db env i s rdb =
     (let d = kv (db s i)
      in if d = [] then Some rdb
         else let r1 = rdbSaveLen i (rdbSaveType RDB_OPCODE_SELECTDB rdb);
                  r2 = rdbSaveLen (length d) (rdbSaveType RDB_OPCODE_RESIZEDB r1);
                  r3 = rdbSaveLen (length (filter (\<lambda>(k, v). expires (db s i) k \<noteq> None) d)) r2
           in save_entries env i s d r3)"

fun save_dbs :: "rdb_env \<Rightarrow> nat list \<Rightarrow> server \<Rightarrow> rio \<Rightarrow> rio option" where
  "save_dbs env [] s rdb = Some rdb"
| "save_dbs env (i # is) s rdb = do { r1 \<leftarrow> save_db env i s rdb; save_dbs env is s r1 }"

text \<open>The checksum is written in little endian order; without checksums it is zero.\<close>

definition rdbSaveRio :: "rdb_env \<Rightarrow> server \<Rightarrow> rio \<Rightarrow> rio option" where
  "rdbSaveRio env s rdb = do {
     let r0 = (if rdb_checksum env then rdb\<lparr>r_update_cksum := True\<rparr> else rdb);
     r1 \<leftarrow> rdbSaveInfoAuxFields env (rdbWriteRaw (bstr ''REDIS0009'') r0);
     r2 \<leftarrow> save_dbs env [0..<dbnum s] s r1;
     let r3 = rdbSaveType RDB_OPCODE_EOF r2;
     Some (rioWrite (le_bytes 8 (uint (r_cksum r3))) r3)
   }"

subsection \<open>Loading a database\<close>

definition rdbLoadObject :: "rdb_env \<Rightarrow> byte \<Rightarrow> rio \<Rightarrow> robj loaded" where
  "rdbLoadObject env type rdb =
     (if type = 0 then rbind (rdbLoadEncodedStringObject env rdb) (\<lambda>(v, r).
        case tryObjectEncoding v of None \<Rightarrow> Inl MemoryError | Some w \<Rightarrow> Inr (w, r))
      else if type \<le> 7 \<or> 9 \<le> type \<and> type \<le> 15 then Inl OtherType
      else Inl ReadError)"

definition dbAddRDBLoad :: "nat \<Rightarrow> bytes \<Rightarrow> robj \<Rightarrow> server \<Rightarrow> server option" where
  "dbAddRDBLoad i key val s =
     (if map_of (kv (db s i)) key \<noteq> None then None
      else Some (upd_db i (\<lambda>d. d\<lparr>kv := AList.update key val (kv d)\<rparr>) s))"

text \<open>Setting an expire time without a client.\<close>

definition setExpire_load :: "nat \<Rightarrow> bytes \<Rightarrow> int \<Rightarrow> server \<Rightarrow> server option" where
  "setExpire_load i key when s = do {
     serverAssert (map_of (kv (db s i)) key \<noteq> None);
     Some (upd_db i (\<lambda>d. d\<lparr>expires := (expires d)(key \<mapsto> when)\<rparr>) s)
   }"

text \<open>The state of the loading loop: the stream, the databases, the selected database and the expire time of the next key.\<close>

record load_state =
  ls_rio :: rio
  ls_srv :: server
  ls_db :: nat
  ls_expire :: int

text \<open>
  A field of the header; only a script has an effect.  The pointer to the replication information is
  null.
\<close>

definition load_aux :: "rdb_env \<Rightarrow> load_state \<Rightarrow> rdb_error + load_state" where
  "load_aux env st = rbind (rdbLoadStringObject env (ls_rio st)) (\<lambda>(k, r1). rbind (rdbLoadStringObject env r1) (\<lambda>(v, r2).
     case (k, v) of
       (StrRaw key, StrRaw val) \<Rightarrow>
         if key \<noteq> [] \<and> hd key = of_char CHR ''%'' then Inr (st\<lparr>ls_rio := r2\<rparr>)
         else if strcaseeq key ''lua'' \<and> \<not> lua_accepts env val then Inl CorruptRDB
         else Inr (st\<lparr>ls_rio := r2\<rparr>)
     | _ \<Rightarrow> Inl MemoryError))"

definition load_opcode :: "rdb_env \<Rightarrow> byte \<Rightarrow> load_state \<Rightarrow> (rdb_error + load_state) option" where
  "load_opcode env type st =
     (let r = ls_rio st
      in if type = RDB_OPCODE_EXPIRETIME then
           Some (rbind (rdbLoadTime r) (\<lambda>(t, r1). Inr (st\<lparr>ls_rio := r1, ls_expire := t * 1000\<rparr>)))
         else if type = RDB_OPCODE_EXPIRETIME_MS then
           Some (rbind (rdbLoadMillisecondTime r) (\<lambda>(t, r1). Inr (st\<lparr>ls_rio := r1, ls_expire := t\<rparr>)))
         else if type = RDB_OPCODE_FREQ then Some (rbind (rdb_read 1 r) (\<lambda>(b, r1). Inr (st\<lparr>ls_rio := r1\<rparr>)))
         else if type = RDB_OPCODE_IDLE then Some (rbind (rdbLoadLen r) (\<lambda>(n, r1). Inr (st\<lparr>ls_rio := r1\<rparr>)))
         else if type = RDB_OPCODE_SELECTDB then
           Some (rbind (rdbLoadLen r) (\<lambda>(n, r1). if n \<ge> dbnum (ls_srv st) then Inl RdbExit else Inr (st\<lparr>ls_rio := r1, ls_db := n\<rparr>)))
         else if type = RDB_OPCODE_RESIZEDB then
           Some (rbind (rdbLoadLen r) (\<lambda>(n, r1). rbind (rdbLoadLen r1) (\<lambda>(m, r2). Inr (st\<lparr>ls_rio := r2\<rparr>))))
         else if type = RDB_OPCODE_AUX then Some (load_aux env st)
         else if type = RDB_OPCODE_MODULE_AUX then
           Some (rbind (rdbLoadLenByRef r) (\<lambda>(n, r1). rbind (rdbLoadLenByRef r1) (\<lambda>(m, r2).
             rbind (rdbLoadLenByRef r2) (\<lambda>(w, r3). Inl RdbExit))))
         else None)"

text \<open>Adding a loaded key, unless it is expired already and we are a master.\<close>

definition add_loaded :: "rdb_env \<Rightarrow> nat \<Rightarrow> bytes \<Rightarrow> robj \<Rightarrow> int \<Rightarrow> server \<Rightarrow> rdb_error + server" where
  "add_loaded env i key val t s =
     (if \<not> masterhost s \<and> \<not> aof_preamble env \<and> t \<noteq> -1 \<and> t < clock s then Inr s
      else rbind (case dbAddRDBLoad i key val s of
                    Some s1 \<Rightarrow> Inr s1
                  | None \<Rightarrow>
                      if allow_dup env
                      then (case dbAddRDBLoad i key val (fst (dbSyncDelete i key s)) of None \<Rightarrow> Inl MemoryError | Some s1 \<Rightarrow> Inr s1)
                      else Inl DuplicateKey) (\<lambda>s1.
             if t \<noteq> -1 then (case setExpire_load i key t s1 of None \<Rightarrow> Inl MemoryError | Some s2 \<Rightarrow> Inr s2) else Inr s1))"

definition load_pair :: "rdb_env \<Rightarrow> byte \<Rightarrow> load_state \<Rightarrow> rdb_error + load_state" where
  "load_pair env type st =
     rbind (rdbGenericLoadStringObject env LOAD_SDS (ls_rio st)) (\<lambda>(k, r1). rbind (rdbLoadObject env type r1) (\<lambda>(v, r2).
       case k of
         StrRaw key \<Rightarrow> rbind (add_loaded env (ls_db st) key v (ls_expire st) (ls_srv st)) (\<lambda>s1.
           Inr (st\<lparr>ls_rio := r2, ls_srv := s1, ls_expire := -1\<rparr>))
       | _ \<Rightarrow> Inl MemoryError))"

definition load_turn :: "rdb_env \<Rightarrow> byte \<Rightarrow> load_state \<Rightarrow> rdb_error + load_state" where
  "load_turn env type st = (case load_opcode env type st of Some x \<Rightarrow> x | None \<Rightarrow> load_pair env type st)"

text \<open>
  The loop ends with the opcode of the end of the file.  Every turn reads a byte at least, so that
  the number of bytes is enough fuel; running out of fuel is the outer \<^term>\<open>None\<close>.
\<close>

fun load_loop :: "nat \<Rightarrow> rdb_env \<Rightarrow> load_state \<Rightarrow> (rdb_error + load_state) option" where
  "load_loop 0 env st = None"
| "load_loop (Suc n) env st = (case rdbLoadType (ls_rio st) of
      Inl e \<Rightarrow> Some (Inl e)
    | Inr (type, r) \<Rightarrow>
        if type = RDB_OPCODE_EOF then Some (Inr (st\<lparr>ls_rio := r\<rparr>))
        else (case load_turn env type (st\<lparr>ls_rio := r\<rparr>) of
            Inl e \<Rightarrow> Some (Inl e)
          | Inr st1 \<Rightarrow> load_loop n env st1))"

text \<open>The header: the signature and the version in four digits, as \<open>atoi\<close> reads them.\<close>

definition rdb_version :: "bytes \<Rightarrow> int" where
  "rdb_version b = fst (strtoll (cstr (drop 5 b)))"

definition rdbLoadRio :: "rdb_env \<Rightarrow> rio \<Rightarrow> server \<Rightarrow> (rdb_error + server) option" where
  "rdbLoadRio env rdb s =
     (let r0 = rdb\<lparr>r_update_cksum := rdb_checksum env, r_chunk := events_interval env\<rparr>
      in case rdb_read 9 r0 of
           Inl e \<Rightarrow> Some (Inl e)
         | Inr (b, r1) \<Rightarrow>
             if take 5 b \<noteq> bstr ''REDIS'' then Some (Inl WrongFormat)
             else if rdb_version b < 1 \<or> rdb_version b > 9 then Some (Inl WrongFormat)
             else (case load_loop (length (r_buf rdb) + 1) env \<lparr>ls_rio = r1, ls_srv = s, ls_db = 0, ls_expire = -1\<rparr> of
                 None \<Rightarrow> None
               | Some (Inl e) \<Rightarrow> Some (Inl e)
               | Some (Inr st) \<Rightarrow>
                   if rdb_version b < 5 then Some (Inr (ls_srv st))
                   else (case rdb_read 8 (ls_rio st) of
                       Inl e \<Rightarrow> Some (Inl e)
                     | Inr (c, r2) \<Rightarrow>
                         let cksum = word_of_int (le_uint c)
                         in if rdb_checksum env \<and> cksum \<noteq> 0 \<and> cksum \<noteq> r_cksum (ls_rio st) then Some (Inl CorruptRDB)
                            else Some (Inr (ls_srv st)))))"

end
