(* ===== verification/Rdb_Roundtrip.thy ===== *)
theory Rdb_Roundtrip
  imports Rdb Key_Spec "HOL-Library.Sublist"
begin

unbundle bit_operations_syntax

text \<open>
  What is saved is loaded again (\<open>rdb.c\<close>), and a prefix of it is refused.
\<close>

subsection \<open>Load functions on their input\<close>

text \<open>
  A load function reads \<open>bs\<close> as \<open>v\<close>: it takes these bytes and no more, and on a proper prefix of them, as
  the remaining input, it reports a read error.
\<close>

definition reads :: "(rio \<Rightarrow> 'a loaded) \<Rightarrow> bytes \<Rightarrow> 'a \<Rightarrow> bool" where
  "reads f bs v \<longleftrightarrow>
     (\<forall>r xs. rest r = bs @ xs \<longrightarrow> f r = Inr (v, skip bs r)) \<and> (\<forall>r. strict_prefix (rest r) bs \<longrightarrow> f r = Inl ReadError)"

lemma rbind_simps [simp]: "rbind (Inl e) f = Inl e" "rbind (Inr x) f = f x"
  by (simp_all add: rbind_def)

lemma strict_prefix_append_cases:
  assumes "strict_prefix xs (bs @ cs)"
  obtains "strict_prefix xs bs" | ys where "xs = bs @ ys" "strict_prefix ys cs"
proof (cases "prefix xs bs \<and> xs \<noteq> bs")
  case True
  then show ?thesis using that(1) by (simp add: strict_prefix_def)
next
  case False
  then obtain ys where ys: "xs = bs @ ys" using assms by (force simp: strict_prefix_def prefix_append)
  then show ?thesis using that(2) assms by (simp add: strict_prefix_def)
qed

lemma reads_bind:
  assumes "reads f bs v" "reads (g v) cs w"
  shows "reads (\<lambda>r. rbind (f r) (case_prod g)) (bs @ cs) w"
proof -
  have "rbind (f r) (case_prod g) = Inl ReadError" if "strict_prefix (rest r) (bs @ cs)" for r
    using that by (rule strict_prefix_append_cases) (use assms in \<open>auto simp: reads_def\<close>)
  then show ?thesis using assms by (auto simp: reads_def)
qed

lemma reads_return: "reads (\<lambda>r. Inr (v, r)) [] v"
  by (simp add: reads_def)

lemma reads_map:
  assumes "reads f bs v" "g v = w"
  shows "reads (\<lambda>r. rbind (f r) (\<lambda>(x, r'). Inr (g x, r'))) bs w"
  using reads_bind [OF assms(1), of "\<lambda>x r'. Inr (g x, r')" "[]" w] assms(2) reads_return [of w] by simp

lemma reads_read: "length b = n \<Longrightarrow> reads (rdb_read n) b b"
  by (auto simp: reads_def rdb_read_def rioRead_eq dest!: prefix_length_less)

lemma reads_cong: "reads f bs v \<Longrightarrow> (\<And>r. g r = f r) \<Longrightarrow> reads g bs v"
  by (simp add: reads_def)

subsection \<open>Lengths\<close>

definition len_bytes :: "nat \<Rightarrow> bytes" where
  "len_bytes n =
     (if n < 2 ^ 6 then [word_of_nat n]
      else if n < 2 ^ 14 then [word_of_nat (n div 256) OR 0x40, word_of_nat n]
      else if n \<le> 2 ^ 32 - 1 then 0x80 # rev (le_bytes 4 (int n))
      else 0x81 # rev (le_bytes 8 (int n)))"

lemma rdbSaveLen_eq: "rdbSaveLen n r = wrote (len_bytes n) r"
  by (simp add: rdbSaveLen_def rdbWriteRaw_def rioWrite_eq len_bytes_def)

lemma len_bytes_nonempty [simp]: "len_bytes n \<noteq> []"
  by (simp add: len_bytes_def)

lemma masks: "(0x3F :: byte) = mask 6" "(0xC0 :: byte) = NOT (mask 6)"
  by (simp_all add: mask_eq_exp_minus_1)

lemma top_bits: "drop_bit 6 (w AND 0xC0 :: byte) = of_nat (unat w div 64)"
proof -
  have "drop_bit 6 (w AND 0xC0) = drop_bit 6 w" by (rule bit_word_eqI) (auto simp: masks bit_simps dest: bit_byte)
  moreover have "unat (drop_bit 6 w) = unat w div 64" by (simp add: drop_bit_eq_div unat_div)
  moreover have "unat (of_nat (unat w div 64) :: byte) = unat w div 64"
    using unsigned_less [of w, where 'a = nat] by (simp add: unat_of_nat take_bit_eq_mod)
  ultimately have "unat (drop_bit 6 (w AND 0xC0)) = unat (of_nat (unat w div 64) :: byte)" by simp
  then show ?thesis by (simp only: word_unat_eq_iff)
qed

lemma low_bits: "unat (w AND 0x3F :: byte) = unat w mod 64"
  by (simp add: masks take_bit_eq_mask [symmetric] take_bit_eq_mod unat_mod_distrib)

lemma or_64: 
  assumes "m < 64"
  shows "unat (word_of_nat m OR 0x40 :: byte) = m + 64"
proof -
  let ?w = "word_of_nat m :: byte"
  have u: "unat ?w = m" using assms by (simp add: unat_of_nat)
  have "\<not> bit ?w 6" using assms by (simp add: bit_of_nat_iff bit_iff_odd [where a = m])
  then have "?w AND push_bit 6 1 = 0" by (intro bit_word_eqI) (auto simp: bit_simps simp del: push_bit_of_1)
  then have "?w AND 0x40 = 0" by simp
  then have "?w OR 0x40 = ?w + 0x40" by (simp add: disjunctive_add_eq_or)
  then show ?thesis using assms by (simp add: unat_add_no_wrap u)
qed

lemma le_uint_back: "n < 256 ^ k \<Longrightarrow> nat (le_uint (rev (rev (le_bytes k (int n))))) = n"
  by (simp add: le_uint_le_bytes)

lemma unat_top: "unat (w :: byte) div 64 < 4"
  using unsigned_less [of w, where 'a = nat] by simp

lemma type_eq: "k < 4 \<Longrightarrow> (of_nat (unat (w :: byte) div 64) = (of_nat k :: byte)) = (unat w div 64 = k)"
  using unat_top [of w] by (simp add: word_unat_eq_iff unat_of_nat take_bit_eq_mod)

lemmas len_types = type_eq [of 0, simplified] type_eq [of 1, simplified] type_eq [of 3, simplified]

lemma reads_len_ref:
  assumes "n < 2 ^ 64"
  shows "reads rdbLoadLenByRef (len_bytes n) (False, n)"
proof -
  define g where "g = (\<lambda>(b :: bytes) (r :: rio). let b0 = hd b; type = drop_bit 6 (b0 AND 0xC0)
     in if type = 3 then Inr ((True, unat (b0 AND 0x3F)), r)
        else if type = 0 then Inr ((False, unat (b0 AND 0x3F)), r)
        else if type = 1 then rbind (rdb_read 1 r) (\<lambda>(b', r'). Inr ((False, unat (b0 AND 0x3F) * 256 + unat (hd b')), r'))
        else if b0 = 0x80 then rbind (rdb_read 4 r) (\<lambda>(b', r'). Inr ((False, nat (le_uint (rev b'))), r'))
        else if b0 = 0x81 then rbind (rdb_read 8 r) (\<lambda>(b', r'). Inr ((False, nat (le_uint (rev b'))), r'))
        else Inl CorruptRDB)"
  have g: "rdbLoadLenByRef = (\<lambda>r. rbind (rdb_read 1 r) (case_prod g))" unfolding g_def rdbLoadLenByRef_def [abs_def] by (rule refl)
  have step: "reads rdbLoadLenByRef (b # cs) (False, n)" if "reads (g [b]) cs (False, n)" for b cs
    using reads_bind [of "rdb_read 1" "[b]" "[b]" g cs] reads_read [of "[b]" 1] that by (simp add: g)
  consider "n < 2 ^ 6" | "2 ^ 6 \<le> n" "n < 2 ^ 14" | "2 ^ 14 \<le> n" "n \<le> 2 ^ 32 - 1" | "2 ^ 32 - 1 < n" by linarith
  then show ?thesis
  proof cases
    case 1
    then have "unat (word_of_nat n :: byte) = n" by (simp add: unat_of_nat)
    then have "g [word_of_nat n] = (\<lambda>r. Inr ((False, n), r))" using 1 unfolding g_def Let_def top_bits low_bits by (simp add: fun_eq_iff len_types)
    then show ?thesis using 1 step reads_return [of "(False, n)"] by (simp add: len_bytes_def)
  next
    case 2
    let ?b = "word_of_nat (n div 256) OR 0x40 :: byte"
    have b: "unat ?b = n div 256 + 64" using 2 by (intro or_64) simp
    have "(n div 256 + 64) div 64 = 1" "(n div 256 + 64) mod 64 = n div 256" using 2 by (simp_all add: less_mult_imp_div_less)
    then have "g [?b] = (\<lambda>r. rbind (rdb_read 1 r) (\<lambda>(b', r'). Inr ((False, n div 256 * 256 + unat (hd b')), r')))"
      unfolding g_def Let_def top_bits low_bits by (simp add: fun_eq_iff len_types b)
    moreover have "reads \<dots> [word_of_nat n] (False, n)" by (rule reads_map [OF reads_read]) (simp_all add: unat_of_nat take_bit_eq_mod)
    ultimately show ?thesis using 2 step by (simp add: len_bytes_def)
  next
    case 3
    have "g [0x80] = (\<lambda>r. rbind (rdb_read 4 r) (\<lambda>(b', r'). Inr ((False, nat (le_uint (rev b'))), r')))"
      unfolding g_def Let_def top_bits by (simp add: fun_eq_iff)
    moreover have "reads \<dots> (rev (le_bytes 4 (int n))) (False, n)" using 3 by (intro reads_map [OF reads_read]) (simp_all add: le_uint_le_bytes)
    ultimately show ?thesis using 3 step by (simp add: len_bytes_def)
  next
    case 4
    have "g [0x81] = (\<lambda>r. rbind (rdb_read 8 r) (\<lambda>(b', r'). Inr ((False, nat (le_uint (rev b'))), r')))"
      unfolding g_def Let_def top_bits by (simp add: fun_eq_iff)
    moreover have "reads \<dots> (rev (le_bytes 8 (int n))) (False, n)" using 4 assms by (intro reads_map [OF reads_read]) (simp_all add: le_uint_le_bytes)
    ultimately show ?thesis using 4 step by (simp add: len_bytes_def)
  qed
qed

lemma reads_len: 
  assumes "n < RDB_LENERR"
  shows "reads rdbLoadLen (len_bytes n) n"
proof -
  have n: "n < 2 ^ 64" "n \<noteq> RDB_LENERR" using assms by (simp_all add: RDB_LENERR_def)
  then show ?thesis using reads_len_ref [of n] by (simp add: reads_def rdbLoadLen_def)
qed

lemma reads_enc:
  assumes "e < 4"
  shows "reads rdbLoadLenByRef [0xC0 + of_nat e] (True, e)"
proof -
  have u: "unat (0xC0 + of_nat e :: byte) = 192 + e" using assms by (simp add: unat_add_no_wrap unat_of_nat)
  have "e = 0 \<or> e = 1 \<or> e = 2 \<or> e = 3" using assms by linarith
  then have d: "(192 + e) div 64 = 3" "(192 + e) mod 64 = e" by auto
  have "rdbLoadLenByRef r = Inr ((True, e), skip [0xC0 + of_nat e] r)" if "rest r = [0xC0 + of_nat e] @ xs" for r xs
  proof -
    have "rdb_read 1 r = Inr ([0xC0 + of_nat e], skip [0xC0 + of_nat e] r)"
      using reads_read [of "[0xC0 + of_nat e]" 1] that by (simp add: reads_def)
    then show ?thesis unfolding rdbLoadLenByRef_def by (simp only: rbind_simps prod.case Let_def list.sel top_bits low_bits u d) simp
  qed
  moreover have "rdbLoadLenByRef r = Inl ReadError" if "strict_prefix (rest r) [0xC0 + of_nat e]" for r
    using reads_read [of "[0xC0 + of_nat e]" 1] that by (simp add: reads_def rdbLoadLenByRef_def)
  ultimately show ?thesis unfolding reads_def by blast
qed

subsection \<open>Integers\<close>

definition string_is :: "robj \<Rightarrow> bytes \<Rightarrow> bool" where
  "string_is v s \<longleftrightarrow> otype_of v = OBJ_STRING \<and> obj_ok v \<and> sval v = s"

text \<open>The bytes of a string are understood by every load function for strings, in every configuration.\<close>

definition string_bytes :: "bytes \<Rightarrow> bytes \<Rightarrow> bool" where
  "string_bytes bs s \<longleftrightarrow> bs \<noteq> [] \<and> (\<forall>env. (\<exists>v. string_is v s \<and> reads (rdbGenericLoadStringObject env LOAD_ENC) bs v) \<and>
     (\<forall>kind. kind \<noteq> LOAD_ENC \<longrightarrow> reads (rdbGenericLoadStringObject env kind) bs (StrRaw s)))"

lemma string_bytesI:
  assumes "bs \<noteq> []" "string_is v s"
    and "\<And>env kind. reads (rdbGenericLoadStringObject env kind) bs (if kind = LOAD_ENC then v else StrRaw s)"
  shows "string_bytes bs s"
proof -
  have "reads (rdbGenericLoadStringObject env LOAD_ENC) bs v" for env using assms(3) [of env LOAD_ENC] by simp
  moreover have "reads (rdbGenericLoadStringObject env kind) bs (StrRaw s)" if "kind \<noteq> LOAD_ENC" for env kind
    using assms(3) [of env kind] that by simp
  ultimately show ?thesis using assms(1,2) unfolding string_bytes_def by blast
qed

lemma reads_string:
  assumes "reads rdbLoadLenByRef bs (e, n)"
    and "reads (\<lambda>r. if e then (if n \<le> 2 then rdbLoadIntegerObject n kind r else if n = 3 then rdbLoadLzfStringObject env r else Inl CorruptRDB)
      else if n = RDB_LENERR then Inl ReadError
      else rbind (if n = 0 then Inr ([], r) else rdb_read n r) (\<lambda>(b, r'). Inr (if kind = LOAD_ENC then createStringObject b else StrRaw b, r'))) cs v"
  shows "reads (rdbGenericLoadStringObject env kind) (bs @ cs) v"
  unfolding rdbGenericLoadStringObject_def [abs_def]
  by (rule reads_bind [OF assms(1)]) (use assms(2) in simp)

lemma ll2string_32: "int64 v \<Longrightarrow> ll2string (replicate 32 0) 32 v = Some (int_dec v @ 0 # drop (length (int_dec v) + 1) (replicate 32 0), length (int_dec v))"
  using ll2string_writes [of v 32 "replicate 32 0"] length_int_dec_le [of v] by simp

lemma ll_bytes_eq: "int64 v \<Longrightarrow> ll_bytes v = Some (int_dec v)"
  using ll2string_writes [of v 21 "replicate 21 0"] length_int_dec_le [of v] by (simp add: ll_bytes_def)

lemma encoded_integer:
  assumes "rdbEncodeInteger v = Some bs"
  obtains e n where "e < 3" "n = 2 ^ e" "bs = (0xC0 + of_nat e) # le_bytes n v" "- (2 ^ (8 * n - 1)) \<le> v" "v < 2 ^ (8 * n - 1)"
proof -
  consider "bs = 0xC0 # le_bytes 1 v" "- (2 ^ 7) \<le> v" "v \<le> 2 ^ 7 - 1" | "bs = 0xC1 # le_bytes 2 v" "- (2 ^ 15) \<le> v" "v \<le> 2 ^ 15 - 1"
    | "bs = 0xC2 # le_bytes 4 v" "- (2 ^ 31) \<le> v" "v \<le> 2 ^ 31 - 1"
    using assms by (auto simp: rdbEncodeInteger_def split: if_splits)
  then show ?thesis
  proof cases
    case 1
    then show ?thesis by (intro that [of 0 1]) simp_all
  next
    case 2
    then show ?thesis by (intro that [of 1 2]) simp_all
  next
    case 3
    then show ?thesis by (intro that [of 2 4]) simp_all
  qed
qed

lemma integer_bytes:
  assumes "rdbEncodeInteger v = Some bs"
  shows "string_bytes bs (int_dec v)"
proof -
  obtain e n where e: "e < 3" "n = 2 ^ e" "bs = (0xC0 + of_nat e) # le_bytes n v" and v: "- (2 ^ (8 * n - 1)) \<le> v" "v < 2 ^ (8 * n - 1)"
    using assms by (rule encoded_integer)
  have n: "0 < n" "n \<le> 4" using e(1,2) by (auto simp: numeral_eq_Suc less_Suc_eq)
  have s: "le_sint (le_bytes n v) = v" using le_sint_le_bytes v n by simp
  have "(2 :: int) ^ (8 * n - 1) \<le> 2 ^ 31" using n by (intro power_increasing) simp_all
  then have i: "int64 v" using v by (simp add: int64_def)
  have "reads (rdbLoadIntegerObject e kind) (le_bytes n v) (if kind = LOAD_ENC then StrInt v else StrRaw (int_dec v))" for kind
  proof -
    have "rdbLoadIntegerObject e kind = (\<lambda>r. rbind (rdb_read n r) (\<lambda>(b, r').
        let v = le_sint b in if kind = LOAD_ENC then Inr (createStringObjectFromLongLong v, r')
          else (case ll_bytes v of None \<Rightarrow> Inl MemoryError | Some s \<Rightarrow> Inr (StrRaw s, r'))))"
      using e by (auto simp: rdbLoadIntegerObject_def fun_eq_iff numeral_eq_Suc less_Suc_eq)
    moreover have "reads \<dots> (le_bytes n v @ []) (if kind = LOAD_ENC then StrInt v else StrRaw (int_dec v))"
      by (rule reads_bind [OF reads_read]) (use i s in \<open>auto simp: reads_def ll_bytes_eq createStringObjectFromLongLong_def int64_def\<close>)
    ultimately show ?thesis by simp
  qed
  then have "reads (rdbGenericLoadStringObject env kind) ([0xC0 + of_nat e] @ le_bytes n v) (if kind = LOAD_ENC then StrInt v else StrRaw (int_dec v))" for env kind
    using e(1) by (intro reads_string [OF reads_enc]) auto
  moreover have "string_is (StrInt v) (int_dec v)" using i by (simp add: string_is_def)
  ultimately show ?thesis by (intro string_bytesI [where v = "StrInt v"]) (simp_all add: e(3) split del: if_split)
qed

lemma tried_integer:
  assumes "rdbTryIntegerEncoding s = Some bs"
  shows "string_bytes bs s"
proof -
  obtain v xs where t: "strtoll s = (v, xs)" by (cases "strtoll s")
  have "int64 v" using t by (auto simp: strtoll_def Let_def int64_def split: if_splits)
  then have "rdbEncodeInteger v = Some bs" "s = int_dec v"
    using assms t by (auto simp: rdbTryIntegerEncoding_def ll2string_32 cstr_dec split: if_splits)
  then show ?thesis using integer_bytes by simp
qed

subsection \<open>Strings\<close>

lemma reads_bytes:
  assumes "length s < RDB_LENERR"
  shows "string_bytes (len_bytes (length s) @ s) s"
proof -
  have n: "length s < 2 ^ 64" "length s \<noteq> RDB_LENERR" using assms by (simp_all add: RDB_LENERR_def)
  have "reads (\<lambda>r. rbind (if length s = 0 then Inr ([], r) else rdb_read (length s) r) (\<lambda>(b, r'). Inr (h b, r'))) s (h s)" for h :: "bytes \<Rightarrow> robj"
  proof (rule reads_map)
    show "reads (\<lambda>r. if length s = 0 then Inr ([], r) else rdb_read (length s) r) s s"
      using reads_read [of s "length s"] reads_return [of "[]"] by (cases "s = []") auto
  qed simp
  then have "reads (rdbGenericLoadStringObject env kind) (len_bytes (length s) @ s) (if kind = LOAD_ENC then createStringObject s else StrRaw s)" for env kind
    using n by (intro reads_string [OF reads_len_ref]) auto
  then show ?thesis by (intro string_bytesI [where v = "createStringObject s"]) (simp_all add: string_is_def split del: if_split)
qed

lemma lzf_bytes:
  assumes c: "\<And>buf. length buf = length s \<Longrightarrow> lzf_decompress z buf (length s) = Some (Inr (length s, s))"
    and s: "0 < length s" "length s < RDB_LENERR" "length z < RDB_LENERR"
  shows "string_bytes (0xC3 # len_bytes (length z) @ len_bytes (length s) @ z) s"
proof -
  have "reads (rdbLoadLzfStringObject env) (len_bytes (length z) @ len_bytes (length s) @ z @ []) (StrRaw s)" for env
    unfolding rdbLoadLzfStringObject_def [abs_def]
    by (intro reads_bind [OF reads_len] reads_bind [OF reads_read] s refl) (use c s(1) in \<open>simp add: reads_def\<close>)
  then have "reads (rdbGenericLoadStringObject env kind) ([0xC0 + of_nat 3] @ len_bytes (length z) @ len_bytes (length s) @ z) (StrRaw s)" for env kind
    by (intro reads_string [OF reads_enc]) simp_all
  then show ?thesis by (intro string_bytesI [where v = "StrRaw s"]) (simp_all add: string_is_def)
qed

lemma saved_lzf:
  assumes "4 < length s" "length s < 2 ^ 32"
  shows "(\<forall>r. rdbSaveLzfStringObject env s r = Some None) \<or>
    (\<exists>bs. string_bytes bs s \<and> (\<forall>r. rdbSaveLzfStringObject env s r = Some (Some (wrote bs r))))"
proof -
  let ?n = "length s - 4" and ?out = "map (fresh_mem env) [0..<length s - 4 + 1]"
  obtain r where r: "lzf_compress (lzf_table env) s ?out ?n = Some r"
    and d: "\<And>n b buf m. r = Some (n, b) \<Longrightarrow> length s \<le> m \<Longrightarrow> m \<le> length buf \<Longrightarrow>
      n \<le> ?n \<and> length b = length ?out \<and> lzf_decompress (take n b) buf m = Some (Inr (length s, s @ drop (length s) buf))"
    using lzf_compress_decompress [of s ?n ?out "lzf_table env"] assms by auto
  show ?thesis
  proof (cases r)
    case None
    then show ?thesis using r assms by (simp add: rdbSaveLzfStringObject_def)
  next
    case (Some p)
    then obtain n b where p: "r = Some (n, b)" by (cases p) simp
    have l: "length (take n b) = n" "n \<le> ?n" using d [OF p, of "length s" s] by simp_all
    then have bounds: "0 < length s" "length s < RDB_LENERR" "n < RDB_LENERR" using assms by (auto simp: RDB_LENERR_def)
    have "string_bytes (0xC3 # len_bytes n @ len_bytes (length s) @ take n b) s"
      using lzf_bytes [of s "take n b"] d [OF p] bounds l(1) by simp
    moreover have "rdbSaveLzfStringObject env s r = Some (Some (wrote (0xC3 # len_bytes n @ len_bytes (length s) @ take n b) r))" for r
      using \<open>lzf_compress _ _ _ _ = _\<close> assms l by (simp add: rdbSaveLzfStringObject_def p rdbSaveLzfBlob_def rdbSaveLen_eq rdbWriteRaw_def rioWrite_eq)
    ultimately show ?thesis by blast
  qed
qed

text \<open>Whatever form a string is saved in, it is the string that is read again.\<close>

lemma saved_raw:
  assumes "length s < 2 ^ 32"
  obtains bs where "string_bytes bs s" "\<And>r. rdbSaveRawString env s r = Some (wrote bs r)"
proof (cases "if length s \<le> 11 then rdbTryIntegerEncoding s else None")
  case (Some bs)
  then have "string_bytes bs s" using tried_integer by (auto split: if_splits)
  then show ?thesis using Some that by (simp add: rdbSaveRawString_def rdbWriteRaw_def rioWrite_eq)
next
  case None
  have plain: "string_bytes (len_bytes (length s) @ s) s" using reads_bytes assms by (simp add: RDB_LENERR_def)
  show ?thesis
  proof (cases "rdb_compression env \<and> length s > 20 \<and> (\<exists>r. rdbSaveLzfStringObject env s r \<noteq> Some None)")
    case True
    then obtain bs where "string_bytes bs s" "\<And>r. rdbSaveLzfStringObject env s r = Some (Some (wrote bs r))"
      using saved_lzf [of s env] assms by auto
    then show ?thesis using True None that by (simp add: rdbSaveRawString_def)
  next
    case False
    then show ?thesis using None that [OF plain] by (auto simp: rdbSaveRawString_def rdbWriteRaw_def rioWrite_eq rdbSaveLen_eq)
  qed
qed

lemma saved_string:
  assumes "otype_of v = OBJ_STRING" "obj_ok v" "length (sval v) < 2 ^ 32"
  obtains bs where "string_bytes bs (sval v)" "\<And>r. rdbSaveStringObject env v r = Some (wrote bs r)"
proof (cases v)
  case (StrInt n)
  show ?thesis
  proof (cases "rdbEncodeInteger n")
    case (Some bs)
    then show ?thesis using integer_bytes [OF Some] that StrInt by (simp add: rdbSaveLongLongAsStringObject_def rdbWriteRaw_def rioWrite_eq)
  next
    case None
    have "int64 n" using assms(2) StrInt by simp
    then show ?thesis
      using None that [of "len_bytes (length (int_dec n)) @ int_dec n"] reads_bytes [of "int_dec n"] assms(3) StrInt length_int_dec_le [of n]
      by (simp add: rdbSaveLongLongAsStringObject_def ll2string_32 rdbWriteRaw_def rioWrite_eq rdbSaveLen_eq RDB_LENERR_def serverAssert_def)
  qed
next
  case (StrEmb b)
  then show ?thesis using saved_raw [of b env thesis] assms(3) that by simp
next
  case (StrRaw b)
  then show ?thesis using saved_raw [of b env thesis] assms(3) that by simp
qed (use assms in simp_all)

end
