(* ===== verification/Rdb_File.thy ===== *)
theory Rdb_File
  imports Rdb_Roundtrip
begin

unbundle bit_operations_syntax

text \<open>
  Whole dump files (\<open>rdb.c\<close>): the loading loop ends on every input, and a saved server is loaded
  with the same contents.
\<close>

subsection \<open>Loading ends\<close>

lemma rbind_Inr: "rbind m f = Inr y \<longleftrightarrow> (\<exists>x. m = Inr x \<and> f x = Inr y)"
  by (cases m) simp_all

lemma raw_Inr: "(case k of StrRaw key \<Rightarrow> f key | _ \<Rightarrow> Inl e) = Inr y \<longleftrightarrow> (\<exists>key. k = StrRaw key \<and> f key = Inr y)"
  by (cases k) simp_all

abbreviation left :: "rio \<Rightarrow> nat" where
  "left r \<equiv> length (rest r)"

text \<open>No load function moves back in the input.\<close>

lemma read_left: "rdb_read n r = Inr (b, r') \<Longrightarrow> left r' + n = left r"
  by (auto simp: rdb_read_def rioRead_eq split: if_splits)

lemma len_ref_left: "rdbLoadLenByRef r = Inr (x, r') \<Longrightarrow> left r' \<le> left r"
  by (auto simp: rdbLoadLenByRef_def Let_def rbind_Inr split: if_splits dest!: read_left)

lemma len_left: "rdbLoadLen r = Inr (x, r') \<Longrightarrow> left r' \<le> left r"
  by (auto simp: rdbLoadLen_def rbind_Inr split: if_splits dest!: len_ref_left)

lemma int_left: "rdbLoadIntegerObject n kind r = Inr (v, r') \<Longrightarrow> left r' \<le> left r"
  by (auto simp: rdbLoadIntegerObject_def Let_def rbind_Inr split: if_splits option.splits dest!: read_left)

lemma lzf_left: "rdbLoadLzfStringObject env r = Inr (v, r') \<Longrightarrow> left r' \<le> left r"
  by (clarsimp simp: rdbLoadLzfStringObject_def rbind_Inr) (auto split: if_splits option.splits sum.splits prod.splits dest!: read_left len_left)

lemma string_left: "rdbGenericLoadStringObject env kind r = Inr (v, r') \<Longrightarrow> left r' \<le> left r"
  by (auto simp: rdbGenericLoadStringObject_def rbind_Inr split: if_splits dest!: read_left len_ref_left int_left lzf_left)

lemma object_left: "rdbLoadObject env type r = Inr (v, r') \<Longrightarrow> left r' \<le> left r"
  by (auto simp: rdbLoadObject_def rdbLoadEncodedStringObject_def rbind_Inr split: if_splits option.splits dest!: string_left)

lemma pair_left: "load_pair env type st = Inr st' \<Longrightarrow> left (ls_rio st') \<le> left (ls_rio st)"
  by (auto simp: load_pair_def rbind_Inr raw_Inr dest!: string_left object_left)

lemma aux_left: "load_aux env st = Inr st' \<Longrightarrow> left (ls_rio st') \<le> left (ls_rio st)"
  by (auto simp: load_aux_def rdbLoadStringObject_def rbind_Inr raw_Inr split: if_splits dest!: string_left)

lemma opcode_left: "load_opcode env type st = Some (Inr st') \<Longrightarrow> left (ls_rio st') \<le> left (ls_rio st)"
  by (auto simp: load_opcode_def Let_def rdbLoadTime_def rdbLoadMillisecondTime_def rbind_Inr split: if_splits dest!: read_left len_left aux_left)

lemma turn_left: "load_turn env type st = Inr st' \<Longrightarrow> left (ls_rio st') \<le> left (ls_rio st)"
  by (auto simp: load_turn_def split: option.splits dest: opcode_left pair_left)

lemma type_left: "rdbLoadType r = Inr (t, r') \<Longrightarrow> left r' < left r"
  by (auto simp: rdbLoadType_def rbind_Inr dest!: read_left)

lemma load_loop_fuel:
  "left (ls_rio st) < n \<Longrightarrow> left (ls_rio st) < m \<Longrightarrow> \<exists>y. load_loop n env st = Some y \<and> load_loop m env st = Some y"
proof (induction n arbitrary: st m)
  case (Suc n)
  then obtain m' where m: "m = Suc m'" by (cases m) auto
  show ?case
  proof (cases "rdbLoadType (ls_rio st)")
    case (Inr p)
    obtain type r where p: "p = (type, r)" by (cases p)
    show ?thesis
    proof (cases "load_turn env type (st\<lparr>ls_rio := r\<rparr>)")
      case st1: (Inr st1)
      have "left (ls_rio st1) < left (ls_rio st)" using type_left Inr p turn_left [OF st1] by fastforce
      then have "\<exists>y. load_loop n env st1 = Some y \<and> load_loop m' env st1 = Some y" using Suc.prems m by (intro Suc.IH) auto
      then show ?thesis using Inr st1 unfolding p m by auto
    qed (use Inr p m in auto)
  qed (simp add: m)
qed simp

text \<open>The loop without fuel.\<close>

definition run_load :: "rdb_env \<Rightarrow> load_state \<Rightarrow> rdb_error + load_state" where
  "run_load env st = the (load_loop (Suc (left (ls_rio st))) env st)"

lemma load_loop_run: "left (ls_rio st) < n \<Longrightarrow> load_loop n env st = Some (run_load env st)"
  unfolding run_load_def using load_loop_fuel [of st n "Suc (left (ls_rio st))" env] by fastforce

lemma run_load_unfold:
  "run_load env st = rbind (rdbLoadType (ls_rio st)) (\<lambda>(type, r).
     if type = RDB_OPCODE_EOF then Inr (st\<lparr>ls_rio := r\<rparr>) else rbind (load_turn env type (st\<lparr>ls_rio := r\<rparr>)) (run_load env))"
proof -
  have "load_loop (left (ls_rio st)) env st1 = Some (run_load env st1)"
    if "rdbLoadType (ls_rio st) = Inr (type, r)" "load_turn env type (st\<lparr>ls_rio := r\<rparr>) = Inr st1" for type r st1
    using type_left [OF that(1)] turn_left [OF that(2)] by (intro load_loop_run) auto
  then show ?thesis unfolding run_load_def [of env st] by (auto split: sum.splits prod.splits)
qed

subsection \<open>What the loop does with a piece of the input\<close>

text \<open>The state of the loop besides the stream: the server, the selected database and the expire time.\<close>

definition at :: "rio \<Rightarrow> server \<times> nat \<times> int \<Rightarrow> load_state" where
  "at r a = (case a of (s, i, t) \<Rightarrow> \<lparr>ls_rio = r, ls_srv = s, ls_db = i, ls_expire = t\<rparr>)"

lemma at_simps [simp]:
  "ls_rio (at r a) = r" "(at r a)\<lparr>ls_rio := r'\<rparr> = at r' a" "ls_srv (at r (s, i, t)) = s" "ls_db (at r (s, i, t)) = i"
  "ls_expire (at r (s, i, t)) = t" "(at r (s, i, t))\<lparr>ls_expire := t'\<rparr> = at r (s, i, t')"
  "(at r (s, i, t))\<lparr>ls_db := i'\<rparr> = at r (s, i', t)" "(at r (s, i, t))\<lparr>ls_srv := s'\<rparr> = at r (s', i, t)"
  by (simp_all add: at_def split: prod.split)

definition plays :: "rdb_env \<Rightarrow> bytes \<Rightarrow> server \<times> nat \<times> int \<Rightarrow> server \<times> nat \<times> int \<Rightarrow> bool" where
  "plays env bs a b \<longleftrightarrow>
     (\<forall>r xs. rest r = bs @ xs \<longrightarrow> run_load env (at r a) = run_load env (at (skip bs r) b)) \<and>
     (\<forall>r. strict_prefix (rest r) bs \<longrightarrow> run_load env (at r a) = Inl ReadError)"

lemma plays_Nil: "plays env [] a a"
  by (simp add: plays_def)

lemma plays_append:
  assumes "plays env bs a b" "plays env cs b c"
  shows "plays env (bs @ cs) a c"
proof -
  have "run_load env (at r a) = Inl ReadError" if "strict_prefix (rest r) (bs @ cs)" for r
    using that by (rule strict_prefix_append_cases) (use assms in \<open>auto simp: plays_def\<close>)
  then show ?thesis using assms by (auto simp: plays_def)
qed

text \<open>One turn: the same for the function of a turn.\<close>

definition turns :: "rdb_env \<Rightarrow> byte \<Rightarrow> bytes \<Rightarrow> server \<times> nat \<times> int \<Rightarrow> server \<times> nat \<times> int \<Rightarrow> bool" where
  "turns env type bs a b \<longleftrightarrow>
     (\<forall>r xs. rest r = bs @ xs \<longrightarrow> load_turn env type (at r a) = Inr (at (skip bs r) b)) \<and>
     (\<forall>r. strict_prefix (rest r) bs \<longrightarrow> load_turn env type (at r a) = Inl ReadError)"

lemma reads_type: "reads rdbLoadType [t] t"
  unfolding rdbLoadType_def [abs_def] by (rule reads_map [OF reads_read]) simp_all

lemma plays_turn:
  assumes "type \<noteq> RDB_OPCODE_EOF" "turns env type bs a b"
  shows "plays env (type # bs) a b"
proof -
  have "run_load env (at r a) = run_load env (at (skip (type # bs) r) b)" if "rest r = (type # bs) @ xs" for r xs
  proof -
    have "rdbLoadType r = Inr (type, skip [type] r)" using reads_type that by (simp add: reads_def)
    moreover have "load_turn env type (at (skip [type] r) a) = Inr (at (skip bs (skip [type] r)) b)"
      using assms(2) that unfolding turns_def by (metis append_Cons drop_Suc_Cons drop0 length_Cons list.size(3) rest_skip)
    ultimately show ?thesis using assms(1) by (subst run_load_unfold) simp
  qed
  moreover have "run_load env (at r a) = Inl ReadError" if "strict_prefix (rest r) ([type] @ bs)" for r
    using that
  proof (rule strict_prefix_append_cases)
    assume "strict_prefix (rest r) [type]"
    then have "rdbLoadType r = Inl ReadError" using reads_type [of type] by (simp add: reads_def)
    then show ?thesis by (subst run_load_unfold) simp
  next
    fix ys assume ys: "rest r = [type] @ ys" "strict_prefix ys bs"
    then have "rdbLoadType r = Inr (type, skip [type] r)" using reads_type by (simp add: reads_def)
    moreover have "load_turn env type (at (skip [type] r) a) = Inl ReadError" using assms(2) ys by (simp add: turns_def)
    ultimately show ?thesis using assms(1) by (subst run_load_unfold) simp
  qed
  ultimately show ?thesis by (simp add: plays_def)
qed

lemma turns_opcode:
  assumes "reads f bs v" "\<And>r. load_opcode env type (at r a) = Some (rbind (f r) (\<lambda>(x, r'). h x r'))" "\<And>r. h v r = Inr (at r b)"
  shows "turns env type bs a b"
  using assms(1) by (simp add: turns_def load_turn_def reads_def assms(2,3))

lemma plays_expire: "int64 t \<Longrightarrow> plays env (RDB_OPCODE_EXPIRETIME_MS # le_bytes 8 t) (s, i, t0) (s, i, t)"
proof (rule plays_turn, simp add: rdb_opcodes)
  assume "int64 t"
  then have "le_sint (le_bytes 8 t) = t" using le_sint_le_bytes [of 8 t] by (simp add: int64_def)
  then have "reads rdbLoadMillisecondTime (le_bytes 8 t) t"
    unfolding rdbLoadMillisecondTime_def [abs_def] by (intro reads_map [OF reads_read]) simp_all
  then show "turns env RDB_OPCODE_EXPIRETIME_MS (le_bytes 8 t) (s, i, t0) (s, i, t)"
    by (rule turns_opcode) (simp_all add: load_opcode_def rdb_opcodes)
qed

lemma plays_idle: "n < RDB_LENERR \<Longrightarrow> plays env (RDB_OPCODE_IDLE # len_bytes n) (s, i, t) (s, i, t)"
  by (rule plays_turn, simp add: rdb_opcodes, rule turns_opcode [OF reads_len]) (simp_all add: load_opcode_def rdb_opcodes)

lemma plays_freq: "plays env [RDB_OPCODE_FREQ, x] (s, i, t) (s, i, t)"
  by (rule plays_turn, simp add: rdb_opcodes, rule turns_opcode [OF reads_read [of "[x]" 1]]) (simp_all add: load_opcode_def rdb_opcodes)

lemma plays_select:
  assumes "n < RDB_LENERR" "n < dbnum s"
  shows "plays env (RDB_OPCODE_SELECTDB # len_bytes n) (s, i, t) (s, n, t)"
proof (rule plays_turn, simp add: rdb_opcodes)
  show "turns env RDB_OPCODE_SELECTDB (len_bytes n) (s, i, t) (s, n, t)"
    by (rule turns_opcode [OF reads_len, where h = "\<lambda>n r. if n \<ge> dbnum s then Inl RdbExit else Inr (at r (s, n, t))"])
      (use assms in \<open>simp_all add: load_opcode_def rdb_opcodes cong: if_cong\<close>)
qed

lemma plays_resize:
  assumes "n < RDB_LENERR" "m < RDB_LENERR"
  shows "plays env (RDB_OPCODE_RESIZEDB # len_bytes n @ len_bytes m) (s, i, t) (s, i, t)"
proof (rule plays_turn, simp add: rdb_opcodes)
  let ?f = "\<lambda>r. rbind (rdbLoadLen r) (\<lambda>(n, r1). rbind (rdbLoadLen r1) (\<lambda>(m, r2). Inr ((), r2)))"
  have "reads ?f (len_bytes n @ len_bytes m) ()"
    by (intro reads_bind [OF reads_len] reads_map [OF reads_len] assms) simp
  moreover have "load_opcode env RDB_OPCODE_RESIZEDB (at r (s, i, t)) = Some (rbind (?f r) (\<lambda>(x, r'). Inr (at r' (s, i, t))))" for r
    by (simp add: load_opcode_def rdb_opcodes rbind_def split: sum.split)
  ultimately show "turns env RDB_OPCODE_RESIZEDB (len_bytes n @ len_bytes m) (s, i, t) (s, i, t)"
    by (rule turns_opcode) simp
qed

lemma plays_aux:
  assumes k: "string_bytes ks k" "\<not> strcaseeq k ''lua''" and v: "string_bytes vs v"
  shows "plays env (RDB_OPCODE_AUX # ks @ vs) (s, i, t) (s, i, t)"
proof (rule plays_turn, simp add: rdb_opcodes)
  let ?f = "\<lambda>r. rbind (rdbLoadStringObject env r) (\<lambda>(k, r1). rbind (rdbLoadStringObject env r1) (\<lambda>(v, r2). Inr ((k, v), r2)))"
  have "reads (rdbLoadStringObject env) ks (StrRaw k)" "reads (rdbLoadStringObject env) vs (StrRaw v)"
    using k v by (simp_all add: rdbLoadStringObject_def string_bytes_def)
  then have "reads ?f (ks @ vs) (StrRaw k, StrRaw v)" by - (erule reads_bind, rule reads_map, assumption, rule refl)
  moreover have "load_opcode env RDB_OPCODE_AUX (at r (s, i, t)) = Some (rbind (?f r) (\<lambda>((k, v), r2). case (k, v) of
       (StrRaw key, StrRaw val) \<Rightarrow>
         if key \<noteq> [] \<and> hd key = of_char CHR ''%'' then Inr (at r2 (s, i, t))
         else if strcaseeq key ''lua'' \<and> \<not> lua_accepts env val then Inl CorruptRDB
         else Inr (at r2 (s, i, t))
     | _ \<Rightarrow> Inl MemoryError))" for r
    by (simp add: load_opcode_def load_aux_def rdb_opcodes rbind_def split: sum.split cong: robj.case_cong if_cong)
  ultimately show "turns env RDB_OPCODE_AUX (ks @ vs) (s, i, t) (s, i, t)"
    by (rule turns_opcode) (use k(2) in simp)
qed

lemma reads_object:
  assumes "string_bytes vs x"
  obtains w where "string_is w x" "reads (rdbLoadObject env 0) vs w"
proof -
  obtain v where v: "string_is v x" "reads (rdbLoadEncodedStringObject env) vs v"
    using assms by (auto simp: string_bytes_def rdbLoadEncodedStringObject_def)
  obtain w where w: "tryObjectEncoding v = Some w" "string_is w x"
    using tryEncode [of v] v(1) by (auto simp: string_is_def)
  have "reads (rdbLoadObject env 0) vs w" using v(2) w(1) by (simp add: reads_def rdbLoadObject_def)
  then show ?thesis using that w(2) by blast
qed

lemma plays_pair:
  assumes k: "string_bytes ks k" and v: "reads (rdbLoadObject env 0) vs v" and s: "add_loaded env i k v t s = Inr s1"
  shows "plays env (0 # ks @ vs) (s, i, t) (s1, i, -1)"
proof (rule plays_turn, simp add: rdb_opcodes)
  let ?f = "\<lambda>r. rbind (rdbGenericLoadStringObject env LOAD_SDS r) (\<lambda>(k, r1). rbind (rdbLoadObject env 0 r1) (\<lambda>(v, r2). Inr ((k, v), r2)))"
  have "reads (rdbGenericLoadStringObject env LOAD_SDS) ks (StrRaw k)" using k by (simp add: string_bytes_def)
  then have f: "reads ?f (ks @ vs) (StrRaw k, v)" by - (erule reads_bind, rule reads_map, rule v, rule refl)
  have "load_turn env 0 (at r (s, i, t)) = rbind (?f r) (\<lambda>((k, v), r2). case k of
         StrRaw key \<Rightarrow> rbind (add_loaded env i key v t s) (\<lambda>s1. Inr (at r2 (s1, i, -1)))
       | _ \<Rightarrow> Inl MemoryError)" for r
    by (simp add: load_turn_def load_opcode_def load_pair_def rdb_opcodes rbind_def split: sum.split cong: robj.case_cong)
  then show "turns env 0 (ks @ vs) (s, i, t) (s1, i, -1)" using f s by (simp add: turns_def reads_def)
qed

end
