(* ===== verification/Rdb_Server.thy ===== *)
theory Rdb_Server
  imports Rdb_File
begin

unbundle bit_operations_syntax

text \<open>
  Saving a server and loading it into an empty one (\<open>rdb.c\<close>).
\<close>

subsection \<open>One key\<close>

text \<open>The keys \<open>ks\<close> of database \<open>i\<close> are taken over from \<open>s\<close>; the other entries are left alone.\<close>

definition takes :: "server \<Rightarrow> (nat \<times> bytes) set \<Rightarrow> server \<Rightarrow> server \<Rightarrow> bool" where
  "takes s ks s1 s2 \<longleftrightarrow> clock s2 = clock s1 \<and> dbnum s2 = dbnum s1 \<and>
     (\<forall>j k. (j, k) \<notin> ks \<longrightarrow> entry s2 j k = entry s1 j k) \<and>
     (\<forall>(j, k) \<in> ks. vent (clock s1) (entry s2 j k) = vent (clock s1) (entry s j k))"

lemma takes_refl: "takes s {} s1 s1"
  by (simp add: takes_def)

lemma takes_trans:
  assumes "takes s ks s1 s2" "takes s ls s2 s3"
  shows "takes s (ks \<union> ls) s1 s3"
proof -
  have "vent (clock s1) (entry s3 j k) = vent (clock s1) (entry s j k)" if "(j, k) \<in> ks \<union> ls" for j k
    using assms that by (cases "(j, k) \<in> ls") (auto simp: takes_def)
  then show ?thesis using assms by (auto simp: takes_def)
qed

lemma add_loaded_ok:
  assumes e: "entry s1 i k = (None, None)" and t: "\<And>x. t = Some x \<Longrightarrow> 0 \<le> x"
    and s: "entry s i k = (Some v, t)" and w: "abs_obj w = abs_obj v"
  obtains s2 where "add_loaded env i k w (case t of None \<Rightarrow> -1 | Some x \<Rightarrow> x) s1 = Inr s2" "takes s {(i, k)} s1 s2"
proof -
  let ?t = "case t of None \<Rightarrow> -1 | Some x \<Rightarrow> x"
  have m: "map_of (kv (db s1 i)) k = None" "expires (db s1 i) k = None" using e by (simp_all add: entry_def)
  show ?thesis
  proof (cases "\<not> masterhost s1 \<and> \<not> aof_preamble env \<and> ?t \<noteq> -1 \<and> ?t < clock s1")
    case True
    then have "expired_at (clock s1) t" using t by (auto simp: expired_at_def split: option.splits)
    then have "takes s {(i, k)} s1 s1" using e s by (simp add: takes_def vent_def)
    then show ?thesis using True that by (simp add: add_loaded_def)
  next
    case False
    let ?f = "\<lambda>d. d\<lparr>kv := AList.update k w (kv d)\<rparr>" and ?g = "\<lambda>d. case t of None \<Rightarrow> d | Some x \<Rightarrow> d\<lparr>expires := (expires d)(k \<mapsto> x)\<rparr>"
    let ?s2 = "upd_db i ?g (upd_db i ?f s1)"
    have id: "upd_db i (\<lambda>d. d) s = s" for s by (simp add: upd_db_def)
    have "add_loaded env i k w ?t s1 = Inr ?s2"
    proof (cases t)
      case None
      then show ?thesis using m id by (simp add: add_loaded_def dbAddRDBLoad_def)
    next
      case (Some x)
      then have "x \<noteq> -1" using t by auto
      then show ?thesis using False m Some by (auto simp: add_loaded_def dbAddRDBLoad_def setExpire_load_def serverAssert_def update_conv')
    qed
    moreover have "takes s {(i, k)} s1 ?s2"
      using m s w by (cases t) (auto simp: takes_def entry_upd_db entry_def vent_def update_conv' upd_db_def)
    ultimately show ?thesis using that by blast
  qed
qed

text \<open>What can be saved: strings of less than 4 GB and times that are not negative.\<close>

definition saveable :: "robj \<Rightarrow> int option \<Rightarrow> bool" where
  "saveable v t \<longleftrightarrow> otype_of v = OBJ_STRING \<and> obj_ok v \<and> length (sval v) < 2 ^ 32 \<and> (\<forall>x. t = Some x \<longrightarrow> 0 \<le> x \<and> int64 x)"

definition env_ok :: "rdb_env \<Rightarrow> bool" where
  "env_ok env \<longleftrightarrow> int64 (unix_time env) \<and> int64 (used_memory env) \<and> (\<forall>k. idle_time env k < 2 ^ 64)"

lemma saved_pair:
  assumes env: "env_ok env" and s: "entry s i k = (Some v, t)" "saveable v t" and k: "length k < 2 ^ 32"
  obtains bs where "\<And>r. rdbSaveKeyValuePair env k v (case t of None \<Rightarrow> -1 | Some x \<Rightarrow> x) r = Some (wrote bs r)"
    "\<And>env' s1. entry s1 i k = (None, None) \<Longrightarrow> \<exists>s2. plays env' bs (s1, i, -1) (s2, i, -1) \<and> takes s {(i, k)} s1 s2"
proof -
  let ?t = "case t of None \<Rightarrow> -1 | Some x \<Rightarrow> x"
  define es where "es = (case t of None \<Rightarrow> [] | Some x \<Rightarrow> RDB_OPCODE_EXPIRETIME_MS # le_bytes 8 x)"
  define ls where "ls = (if save_lru env then RDB_OPCODE_IDLE # len_bytes (idle_time env k div 1000) else [])"
  define fs where "fs = (if save_lfu env then [RDB_OPCODE_FREQ, lfu_counter env k] else [])"
  obtain ks where ks: "string_bytes ks k" "\<And>r. rdbSaveRawString env k r = Some (wrote ks r)" using saved_raw [OF k, of env] by blast
  obtain vs where vs: "string_bytes vs (sval v)" "\<And>r. rdbSaveStringObject env v r = Some (wrote vs r)"
    using s(2) saved_string [of v env] unfolding saveable_def by blast
  have "idle_time env k < 2 ^ 64" using env by (simp add: env_ok_def)
  then have idle: "idle_time env k div 1000 < RDB_LENERR" by (simp add: RDB_LENERR_def)
  have t: "(if ?t \<noteq> -1 then rdbSaveMillisecondTime ?t (rdbSaveType RDB_OPCODE_EXPIRETIME_MS r) else r) = wrote es r" for r
    using s(2) by (auto simp: es_def saveable_def rdbSaveMillisecondTime_def rdbSaveType_def rdbWriteRaw_def rioWrite_eq split: option.splits)
  have l: "(if save_lru env then rdbSaveLen (idle_time env k div 1000) (rdbSaveType RDB_OPCODE_IDLE r) else r) = wrote ls r"
    "(if save_lfu env then rdbWriteRaw [lfu_counter env k] (rdbSaveType RDB_OPCODE_FREQ r) else r) = wrote fs r" for r
    by (simp_all add: ls_def fs_def rdbSaveType_def rdbWriteRaw_def rioWrite_eq rdbSaveLen_eq)
  have "rdbSaveKeyValuePair env k v ?t r = Some (wrote (es @ ls @ fs @ 0 # ks @ vs) r)" for r
    using s(2) ks(2) vs(2) unfolding rdbSaveKeyValuePair_def Let_def t l
    by (simp add: saveable_def rdbSaveObjectType_def rdbSaveObject_def rdbSaveType_def rdbWriteRaw_def rioWrite_eq)
  moreover have "\<exists>s2. plays env' (es @ ls @ fs @ 0 # ks @ vs) (s1, i, -1) (s2, i, -1) \<and> takes s {(i, k)} s1 s2"
    if s1: "entry s1 i k = (None, None)" for env' s1
  proof -
    obtain w where w: "string_is w (sval v)" "reads (rdbLoadObject env' 0) vs w" using vs(1) by (rule reads_object)
    have a: "abs_obj w = abs_obj v" using w(1) s(2) by (simp add: string_is_def saveable_def)
    obtain s2 where s2: "add_loaded env' i k w ?t s1 = Inr s2" "takes s {(i, k)} s1 s2"
      by (rule add_loaded_ok [OF s1 _ s(1) a]) (use s(2) in \<open>auto simp: saveable_def\<close>)
    have "plays env' es (s1, i, -1) (s1, i, ?t)"
      using s(2) plays_expire plays_Nil by (auto simp: es_def saveable_def split: option.split)
    moreover have "plays env' ls (s1, i, ?t) (s1, i, ?t)" using idle by (simp add: ls_def plays_idle plays_Nil)
    moreover have "plays env' fs (s1, i, ?t) (s1, i, ?t)" by (simp add: fs_def plays_freq plays_Nil)
    ultimately have "plays env' (es @ ls @ fs @ 0 # ks @ vs) (s1, i, -1) (s2, i, -1)"
      using plays_pair [OF ks(1) w(2) s2(1)] by (blast intro: plays_append)
    then show ?thesis using s2(2) by blast
  qed
  ultimately show ?thesis using that by blast
qed

subsection \<open>Databases\<close>

definition db_saveable :: "server \<Rightarrow> nat \<Rightarrow> bool" where
  "db_saveable s i \<longleftrightarrow> distinct (map fst (kv (db s i))) \<and> length (kv (db s i)) < 2 ^ 32 \<and>
     (\<forall>(k, v) \<in> set (kv (db s i)). length k < 2 ^ 32 \<and> saveable v (expires (db s i) k))"

lemma saved_entries:
  assumes env: "env_ok env" and s: "db_saveable s i" and es: "set es \<subseteq> set (kv (db s i))" "distinct (map fst es)"
  shows "\<exists>bs. (\<forall>r. save_entries env i s es r = Some (wrote bs r)) \<and>
    (\<forall>env' s1. (\<forall>k \<in> fst ` set es. entry s1 i k = (None, None)) \<longrightarrow>
      (\<exists>s2. plays env' bs (s1, i, -1) (s2, i, -1) \<and> takes s (Pair i ` fst ` set es) s1 s2))"
  using es
proof (induction es)
  case Nil
  then show ?case using plays_Nil takes_refl by (fastforce intro: exI [of _ "[]"])
next
  case (Cons p es)
  obtain k v where p: "p = (k, v)" by (cases p)
  have kv: "map_of (kv (db s i)) k = Some v" using Cons.prems(1) s p by (simp add: db_saveable_def)
  let ?t = "expires (db s i) k"
  have e: "entry s i k = (Some v, ?t)" "length k < 2 ^ 32" "saveable v ?t"
    using kv Cons.prems(1) s p by (auto simp: entry_def db_saveable_def)
  obtain bs where bs: "\<And>r. rdbSaveKeyValuePair env k v (case ?t of None \<Rightarrow> -1 | Some x \<Rightarrow> x) r = Some (wrote bs r)"
    "\<And>env' s1. entry s1 i k = (None, None) \<Longrightarrow> \<exists>s2. plays env' bs (s1, i, -1) (s2, i, -1) \<and> takes s {(i, k)} s1 s2"
    using saved_pair [OF env e(1) e(3) e(2)] by blast
  obtain cs where cs: "\<And>r. save_entries env i s es r = Some (wrote cs r)"
    "\<And>env' s1. \<forall>k \<in> fst ` set es. entry s1 i k = (None, None) \<Longrightarrow>
      \<exists>s2. plays env' cs (s1, i, -1) (s2, i, -1) \<and> takes s (Pair i ` fst ` set es) s1 s2"
    using Cons.IH Cons.prems by auto
  have "getExpire i k s = Some (case ?t of None \<Rightarrow> -1 | Some x \<Rightarrow> x)"
    using kv by (simp add: getExpire_def serverAssert_def split: option.split)
  then have "save_entries env i s (p # es) r = Some (wrote (bs @ cs) r)" for r by (simp add: p bs(1) cs(1))
  moreover have "\<exists>s2. plays env' (bs @ cs) (s1, i, -1) (s2, i, -1) \<and> takes s (Pair i ` fst ` set (p # es)) s1 s2"
    if s1: "\<forall>k \<in> fst ` set (p # es). entry s1 i k = (None, None)" for env' s1
  proof -
    obtain s2 where s2: "plays env' bs (s1, i, -1) (s2, i, -1)" "takes s {(i, k)} s1 s2" using bs(2) s1 p by force
    have "entry s2 i l = (None, None)" if l: "l \<in> fst ` set es" for l
    proof -
      have "l \<noteq> k" using l Cons.prems(2) p by auto
      then have "entry s2 i l = entry s1 i l" using s2(2) by (simp add: takes_def)
      then show ?thesis using s1 l by simp
    qed
    then obtain s3 where s3: "plays env' cs (s2, i, -1) (s3, i, -1)" "takes s (Pair i ` fst ` set es) s2 s3" using cs(2) by blast
    show ?thesis using plays_append [OF s2(1) s3(1)] takes_trans [OF s2(2) s3(2)] p by auto
  qed
  ultimately show ?case by blast
qed

abbreviation keys_of :: "server \<Rightarrow> nat \<Rightarrow> (nat \<times> bytes) set" where
  "keys_of s i \<equiv> Pair i ` fst ` set (kv (db s i))"

lemma saved_db:
  assumes env: "env_ok env" and s: "db_saveable s i" and i: "i < RDB_LENERR"
  obtains bs where "\<And>r. save_db env i s r = Some (wrote bs r)"
    "\<And>env' s1 j. \<forall>k. entry s1 i k = (None, None) \<Longrightarrow> i < dbnum s1 \<Longrightarrow>
      \<exists>s2 j'. plays env' bs (s1, j, -1) (s2, j', -1) \<and> takes s (keys_of s i) s1 s2"
proof (cases "kv (db s i) = []")
  case True
  then show ?thesis using that [of "[]"] plays_Nil takes_refl by (fastforce simp: save_db_def)
next
  case False
  let ?d = "kv (db s i)" and ?n = "length (filter (\<lambda>(k, v). expires (db s i) k \<noteq> None) (kv (db s i)))"
  obtain bs where bs: "\<And>r. save_entries env i s ?d r = Some (wrote bs r)"
    "\<And>env' s1. \<forall>k \<in> fst ` set ?d. entry s1 i k = (None, None) \<Longrightarrow>
      \<exists>s2. plays env' bs (s1, i, -1) (s2, i, -1) \<and> takes s (keys_of s i) s1 s2"
    using saved_entries [OF env s, of ?d] s by (auto simp: db_saveable_def)
  define ss where "ss = RDB_OPCODE_SELECTDB # len_bytes i"
  define rs where "rs = RDB_OPCODE_RESIZEDB # len_bytes (length ?d) @ len_bytes ?n"
  have "length ?d < RDB_LENERR" using s by (simp add: db_saveable_def RDB_LENERR_def)
  then have n: "length ?d < RDB_LENERR" "?n < RDB_LENERR" using le_less_trans [OF length_filter_le] by auto
  have "save_db env i s r = Some (wrote (ss @ rs @ bs) r)" for r
    using False by (simp add: save_db_def Let_def bs(1) rdbSaveType_def rdbWriteRaw_def rioWrite_eq rdbSaveLen_eq ss_def rs_def)
  moreover have "\<exists>s2 j'. plays env' (ss @ rs @ bs) (s1, j, -1) (s2, j', -1) \<and> takes s (keys_of s i) s1 s2"
    if s1: "\<forall>k. entry s1 i k = (None, None)" "i < dbnum s1" for env' s1 j
  proof -
    obtain s2 where s2: "plays env' bs (s1, i, -1) (s2, i, -1)" "takes s (keys_of s i) s1 s2" using bs(2) s1(1) by blast
    have "plays env' ss (s1, j, -1) (s1, i, -1)" unfolding ss_def by (rule plays_select [OF i s1(2)])
    moreover have "plays env' rs (s1, i, -1) (s1, i, -1)" unfolding rs_def by (rule plays_resize [OF n])
    ultimately show ?thesis using plays_append s2 by blast
  qed
  ultimately show ?thesis using that by blast
qed

lemma saved_dbs:
  assumes env: "env_ok env" and "\<forall>i \<in> set is. db_saveable s i \<and> i < RDB_LENERR" "distinct is"
  shows "\<exists>bs. (\<forall>r. save_dbs env is s r = Some (wrote bs r)) \<and>
    (\<forall>env' s1 j. (\<forall>i \<in> set is. (\<forall>k. entry s1 i k = (None, None)) \<and> i < dbnum s1) \<longrightarrow>
      (\<exists>s2 j'. plays env' bs (s1, j, -1) (s2, j', -1) \<and> takes s (\<Union>i \<in> set is. keys_of s i) s1 s2))"
  using assms(2,3)
proof (induction "is")
  case Nil
  then show ?case using plays_Nil takes_refl by (fastforce intro: exI [of _ "[]"])
next
  case (Cons i "is")
  have i: "db_saveable s i" "i < RDB_LENERR" using Cons.prems(1) by simp_all
  obtain bs where bs: "\<And>r. save_db env i s r = Some (wrote bs r)"
    "\<And>env' s1 j. \<forall>k. entry s1 i k = (None, None) \<Longrightarrow> i < dbnum s1 \<Longrightarrow>
      \<exists>s2 j'. plays env' bs (s1, j, -1) (s2, j', -1) \<and> takes s (keys_of s i) s1 s2"
    using saved_db [OF env i] by blast
  obtain cs where cs: "\<And>r. save_dbs env is s r = Some (wrote cs r)"
    "\<And>env' s1 j. \<forall>i \<in> set is. (\<forall>k. entry s1 i k = (None, None)) \<and> i < dbnum s1 \<Longrightarrow>
      \<exists>s2 j'. plays env' cs (s1, j, -1) (s2, j', -1) \<and> takes s (\<Union>i \<in> set is. keys_of s i) s1 s2"
    using Cons.IH Cons.prems by auto
  have "save_dbs env (i # is) s r = Some (wrote (bs @ cs) r)" for r by (simp add: bs(1) cs(1))
  moreover have "\<exists>s2 j'. plays env' (bs @ cs) (s1, j, -1) (s2, j', -1) \<and> takes s (\<Union>i \<in> set (i # is). keys_of s i) s1 s2"
    if s1: "\<forall>i \<in> set (i # is). (\<forall>k. entry s1 i k = (None, None)) \<and> i < dbnum s1" for env' s1 j
  proof -
    obtain s2 j2 where s2: "plays env' bs (s1, j, -1) (s2, j2, -1)" "takes s (keys_of s i) s1 s2" using bs(2) [of s1 env' j] s1 by auto
    have "entry s2 l k = (None, None)" "l < dbnum s2" if l: "l \<in> set is" for l k
    proof -
      have "(l, k) \<notin> keys_of s i" using l Cons.prems(2) by auto
      then have "entry s2 l k = entry s1 l k" "dbnum s2 = dbnum s1" using s2(2) by (simp_all add: takes_def)
      then show "entry s2 l k = (None, None)" "l < dbnum s2" using s1 l by simp_all
    qed
    then obtain s3 j3 where s3: "plays env' cs (s2, j2, -1) (s3, j3, -1)" "takes s (\<Union>i \<in> set is. keys_of s i) s2 s3" using cs(2) by blast
    show ?thesis using plays_append [OF s2(1) s3(1)] takes_trans [OF s2(2) s3(2)] by auto
  qed
  ultimately show ?case by blast
qed

subsection \<open>The fields of the header\<close>

lemma saved_aux:
  assumes "length k < 2 ^ 32" "length v < 2 ^ 32" "\<not> strcaseeq k ''lua''"
  obtains bs where "\<And>r. rdbSaveAuxField env k v r = Some (wrote bs r)" "\<And>env' s i t. plays env' bs (s, i, t) (s, i, t)"
proof -
  obtain ks where ks: "string_bytes ks k" "\<And>r. rdbSaveRawString env k r = Some (wrote ks r)" using saved_raw [OF assms(1), of env] by blast
  obtain vs where vs: "string_bytes vs v" "\<And>r. rdbSaveRawString env v r = Some (wrote vs r)" using saved_raw [OF assms(2), of env] by blast
  show ?thesis
    by (rule that [of "RDB_OPCODE_AUX # ks @ vs"])
      (simp_all add: rdbSaveAuxField_def ks(2) vs(2) rdbSaveType_def rdbWriteRaw_def rioWrite_eq plays_aux [OF ks(1) assms(3) vs(1)])
qed

lemma saved_aux_int:
  assumes "int64 n" "length k < 2 ^ 32" "\<not> strcaseeq (bstr k) ''lua''"
  obtains bs where "\<And>r. rdbSaveAuxFieldStrInt env k n r = Some (wrote bs r)" "\<And>env' s i t. plays env' bs (s, i, t) (s, i, t)"
proof -
  have "length (int_dec n) < 2 ^ 32" using length_int_dec_le [OF assms(1)] by simp
  then obtain bs where bs: "\<And>r. rdbSaveAuxField env (bstr k) (int_dec n) r = Some (wrote bs r)" "\<And>env' s i t. plays env' bs (s, i, t) (s, i, t)"
    using saved_aux [of "bstr k" "int_dec n" env] assms(2,3) by (auto simp: bstr_def)
  then show ?thesis using that [of bs] by (simp add: rdbSaveAuxFieldStrInt_def ll_bytes_eq [OF assms(1)])
qed

lemma not_lua:
  "\<not> strcaseeq (bstr ''redis-ver'') ''lua''" "\<not> strcaseeq (bstr ''redis-bits'') ''lua''" "\<not> strcaseeq (bstr ''ctime'') ''lua''"
  "\<not> strcaseeq (bstr ''used-mem'') ''lua''" "\<not> strcaseeq (bstr ''aof-preamble'') ''lua''"
  by (simp_all add: strcaseeq_def bstr_def cstr_def lower_def)

lemma saved_info:
  assumes "env_ok env"
  obtains bs where "\<And>r. rdbSaveInfoAuxFields env r = Some (wrote bs r)" "\<And>env' s i t. plays env' bs (s, i, t) (s, i, t)"
proof -
  have n: "int64 64" "int64 (unix_time env)" "int64 (used_memory env)" "int64 (if aof_preamble env then 1 else 0)"
    using assms by (simp_all add: env_ok_def int64_def)
  obtain b1 where b1: "\<And>r. rdbSaveAuxFieldStrStr env ''redis-ver'' ''6.0.1'' r = Some (wrote b1 r)" "\<And>env' s i t. plays env' b1 (s, i, t) (s, i, t)"
    using saved_aux [of "bstr ''redis-ver''" "bstr ''6.0.1''" env] not_lua(1) by (auto simp: rdbSaveAuxFieldStrStr_def bstr_def)
  obtain b2 where b2: "\<And>r. rdbSaveAuxFieldStrInt env ''redis-bits'' 64 r = Some (wrote b2 r)" "\<And>env' s i t. plays env' b2 (s, i, t) (s, i, t)"
    using saved_aux_int [OF n(1) _ not_lua(2), of env] by auto
  obtain b3 where b3: "\<And>r. rdbSaveAuxFieldStrInt env ''ctime'' (unix_time env) r = Some (wrote b3 r)" "\<And>env' s i t. plays env' b3 (s, i, t) (s, i, t)"
    using saved_aux_int [OF n(2) _ not_lua(3), of env] by auto
  obtain b4 where b4: "\<And>r. rdbSaveAuxFieldStrInt env ''used-mem'' (used_memory env) r = Some (wrote b4 r)" "\<And>env' s i t. plays env' b4 (s, i, t) (s, i, t)"
    using saved_aux_int [OF n(3) _ not_lua(4), of env] by auto
  obtain b5 where b5: "\<And>r. rdbSaveAuxFieldStrInt env ''aof-preamble'' (if aof_preamble env then 1 else 0) r = Some (wrote b5 r)"
    "\<And>env' s i t. plays env' b5 (s, i, t) (s, i, t)"
    using saved_aux_int [OF n(4) _ not_lua(5), of env] by auto
  show ?thesis
    by (rule that [of "b1 @ b2 @ b3 @ b4 @ b5"])
      (simp_all add: rdbSaveInfoAuxFields_def b1(1) b2(1) b3(1) b4(1) b5(1) plays_append [OF b1(2)] plays_append [OF b2(2)] plays_append [OF b3(2)]
        plays_append [OF b4(2) b5(2)])
qed

subsection \<open>Files\<close>

text \<open>Loading in terms of the loop without fuel.\<close>

definition bad_header :: "bytes \<Rightarrow> bool" where
  "bad_header b \<longleftrightarrow> take 5 b \<noteq> bstr ''REDIS'' \<or> rdb_version b < 1 \<or> rdb_version b > 9"

definition load_footer :: "rdb_env \<Rightarrow> int \<Rightarrow> load_state \<Rightarrow> rdb_error + server" where
  "load_footer env ver st =
     (if ver < 5 then Inr (ls_srv st)
      else rbind (rdb_read 8 (ls_rio st)) (\<lambda>(c, r).
        if rdb_checksum env \<and> word_of_int (le_uint c) \<noteq> (0 :: u64) \<and> word_of_int (le_uint c) \<noteq> r_cksum (ls_rio st)
        then Inl CorruptRDB else Inr (ls_srv st)))"

lemma rdbLoadRio_eq:
  "rdbLoadRio env r s = Some (rbind (rdb_read 9 (r\<lparr>r_update_cksum := rdb_checksum env, r_chunk := events_interval env\<rparr>)) (\<lambda>(b, r1).
     if bad_header b then Inl WrongFormat else rbind (run_load env (at r1 (s, 0, -1))) (load_footer env (rdb_version b))))"
proof -
  let ?r = "r\<lparr>r_update_cksum := rdb_checksum env, r_chunk := events_interval env\<rparr>"
  have l: "load_loop (length (r_buf r) + 1) env \<lparr>ls_rio = r1, ls_srv = s, ls_db = 0, ls_expire = -1\<rparr> = Some (run_load env (at r1 (s, 0, -1)))"
    if "rdb_read 9 ?r = Inr (b, r1)" for b r1
  proof -
    have "left r1 \<le> left ?r" using read_left [OF that] by simp
    also have "\<dots> \<le> length (r_buf r)" by (simp add: rest_def)
    finally show ?thesis using load_loop_run [of "at r1 (s, 0, -1)" "length (r_buf r) + 1" env] by (simp add: at_def)
  qed
  show ?thesis
  proof (cases "rdb_read 9 ?r")
    case (Inr p)
    obtain b r1 where p: "p = (b, r1)" by (cases p)
    have "rdbLoadRio env r s = (if bad_header b then Some (Inl WrongFormat)
        else case run_load env (at r1 (s, 0, -1)) of Inl e \<Rightarrow> Some (Inl e) | Inr st \<Rightarrow> Some (load_footer env (rdb_version b) st))"
      unfolding rdbLoadRio_def Let_def Inr p bad_header_def load_footer_def sum.case prod.case l [OF Inr [unfolded p]] option.case rbind_def
      by (simp split: sum.split prod.split)
    then show ?thesis unfolding Inr p by (simp add: rbind_def split: sum.split)
  qed (simp add: rdbLoadRio_def)
qed

definition file_header :: bytes where
  "file_header = bstr ''REDIS0009''"

lemma file_header: "length file_header = 9" "rdb_version file_header = 9" "\<not> bad_header file_header"
proof -
  show l: "length file_header = 9" by (simp add: file_header_def bstr_def)
  show v: "rdb_version file_header = 9"
    by (simp add: file_header_def bstr_def rdb_version_def cstr_def strtoll_def is_space_def is_digit_def Let_def)
  show "\<not> bad_header file_header" unfolding bad_header_def v by (simp add: file_header_def bstr_def)
qed

text \<open>A file with the given contents between the header and the end, and its checksum.\<close>

definition file_of :: "bytes \<Rightarrow> u64 \<Rightarrow> bytes" where
  "file_of body c = file_header @ body @ [RDB_OPCODE_EOF] @ le_bytes 8 (uint c)"

lemma load_file:
  assumes "plays env body (s, 0, -1) (s', j, -1)" and c: "c = 0 \<or> c = foldl byte_update 0 (file_header @ body @ [RDB_OPCODE_EOF])"
  shows "rdbLoadRio env (rioInitWithBuffer a (file_of body c)) s = Some (Inr s')"
proof -
  define r where "r = (rioInitWithBuffer a (file_of body c))\<lparr>r_update_cksum := rdb_checksum env, r_chunk := events_interval env\<rparr>"
  let ?r1 = "skip file_header r" and ?r3 = "skip (file_header @ body @ [RDB_OPCODE_EOF]) r"
  have rest: "rest r = file_header @ body @ [RDB_OPCODE_EOF] @ le_bytes 8 (uint c)"
    by (simp add: r_def rest_def rioInitWithBuffer_def file_of_def)
  have h: "rdb_read 9 r = Inr (file_header, ?r1)" using reads_read [OF file_header(1)] rest by (simp add: reads_def)
  have "run_load env (at ?r1 (s, 0, -1)) = run_load env (at (skip body ?r1) (s', j, -1))"
    using assms(1) rest unfolding plays_def by simp
  also have "rdbLoadType (skip body ?r1) = Inr (RDB_OPCODE_EOF, ?r3)" using reads_type rest by (simp add: reads_def)
  then have "run_load env (at (skip body ?r1) (s', j, -1)) = Inr (at ?r3 (s', j, -1))" by (subst run_load_unfold) simp
  finally have run: "run_load env (at ?r1 (s, 0, -1)) = Inr (at ?r3 (s', j, -1))" .
  have f: "rdb_read 8 ?r3 = Inr (le_bytes 8 (uint c), skip (le_bytes 8 (uint c)) ?r3)"
    using reads_read [of "le_bytes 8 (uint c)" 8] rest by (simp add: reads_def)
  have "word_of_int (le_uint (le_bytes 8 (uint c))) = c" using unsigned_less [of c, where 'a = int] by (simp add: le_uint_le_bytes)
  moreover have "rdb_checksum env \<Longrightarrow> r_cksum ?r3 = foldl byte_update 0 (file_header @ body @ [RDB_OPCODE_EOF])"
    by (simp add: r_def skip_def add_cksum_def rioInitWithBuffer_def)
  ultimately have "load_footer env 9 (at ?r3 (s', j, -1)) = Inr s'" using c f by (auto simp: load_footer_def)
  then show ?thesis using h run file_header by (simp add: rdbLoadRio_eq flip: r_def)
qed

lemma load_file_prefix:
  assumes "plays env body (s, 0, -1) (s', j, -1)" and p: "strict_prefix xs (file_of body c)"
  shows "rdbLoadRio env (rioInitWithBuffer a xs) s = Some (Inl ReadError)"
proof -
  define r where "r = (rioInitWithBuffer a xs)\<lparr>r_update_cksum := rdb_checksum env, r_chunk := events_interval env\<rparr>"
  have rest: "rest r = xs" by (simp add: r_def rest_def rioInitWithBuffer_def)
  have load: "rdbLoadRio env (rioInitWithBuffer a xs) s = Some (rbind (rdb_read 9 r) (\<lambda>(b, r1).
     if bad_header b then Inl WrongFormat else rbind (run_load env (at r1 (s, 0, -1))) (load_footer env (rdb_version b))))"
    by (simp add: rdbLoadRio_eq r_def)
  show ?thesis
    using p unfolding file_of_def
  proof (rule strict_prefix_append_cases)
    assume "strict_prefix xs file_header"
    then show ?thesis unfolding load using reads_read [OF file_header(1)] rest by (simp add: reads_def)
  next
    fix ys assume xs: "xs = file_header @ ys" and ys: "strict_prefix ys (body @ [RDB_OPCODE_EOF] @ le_bytes 8 (uint c))"
    have h: "rdb_read 9 r = Inr (file_header, skip file_header r)" using reads_read [OF file_header(1)] rest xs by (simp add: reads_def)
    from ys show ?thesis
    proof (rule strict_prefix_append_cases)
      assume "strict_prefix ys body"
      then show ?thesis unfolding load using assms(1) h rest xs file_header by (simp add: plays_def)
    next
      fix zs assume ys: "ys = body @ zs" and zs: "strict_prefix zs ([RDB_OPCODE_EOF] @ le_bytes 8 (uint c))"
      let ?r = "skip body (skip file_header r)"
      have run: "run_load env (at (skip file_header r) (s, 0, -1)) = run_load env (at ?r (s', j, -1))"
        using assms(1) rest xs ys by (simp add: plays_def)
      have z: "rest ?r = zs" using rest xs ys by simp
      from zs show ?thesis
      proof (rule strict_prefix_append_cases)
        assume "strict_prefix zs [RDB_OPCODE_EOF]"
        then have "rdbLoadType ?r = Inl ReadError" using reads_type [of RDB_OPCODE_EOF] z by (simp add: reads_def)
        then have "run_load env (at ?r (s', j, -1)) = Inl ReadError" by (subst run_load_unfold) simp
        then show ?thesis unfolding load using h run file_header by simp
      next
        fix ws assume ws: "zs = [RDB_OPCODE_EOF] @ ws" "strict_prefix ws (le_bytes 8 (uint c))"
        then have "rdbLoadType ?r = Inr (RDB_OPCODE_EOF, skip [RDB_OPCODE_EOF] ?r)" using reads_type z by (simp add: reads_def)
        then have "run_load env (at ?r (s', j, -1)) = Inr (at (skip [RDB_OPCODE_EOF] ?r) (s', j, -1))" by (subst run_load_unfold) simp
        moreover have "rdb_read 8 (skip [RDB_OPCODE_EOF] ?r) = Inl ReadError"
          using reads_read [of "le_bytes 8 (uint c)" 8] z ws rest xs ys by (simp add: reads_def)
        ultimately show ?thesis unfolding load using h run file_header by (simp add: load_footer_def)
      qed
    qed
  qed
qed

text \<open>A server that can be saved, and one that has room for its databases.\<close>

definition server_saveable :: "server \<Rightarrow> bool" where
  "server_saveable s \<longleftrightarrow> dbnum s < 2 ^ 32 \<and> (\<forall>i < dbnum s. db_saveable s i)"

definition room_for :: "server \<Rightarrow> server \<Rightarrow> bool" where
  "room_for s s0 \<longleftrightarrow> dbnum s \<le> dbnum s0 \<and> (\<forall>i k. entry s0 i k = (None, None))"

lemma saved_server:
  assumes env: "env_ok env" and s: "server_saveable s"
  obtains r body c where "rdbSaveRio env s (rioInitWithBuffer a []) = Some r" "r_buf r = file_of body c"
    "c = 0 \<or> c = foldl byte_update 0 (file_header @ body @ [RDB_OPCODE_EOF])"
    "\<And>env' s0. room_for s s0 \<Longrightarrow> \<exists>s1 j. plays env' body (s0, 0, -1) (s1, j, -1) \<and> takes s (\<Union>i < dbnum s. keys_of s i) s0 s1"
proof -
  obtain hs where hs: "\<And>r. rdbSaveInfoAuxFields env r = Some (wrote hs r)" "\<And>env' s i t. plays env' hs (s, i, t) (s, i, t)"
    using saved_info [OF env] by blast
  have "\<forall>i \<in> set [0..<dbnum s]. db_saveable s i \<and> i < RDB_LENERR" using s by (auto simp: server_saveable_def RDB_LENERR_def)
  then obtain ds where ds: "\<And>r. save_dbs env [0..<dbnum s] s r = Some (wrote ds r)"
    "\<And>env' s1 j. \<forall>i < dbnum s. (\<forall>k. entry s1 i k = (None, None)) \<and> i < dbnum s1 \<Longrightarrow>
      \<exists>s2 j'. plays env' ds (s1, j, -1) (s2, j', -1) \<and> takes s (\<Union>i < dbnum s. keys_of s i) s1 s2"
    using saved_dbs [OF env, of "[0..<dbnum s]" s] by (auto simp: lessThan_atLeast0)
  define r0 where "r0 = (let r = rioInitWithBuffer a [] in if rdb_checksum env then r\<lparr>r_update_cksum := True\<rparr> else r)"
  define r3 where "r3 = wrote (file_header @ hs @ ds @ [RDB_OPCODE_EOF]) r0"
  have "rdbSaveRio env s (rioInitWithBuffer a []) = Some (wrote (le_bytes 8 (uint (r_cksum r3))) r3)"
    by (simp add: rdbSaveRio_def rdbWriteRaw_def rdbSaveType_def rioWrite_eq hs(1) ds(1) r3_def r0_def file_header_def Let_def)
  moreover have "r_buf (wrote (le_bytes 8 (uint (r_cksum r3))) r3) = file_of (hs @ ds) (r_cksum r3)"
    by (simp add: wrote_def r3_def r0_def rioInitWithBuffer_def file_of_def Let_def)
  moreover have "r_cksum r3 = 0 \<or> r_cksum r3 = foldl byte_update 0 (file_header @ (hs @ ds) @ [RDB_OPCODE_EOF])"
    by (simp add: r3_def r0_def wrote_def add_cksum_def rioInitWithBuffer_def Let_def)
  moreover have "\<exists>s1 j. plays env' (hs @ ds) (s0, 0, -1) (s1, j, -1) \<and> takes s (\<Union>i < dbnum s. keys_of s i) s0 s1"
    if room: "room_for s s0" for env' s0
  proof -
    obtain s1 j where "plays env' ds (s0, 0, -1) (s1, j, -1)" "takes s (\<Union>i < dbnum s. keys_of s i) s0 s1"
      using ds(2) [of s0 env' 0] room by (auto simp: room_for_def)
    then show ?thesis using plays_append [OF hs(2)] by blast
  qed
  ultimately show ?thesis using that by blast
qed

lemma takes_view:
  assumes "takes s (\<Union>i < dbnum s. keys_of s i) s0 s1" "room_for s s0" "i < dbnum s"
  shows "vent (clock s0) (entry s1 i k) = vent (clock s0) (entry s i k)"
proof (cases "k \<in> fst ` set (kv (db s i))")
  case True
  then show ?thesis using assms(1,3) by (force simp: takes_def)
next
  case False
  then have "(i, k) \<notin> (\<Union>i < dbnum s. keys_of s i)" by auto
  then have "entry s1 i k = (None, None)" using assms(1,2) by (simp add: takes_def room_for_def)
  moreover have "fst (entry s i k) = None" using False by (simp add: entry_def map_of_eq_None_iff)
  ultimately show ?thesis by (cases "entry s i k") (simp add: vent_def)
qed

end
