(* ===== verification/Persistence.thy ===== *)
theory Persistence
  imports Rdb_Server Examples
begin

text \<open>
  What saving and loading guarantee: the contents survive, a file that was cut off is refused, and
  loading ends whatever the file holds.
\<close>

subsection \<open>An example\<close>

definition ex_env :: rdb_env where
  "ex_env = \<lparr>rdb_compression = True, rdb_checksum = True, save_lru = False, save_lfu = True, idle_time = (\<lambda>_. 0), lfu_counter = (\<lambda>_. 5),
     lzf_table = (\<lambda>_. 0), fresh_mem = (\<lambda>_. 0), unix_time = 1, used_memory = 1000000, aof_preamble = False, allow_dup = False,
     events_interval = 2097152, lua_accepts = (\<lambda>_. False)\<rparr>"

lemma ex_env_ok: "env_ok ex_env"
  by (simp add: env_ok_def ex_env_def int64_def)

lemma ex_saveable: "server_saveable (ex_volatile 2000)"
  by (simp add: server_saveable_def db_saveable_def saveable_def ex_db_def ex_key_def bstr_def int64_def int_dec_def)

lemma ex_room: "room_for (ex_volatile 2000) ex_two"
  by (simp add: room_for_def)

subsection \<open>Properties\<close>

text \<open>
  C12: A server whose databases hold strings, saved to a dump file and loaded into an empty server, gives the same
  contents: every key has the same value and the same expire time, and keys that are expired by the
  time of loading are gone.  It does not matter whether strings were compressed, checksums were computed, or
  statistics for eviction were saved, nor whether the two servers are configured in the same way.
\<close>

theorem rdb_roundtrip:
  assumes "env_ok env" "server_saveable s" "room_for s s0"
  shows "\<exists>r s1. rdbSaveRio env s (rioInitWithBuffer a []) = Some r \<and> rdbLoadRio env' (rioInitWithBuffer b (r_buf r)) s0 = Some (Inr s1) \<and>
    (\<forall>i < dbnum s. \<forall>k. vw (clock s0) (entry s1) i k = vw (clock s0) (entry s) i k)"
proof -
  obtain r body c where save: "rdbSaveRio env s (rioInitWithBuffer a []) = Some r" and buf: "r_buf r = file_of body c"
    and c: "c = 0 \<or> c = foldl byte_update 0 (file_header @ body @ [RDB_OPCODE_EOF])"
    and play: "\<And>env' s0. room_for s s0 \<Longrightarrow> \<exists>s1 j. plays env' body (s0, 0, -1) (s1, j, -1) \<and> takes s (\<Union>i < dbnum s. keys_of s i) s0 s1"
    using saved_server [OF assms(1,2), of a] by blast
  obtain s1 j where s1: "plays env' body (s0, 0, -1) (s1, j, -1)" "takes s (\<Union>i < dbnum s. keys_of s i) s0 s1"
    using play [OF assms(3)] by blast
  have "vent (clock s0) (entry s1 i k) = vent (clock s0) (entry s i k)" if "i < dbnum s" for i k
    by (rule takes_view [OF s1(2) assms(3) that])
  then show ?thesis using save load_file [OF s1(1) c] buf by (auto simp: vw_def)
qed

theorem rdb_roundtrip_witness:
  "\<exists>r s1. rdbSaveRio ex_env (ex_volatile 2000) (rioInitWithBuffer 0 []) = Some r \<and>
    rdbLoadRio ex_env (rioInitWithBuffer 0 (r_buf r)) ex_two = Some (Inr s1) \<and> vw 1000 (entry s1) 0 ex_key = Some (AStr (bstr ''7''), Some 2000)"
proof -
  have v: "vw 1000 (entry (ex_volatile 2000)) 0 ex_key = Some (AStr (bstr ''7''), Some 2000)"
    by (simp only: vw_def) (simp add: vent_def expired_at_def int_dec_def bstr_def)
  obtain r s1 where "rdbSaveRio ex_env (ex_volatile 2000) (rioInitWithBuffer 0 []) = Some r"
      "rdbLoadRio ex_env (rioInitWithBuffer 0 (r_buf r)) ex_two = Some (Inr s1)"
    and e: "\<forall>i < dbnum (ex_volatile 2000). \<forall>k. vw (clock ex_two) (entry s1) i k = vw (clock ex_two) (entry (ex_volatile 2000)) i k"
    using rdb_roundtrip [OF ex_env_ok ex_saveable ex_room, of 0 ex_env 0] by blast
  moreover have "vw 1000 (entry s1) 0 ex_key = Some (AStr (bstr ''7''), Some 2000)"
    using e [rule_format, of 0 ex_key] v by simp
  ultimately show ?thesis by (intro exI conjI)
qed

text \<open>
  C17: A dump file that was cut off at any point is refused: loading a proper prefix of a saved file
  reports a read error.
\<close>

theorem rdb_truncated_refused:
  assumes "env_ok env" "server_saveable s" "room_for s s0"
    "rdbSaveRio env s (rioInitWithBuffer a []) = Some r" "strict_prefix p (r_buf r)"
  shows "rdbLoadRio env' (rioInitWithBuffer b p) s0 = Some (Inl ReadError)"
proof -
  obtain r' body c where r': "rdbSaveRio env s (rioInitWithBuffer a []) = Some r'" "r_buf r' = file_of body c"
    and c: "c = 0 \<or> c = foldl byte_update 0 (file_header @ body @ [RDB_OPCODE_EOF])"
    and play: "\<And>env' s0. room_for s s0 \<Longrightarrow> \<exists>s1 j. plays env' body (s0, 0, -1) (s1, j, -1) \<and> takes s (\<Union>i < dbnum s. keys_of s i) s0 s1"
    using saved_server [OF assms(1,2), of a] by blast
  have p: "strict_prefix p (file_of body c)" using r' assms(4,5) by simp
  obtain s1 j where "plays env' body (s0, 0, -1) (s1, j, -1)" using play [OF assms(3)] by blast
  then show ?thesis by (rule load_file_prefix [OF _ p])
qed

theorem rdb_truncated_refused_witness:
  "\<exists>r. rdbSaveRio ex_env (ex_volatile 2000) (rioInitWithBuffer 0 []) = Some r \<and>
    rdbLoadRio ex_env (rioInitWithBuffer 0 (butlast (r_buf r))) ex_two = Some (Inl ReadError)"
proof -
  obtain r body c where r: "rdbSaveRio ex_env (ex_volatile 2000) (rioInitWithBuffer 0 []) = Some r" "r_buf r = file_of body c"
    by (rule saved_server [OF ex_env_ok ex_saveable, of 0]) (rule that)
  have "r_buf r \<noteq> []" by (simp add: r(2) file_of_def)
  then have "strict_prefix (butlast (r_buf r)) (r_buf r)" by (metis append_butlast_last_id strict_prefixI')
  then show ?thesis using rdb_truncated_refused [OF ex_env_ok ex_saveable ex_room r(1), of _ ex_env 0] r(1) by blast
qed


end
