(* ===== verification/Spec2Isabelle.thy ===== *)
theory Spec2Isabelle
  imports Redis_Prelude Intset Util Dict Dict_Scan Dict_Iter Lzf Crc Examples Pubsub_Deliver Persistence
begin

text \<open>
  Verification of the Redis server vendored under \<open>src/redis-stable\<close>.
\<close>

unbundle bit_operations_syntax

subsection \<open>Evaluated lookups in the table of commands\<close>

lemma lookup_incr: "lookupCommand (bstr ''INCR'') = Some (command ''incr'' p_incrCommand 2 CMD_WRITE)"
  by code_simp

lemma lookup_watch: "lookupCommand (bstr ''WATCH'') = Some (command ''watch'' p_watchCommand (-2) 0)"
  by code_simp

lemma lookup_getrange: "lookupCommand (bstr ''GETRANGE'') = Some (command ''getrange'' p_getrangeCommand 4 CMD_READONLY)"
  by code_simp

lemma ex_incr_request: "request_ok [bstr ''INCR'', ex_key]"
  by (simp add: request_ok_def lookup_incr safe_args_def command_def)

text \<open>
  C1: a request of a client that is not inside MULTI, for a command on the keyspace that is not
  rejected, has exactly the effect that the specification of the command has on the abstract
  databases, as seen at the time of the request: an expired key is absent, encodings do not show.
  The client gets the replies of the specification and no other client gets any, and if the
  databases changed then the command goes to the replicas and the append only file.
\<close>

theorem request_refines:
  assumes "srv_inv s" "c \<in> set (client_list s)" "request_ok args" "\<not> has_flag (flags (clients s c)) CLIENT_MULTI"
    "lookupCommand (hd args) = Some cm" "\<not> arity_error cm (length args)" "denied c cm s = None" "proc cm \<notin> ctl_procs"
  shows "\<exists>V rs s'. key_spec cm (tl args) (clock s) (dbnum s) (cdb (clients s c)) (vw (clock s) (entry s)) = Some (V, rs) \<and>
    processCommand c args s = Some s' \<and> vw (clock s) (entry s') = V \<and> np s' = (np s)(c := np s c @ rs) \<and>
    (V \<noteq> vw (clock s) (entry s) \<longrightarrow> propagated c (cdb (clients s c)) s')"
proof -
  obtain V rs where r: "key_spec cm (tl args) (clock s) (dbnum s) (cdb (clients s c)) (vw (clock s) (entry s)) = Some (V, rs)"
    using key_spec_total [OF lookupCommand_in [OF assms(5)] assms(6,8)] by fast
  have "wp (processCommand c args s) (served c True s (V, rs))"
    by (rule request_served [OF assms]) (use r in \<open>simp add: spec_of_def\<close>)
  then show ?thesis using r by (auto simp: wp_iff served_def)
qed

theorem request_refines_witness:
  "\<exists>s'. processCommand 1 [bstr ''INCR'', ex_key] ex_two = Some s' \<and> np s' 1 = [LongLong 1] \<and> propagated 1 0 s'"
proof -
  let ?cm = "command ''incr'' p_incrCommand 2 CMD_WRITE" and ?args = "[bstr ''INCR'', ex_key]"
  have ok: "request_ok ?args" by (simp add: request_ok_def lookup_incr safe_args_def command_def)
  have d: "denied 1 ?cm ex_two = None" by (simp add: denied_def write_denied_def pubsub_denied_def state_denied_def)
  have v: "vw 1000 (entry ex_two) = (\<lambda>i k. None)" by (simp add: vw_def fun_eq_iff)
  have s: "key_spec ?cm [ex_key] 1000 16 0 (\<lambda>i k. None) = Some ((\<lambda>i k. None)(0 := Map.empty(ex_key \<mapsto> (AStr (int_dec 1), None))), [LongLong 1])"
    by (simp add: key_spec_def command_def on_db_def spec_incr_def ttl_of_def int64_def)
  have n: "(\<lambda>i k. None)(0 := Map.empty(ex_key \<mapsto> (AStr (int_dec 1), None))) \<noteq> (\<lambda>(i :: nat) k. None)" by (auto simp: fun_eq_iff)
  show ?thesis
    using request_refines [OF ex_two_inv, of 1 ?args ?cm] ok d s n by (auto simp: lookup_incr arity_error_def command_def v ctl_procs_def)
qed

text \<open>
  C2: EXEC of a transaction that was not disturbed has the effect of the specifications of the
  queued commands, one after the other on the databases at the time of EXEC with nothing in
  between, and answers with the number of commands and their replies in order.  Afterwards
  the client is out of the transaction and watches nothing.
\<close>

theorem exec_is_sequential:
  assumes "srv_inv s" "c \<in> set (client_list s)" "has_flag (flags (clients s c)) CLIENT_MULTI"
    "\<not> has_flag (flags (clients s c)) (CLIENT_DIRTY_CAS OR CLIENT_DIRTY_EXEC)" "\<not> has_flag (flags (clients s c)) CLIENT_PUBSUB"
    "\<forall>m \<in> set (mcommands (clients s c)). proc (mc_cmd m) \<notin> ctl_procs"
  shows "\<exists>V rs s'. exec_spec (mcommands (clients s c)) (clock s) (dbnum s) (cdb (clients s c)) (vw (clock s) (entry s)) = Some (V, rs) \<and>
    processCommand c [bstr ''EXEC''] s = Some s' \<and> vw (clock s) (entry s') = V \<and>
    np s' = (np s)(c := np s c @ ArrayLen (length (mcommands (clients s c))) # rs) \<and> finished c s'"
proof -
  have "\<forall>m \<in> set (mcommands (clients s c)). queued_ok m \<and> proc (mc_cmd m) \<notin> ctl_procs" using assms(1,6) by (simp add: srv_inv_def)
  then obtain V rs where r: "exec_spec (mcommands (clients s c)) (clock s) (dbnum s) (cdb (clients s c)) (vw (clock s) (entry s)) = Some (V, rs)"
    using exec_spec_total by fastforce
  have "wp (execCommand c (start_exec c s)) (\<lambda>s'. srv_inv s' \<and> finished c s' \<and> vw (clock s) (entry s') = V \<and>
      np s' = (np s)(c := np s c @ ArrayLen (length (mcommands (clients s c))) # rs))"
    by (rule wp_mono [OF execCommand_served [of _ _ "(V, rs)"]])
      (use assms r goodD(1,2) [OF start_exec_good [OF assms(1), of c]] in \<open>simp_all add: start_exec_same\<close>)
  from exec_served [OF assms(1,5) this [unfolded start_exec_def]] show ?thesis using r by blast
qed

lemma multi_flag_simps: "has_flag CLIENT_MULTI CLIENT_MULTI" "\<not> has_flag CLIENT_MULTI CLIENT_DIRTY_EXEC" "\<not> has_flag CLIENT_MULTI CLIENT_PUBSUB"
  by (simp_all add: has_flag_def client_flags)

theorem exec_is_sequential_witness:
  "\<exists>s'. processCommand 0 [bstr ''EXEC''] ex_watch = Some s' \<and> np s' 0 = [ArrayLen 1, LongLong 1] \<and> finished 0 s'"
proof -
  have v: "vw 1000 (entry ex_watch) = (\<lambda>i k. None)" by (simp add: vw_def fun_eq_iff)
  have "\<exists>V. exec_spec [ex_incr] 1000 16 0 (\<lambda>i k. None) = Some (V, [LongLong 1])"
    by (simp add: ex_incr_def key_spec_def command_def on_db_def spec_incr_def ttl_of_def int64_def)
  then show ?thesis
    using exec_is_sequential [OF ex_watch_inv, of 0]
    by (auto simp: multi_flag_simps v ctl_procs_def ex_incr_def command_def)
qed




text \<open>
  C6: in every state the server can reach, from a start with any well-formed databases and through
  any sequence of connections, requests, expirations and disconnections, the databases are well
  typed: a key occurs once, only existing keys have an expire time, and an integer encoding holds a
  64-bit number.
\<close>

theorem databases_are_typed:
  assumes "initial s" "run evs s s'"
  shows "distinct (map fst (kv (db s' i))) \<and> dom (expires (db s' i)) \<subseteq> fst ` set (kv (db s' i)) \<and>
    (\<forall>k v. (k, StrInt v) \<in> set (kv (db s' i)) \<longrightarrow> int64 v)"
proof -
  have d: "db_ok s'" using run_inv [OF assms(2) initial_inv [OF assms(1)]] by (simp add: srv_inv_def)
  then have e: "ent_ok (entry s' i k)" for k by (rule db_ok_ent)
  have dist: "distinct (map fst (kv (db s' i)))" using d by (simp add: db_ok_def)
  have "k \<in> fst ` set (kv (db s' i))" if "expires (db s' i) k \<noteq> None" for k
    using e [of k] that map_of_eq_None_iff [of "kv (db s' i)" k] by (auto simp: ent_ok_def entry_def)
  moreover have "int64 v" if "(k, StrInt v) \<in> set (kv (db s' i))" for k v
    using e [of k] map_of_is_SomeI [OF dist that] by (simp add: ent_ok_def entry_def)
  ultimately show ?thesis using dist by auto
qed

lemma ex_run_request:
  assumes "processCommand c args ex_two = Some s'" "c \<in> {0, 1}" "request_ok args"
  shows "run [Connect 0, Connect 1, Request c args] ex_start s'"
proof -
  have r: "run evs s s1 \<Longrightarrow> srv_step ev s1 s2 \<Longrightarrow> run (evs @ [ev]) s s2" for evs ev s s1 s2
    by (induction rule: run.induct) (auto intro: run.intros)
  from r [OF ex_two_run request [OF _ assms(3,1)]] assms(2) show ?thesis by simp
qed

lemma ex_incr_run: "map_option (\<lambda>s. kv (db s 0)) (processCommand 1 [bstr ''INCR'', ex_key] ex_two) = Some [(ex_key, StrInt 1)]"
  by code_simp

theorem databases_are_typed_witness:
  "\<exists>s'. run [Connect 0, Connect 1, Request 1 [bstr ''INCR'', ex_key]] ex_start s' \<and> kv (db s' 0) = [(ex_key, StrInt 1)] \<and> int64 1"
proof -
  obtain s' where s': "processCommand 1 [bstr ''INCR'', ex_key] ex_two = Some s'" "kv (db s' 0) = [(ex_key, StrInt 1)]"
    using ex_incr_run by (auto simp: map_option_case split: option.splits)
  have r: "run [Connect 0, Connect 1, Request 1 [bstr ''INCR'', ex_key]] ex_start s'"
    by (rule ex_run_request [OF s'(1)]) (simp_all add: ex_incr_request)
  show ?thesis using databases_are_typed [OF ex_initial r, of 0] r s'(2) by auto
qed

text \<open>
  C4: in every reachable state the tables of the server agree with what the clients hold: a client
  is listed under a key it watches, under the channels and under the patterns it subscribed to, and nowhere else, so that
  a change, a message or a disconnection finds exactly the clients concerned.  A client that left
  is in no table.
\<close>

theorem tables_agree:
  assumes "initial s" "run evs s s'"
  shows "(\<forall>i k c. (\<exists>cs. wkeys (db s' i) k = Some cs \<and> c \<in> set cs) \<longleftrightarrow> (i, k) \<in> set (watched (clients s' c))) \<and>
    (\<forall>ch c. (\<exists>cs. map_of (pubsub_channels s') ch = Some cs \<and> c \<in> set cs) \<longleftrightarrow> ch \<in> set (sub_channels (clients s' c))) \<and>
    (\<forall>p c. (\<exists>cs. map_of (pubsub_patterns_dict s') p = Some cs \<and> c \<in> set cs) \<longleftrightarrow> p \<in> set (sub_patterns (clients s' c))) \<and>
    (\<forall>p c. (c, p) \<in> set (pubsub_patterns s') \<longleftrightarrow> p \<in> set (sub_patterns (clients s' c))) \<and>
    (\<forall>c. c \<notin> set (client_list s') \<longrightarrow> watched (clients s' c) = [] \<and> sub_channels (clients s' c) = [] \<and> sub_patterns (clients s' c) = [])"
proof -
  have i: "srv_inv s'" by (rule run_inv [OF assms(2) initial_inv [OF assms(1)]])
  then have w: "watch_inv s'" and p: "pubsub_inv s'" by (simp_all add: srv_inv_def)
  have "(\<exists>cs. wkeys (db s' i) k = Some cs \<and> c \<in> set cs) \<longleftrightarrow> (i, k) \<in> set (watched (clients s' c))" for i k c
    using consistentD [of "wholders (wreg_of s')" "\<lambda>c. watched (clients s' c)" c "(i, k)"] w
    by (simp add: watch_inv_def wholders_watchers watchers_def in_case_option)
  moreover have "(\<exists>cs. map_of (pubsub_channels s') ch = Some cs \<and> c \<in> set cs) \<longleftrightarrow> ch \<in> set (sub_channels (clients s' c))" for ch c
    using consistentD [of "subscribers (pubsub_channels s')" "\<lambda>c. sub_channels (clients s' c)" c ch] p
    by (simp add: pubsub_inv_def subscribers_def in_case_option del: map_of_eq_Some_iff)
  moreover have "(\<exists>cs. map_of (pubsub_patterns_dict s') q = Some cs \<and> c \<in> set cs) \<longleftrightarrow> q \<in> set (sub_patterns (clients s' c))" for q c
    using consistentD [of "subscribers (pubsub_patterns_dict s')" "\<lambda>c. sub_patterns (clients s' c)" c q] p
    by (simp add: pubsub_inv_def subscribers_def in_case_option del: map_of_eq_Some_iff)
  moreover have "(c, q) \<in> set (pubsub_patterns s') \<longleftrightarrow> q \<in> set (sub_patterns (clients s' c))" for c q
    using p by (simp add: pubsub_inv_def)
  moreover have "watched (clients s' c) = [] \<and> sub_channels (clients s' c) = [] \<and> sub_patterns (clients s' c) = []" if "c \<notin> set (client_list s')" for c
    using i w that unfolding srv_inv_def watch_inv_def by blast
  ultimately show ?thesis by simp
qed

lemma ex_watch_run: "map_option (\<lambda>s. watched (clients s 0)) (processCommand 0 [bstr ''WATCH'', ex_key] ex_two) = Some [(0, ex_key)]"
  by code_simp

theorem tables_agree_witness:
  "\<exists>s'. run [Connect 0, Connect 1, Request 0 [bstr ''WATCH'', ex_key]] ex_start s' \<and> (\<exists>cs. wkeys (db s' 0) ex_key = Some cs \<and> 0 \<in> set cs)"
proof -
  obtain s' where s': "processCommand 0 [bstr ''WATCH'', ex_key] ex_two = Some s'" "watched (clients s' 0) = [(0, ex_key)]"
    using ex_watch_run by (auto simp: map_option_case split: option.splits)
  have r: "run [Connect 0, Connect 1, Request 0 [bstr ''WATCH'', ex_key]] ex_start s'"
    by (rule ex_run_request [OF s'(1)]) (simp_all add: request_ok_def lookup_watch safe_args_def command_def)
  show ?thesis using tables_agree [OF ex_initial r] r s'(2) by auto
qed

text \<open>
  C5: in every reachable state every request of a connected client is processed to its end, and
  every disconnection: no assertion of the server fails, no list is searched in vain and no memory
  outside of a buffer is touched.  The one exception is SETRANGE where the offset plus the length of the value exceeds \<open>LLONG_MAX\<close>.
\<close>

theorem requests_never_fail:
  assumes "initial s" "run evs s s'" "c \<in> set (client_list s')" "request_ok args"
  shows "(\<exists>s''. processCommand c args s' = Some s'') \<and> (\<exists>s''. freeClient c s' = Some s'')"
proof -
  have i: "srv_inv s'" by (rule run_inv [OF assms(2) initial_inv [OF assms(1)]])
  show ?thesis
    using processCommand_after [OF i assms(3,4), of UNIV] freeClient_inv [OF i, of c UNIV] by (auto simp: wp_iff)
qed

theorem requests_never_fail_witness:
  "\<exists>s''. processCommand 1 [bstr ''INCR'', ex_key] ex_two = Some s''"
  using requests_never_fail [OF ex_initial ex_two_run, of 1 "[bstr ''INCR'', ex_key]"]
  by (simp add: request_ok_def lookup_incr safe_args_def command_def)

text \<open>
  C7: a request that is answered with an error, for a command on the keyspace or one that is rejected, leaves the databases as
  they were seen before.
\<close>

theorem errors_change_nothing:
  assumes "srv_inv s" "c \<in> set (client_list s)" "request_ok args" "\<forall>cm. lookupCommand (hd args) = Some cm \<longrightarrow> proc cm \<notin> ctl_procs"
    "processCommand c args s = Some s'" "r \<in> set (drop (length (np s c)) (np s' c))" "is_error r"
  shows "vw (clock s) (entry s') = vw (clock s) (entry s)"
proof (cases "\<exists>cm. lookupCommand (hd args) = Some cm \<and> \<not> arity_error cm (length args) \<and> denied c cm s = None \<and> \<not> has_flag (flags (clients s c)) CLIENT_MULTI")
  case True
  then obtain cm where cm: "lookupCommand (hd args) = Some cm" "\<not> arity_error cm (length args)" "denied c cm s = None" "\<not> has_flag (flags (clients s c)) CLIENT_MULTI"
    by blast
  obtain V rs where r: "key_spec cm (tl args) (clock s) (dbnum s) (cdb (clients s c)) (vw (clock s) (entry s)) = Some (V, rs)"
    using key_spec_total [OF lookupCommand_in [OF cm(1)] cm(2)] assms(4) cm(1) by fast
  have "served c True s (V, rs) s'"
    using request_served [OF assms(1-3) cm(4,1-3), of "(V, rs)"] assms(4,5) cm(1) r by (simp add: wp_iff spec_of_def)
  then show ?thesis using key_spec_error [OF r _ assms(7)] assms(6) by (auto simp: served_def)
next
  case False
  then have "entry s' = entry s"
    using assms(5) by (rule processCommand_rejected [OF _ assms(4)])
  then show ?thesis by simp
qed

lemma ex_error: "map_option (\<lambda>s. reply (clients s 1)) (processCommand 1 [bstr ''GETRANGE'', ex_key, bstr ''x'', bstr ''y''] ex_two) =
    Some [Error (bstr ''value is not an integer or out of range'')]"
  by code_simp

theorem errors_change_nothing_witness:
  "\<exists>s'. processCommand 1 [bstr ''GETRANGE'', ex_key, bstr ''x'', bstr ''y''] ex_two = Some s' \<and> np s' 1 = [not_int] \<and> vw 1000 (entry s') = vw 1000 (entry ex_two)"
proof -
  let ?args = "[bstr ''GETRANGE'', ex_key, bstr ''x'', bstr ''y'']"
  have ok: "request_ok ?args" by (simp add: request_ok_def lookup_getrange safe_args_def command_def)
  obtain s' where s': "processCommand 1 ?args ex_two = Some s'" "reply (clients s' 1) = [Error (bstr ''value is not an integer or out of range'')]"
    using ex_error by (auto simp: map_option_case split: option.splits)
  then have n: "np s' 1 = [not_int]" by (simp add: np_def not_int_def)
  then show ?thesis
    using errors_change_nothing [OF ex_two_inv, of 1 ?args s' not_int] s'(1) ok
    by (simp add: lookup_getrange ctl_procs_def command_def is_error_def not_int_def)
qed


text \<open>
  C15: deleting a key in the background when its time is over does not show: the databases as the
  clients see them and what they were sent stay the same, and the key is deleted exactly when its time is over.  (A negative
  time counts as never over elsewhere, but as over here.)
\<close>

theorem expire_is_invisible:
  assumes "srv_inv s" "expires (db s i) k = Some t" "0 \<le> t"
  shows "\<exists>s' b. activeExpireCycleTryExpire i k (clock s) (s\<lparr>mstime := clock s\<rparr>) = Some (s', b) \<and> (b \<longleftrightarrow> t < clock s) \<and>
    vw (clock s) (entry s') = vw (clock s) (entry s) \<and> np s' = np s \<and> (b \<longrightarrow> entry s' i k = (None, None))"
proof -
  let ?s = "s\<lparr>mstime := clock s\<rparr>"
  have o: "entry ?s = entry s" "np ?s = np s" by (simp_all add: entry_def np_def fun_eq_iff)
  have "ctx ?s" using goodD(1) [OF set_time_good [OF assms(1), of UNIV "{}" "clock s"]] by (simp add: ctx_def srv_inv_def)
  from tryExpire_wp [OF this, of i k t "clock s"] assms(2)
  obtain r where r: "activeExpireCycleTryExpire i k (clock s) ?s = Some r"
      "if t < clock s then snd r \<and> tr ?s {(i, k)} {} (upd (entry ?s) i k (None, None)) (np ?s) (dirty ?s) (fst r) else r = (?s, False)"
    by (auto simp: wp_iff)
  have "vw (clock s) (upd (entry s) i k (None, None)) = vw (clock s) (entry s)" if "t < clock s"
  proof -
    have "vw (clock s) (entry s) i k = None"
      using assms(2,3) that by (auto simp: vw_def vent_def entry_def expired_at_def split: option.splits)
    then show ?thesis by simp
  qed
  then show ?thesis
    using r o by (cases r) (auto simp: tr_def split: if_splits)
qed

theorem expire_is_invisible_witness:
  "\<exists>s'. activeExpireCycleTryExpire 0 ex_key 1000 ((ex_volatile 500)\<lparr>mstime := 1000\<rparr>) = Some (s', True) \<and> entry s' 0 ex_key = (None, None)"
  using expire_is_invisible [OF ex_volatile_inv, of 500 0 ex_key 500] by auto

text \<open>
  C14: publishing a message appends to the output of each client exactly one message if it
  subscribed to the channel and one more for each pattern it subscribed to that matches the
  channel, and nothing else; the number returned is the number of messages over all clients.
\<close>

theorem publish_delivers:
  assumes "srv_inv s"
  shows "reply (clients (fst (pubsubPublishMessage ch m s)) c) = reply (clients s c) @ deliveries ch m s c \<and>
    snd (pubsubPublishMessage ch m s) = (\<Sum>c \<in> set (client_list s). length (deliveries ch m s c))"
  by (rule publish_effect [OF assms])

lemma match_news: "stringmatchlen (bstr ''n*'') (bstr ''news'') False"
  by code_simp

theorem publish_delivers_witness:
  "snd (pubsubPublishMessage (bstr ''news'') [1] ex_sub) = 2"
proof -
  have "deliveries (bstr ''news'') [1] ex_sub 0 = [message_item (bstr ''news'') [1] (clients ex_sub 0), pmessage_item (bstr ''news'') [1] (clients ex_sub 0) (bstr ''n*'')]"
    using match_news by (simp add: deliveries_def ex_sub_def)
  moreover have "deliveries (bstr ''news'') [1] ex_sub 1 = []" by (simp add: deliveries_def ex_sub_def)
  moreover have "client_list ex_sub = [0, 1]" by (simp add: ex_sub_def upd_client_def)
  ultimately show ?thesis using publish_delivers [OF ex_sub_inv, of "bstr ''news''" "[1]"] by simp
qed







text \<open>
  C30: SETRANGE on a missing key fails, with a request for more memory than there can be, when the offset plus the
  length of the value exceeds \<open>LLONG_MAX\<close>: the sum wraps around and passes the check of the
  maximal length of a string.
\<close>

theorem setrange_overflow_fails:
  assumes "string2ll off = Some n" "0 \<le> n" "2 ^ 63 \<le> n + int (length v)" "v \<noteq> []" "int (length v) \<le> 512 * 1024 * 1024"
    "lookupKeyWrite (cdb (clients s c)) k s = Some (s1, None)"
  shows "setrangeCommand c k off v s = None"
proof -
  have n: "n < 2 ^ 63" using int64_string2ll [OF assms(1)] by (simp add: int64_def)
  have "(n + int (length v) + 2 ^ 63) mod 2 ^ 64 = (n + int (length v) + 2 ^ 63 - 2 ^ 64) mod 2 ^ 64" by (rule minus_mod_self2 [symmetric])
  also have "\<dots> = n + int (length v) + 2 ^ 63 - 2 ^ 64" using assms(2,3,5) n by (intro mod_pos_pos_trivial) simp_all
  finally have "(n + int (length v) + 2 ^ 63) mod 2 ^ 64 = n + int (length v) + 2 ^ 63 - 2 ^ 64" .
  then have "wrap64 (n + int (length v)) \<le> 512 * 1024 * 1024" using assms(5) n by (simp add: wrap64_def)
  moreover have "(n + int (length v)) mod 2 ^ 64 = n + int (length v)" using assms(2,5) n by (intro mod_pos_pos_trivial) auto
  ultimately show ?thesis
    using assms by (simp add: setrangeCommand_def getLong_arg setrange_target_def Let_def checkStringLength_def sds_alloc_def serverAssert_def)
qed

theorem setrange_overflow_fails_witness:
  "setrangeCommand 0 ex_key (bstr ''9223372036854775807'') [1] ex_two = None"
proof -
  have n: "string2ll (bstr ''9223372036854775807'') = Some 9223372036854775807" by code_simp
  have "lookupKeyWrite (cdb (clients ex_two 0)) ex_key ex_two = Some (ex_two, None)"
    by (simp add: lookupKeyWrite_def expireIfNeeded_def keyIsExpired_def getExpire_def lookupKey_def ex_db_def)
  from setrange_overflow_fails [OF n _ _ _ _ this, of "[1]"] show ?thesis by simp
qed


end
